(* ===== verification/Prelude.thy ===== *)
theory Prelude
  imports Main "HOL-Library.Word"
begin

text \<open>
  Shared vocabulary of the development: the faults a C++ execution can run into, the result
  type of every fallible operation with its sequencing operator, the bytes of a heap buffer,
  C strings and the two C library routines the storage engine copies them with.
\<close>

section \<open>Machine types and faults\<close>

type_synonym u64 = "64 word"
type_synonym u32 = "32 word"

text \<open>
  A fault is a point where the C++ program has no defined behaviour or stops: a null or dangling
  pointer is followed, an array is indexed out of range, an indeterminate byte decides a branch,
  an \<open>assert\<close> fails (no build type of the project defines \<open>NDEBUG\<close>), a thread waits for a mutex
  that nobody can release, a division by zero traps, an arithmetic operation or a conversion has no
  representable value, a shift is as wide as its type, or a loop that never ends allocates until
  memory runs out.
\<close>

datatype fault =
    Null_Deref
  | Use_After_Free
  | Out_Of_Bounds
  | Uninit_Read
  | Assert_Failed
  | Would_Block
  | Div_By_Zero
  | Int_Overflow
  | Bad_Shift
  | Out_Of_Memory

type_synonym 'a res = "fault + 'a"

fun R_bind :: "'a res \<Rightarrow> ('a \<Rightarrow> 'b res) \<Rightarrow> 'b res" where
  "R_bind (Inl e) f = Inl e"
| "R_bind (Inr x) f = f x"

lemma R_bind_cong [fundef_cong]:
  "m = m' \<Longrightarrow> (\<And>x. m' = Inr x \<Longrightarrow> f x = f' x) \<Longrightarrow> R_bind m f = R_bind m' f'"
  by (cases m') auto

definition R_assert :: "bool \<Rightarrow> unit res" where
  "R_assert b = (if b then Inr () else Inl Assert_Failed)"

text \<open>Array element access \<open>a[i]\<close>.\<close>

definition R_nth :: "'a list \<Rightarrow> nat \<Rightarrow> 'a res" where
  "R_nth xs i = (if i < length xs then Inr (xs ! i) else Inl Out_Of_Bounds)"

text \<open>Following a pointer that may be null.\<close>

definition R_ptr :: "'a option \<Rightarrow> 'a res" where
  "R_ptr p = (case p of None \<Rightarrow> Inl Null_Deref | Some x \<Rightarrow> Inr x)"

text \<open>
  A loop that allocates in every round, as a partial function: if it does not end (\<open>None\<close>), the
  program runs out of memory.
\<close>

definition R_loop :: "'a option \<Rightarrow> 'a res" where
  "R_loop x = (case x of None \<Rightarrow> Inl Out_Of_Memory | Some y \<Rightarrow> Inr y)"

section \<open>Bytes and C strings\<close>

text \<open>A byte of a heap buffer: \<open>malloc\<close> hands out indeterminate bytes.\<close>

datatype byte = Uninit | Byte char

abbreviation NUL :: char where
  "NUL \<equiv> CHR 0x00"

text \<open>The part of a \<open>std::string\<close> that \<open>c_str()\<close> shows to a C routine.\<close>

definition c_str :: "string \<Rightarrow> string" where
  "c_str s = takeWhile (\<lambda>c. c \<noteq> NUL) s"

text \<open>\<open>char buf[n] = {0}; strncpy(buf, s.c_str(), n - 1);\<close>\<close>

definition strncpy_buf :: "nat \<Rightarrow> string \<Rightarrow> byte list" where
  "strncpy_buf n s =
     (let cs = take (n - 1) (c_str s)
      in map Byte cs @ replicate (n - length cs) (Byte NUL))"

text \<open>The characters \<open>std::string(p)\<close> reads from a pointer into a buffer.\<close>

fun read_cstr :: "byte list \<Rightarrow> string res" where
  "read_cstr [] = Inl Out_Of_Bounds"
| "read_cstr (Uninit # bs) = Inl Uninit_Read"
| "read_cstr (Byte c # bs) =
     (if c = NUL then Inr [] else R_bind (read_cstr bs) (\<lambda>s. Inr (c # s)))"

text \<open>\<open>strcmp(p, s) == 0\<close>, reading no further than the first difference; \<open>s\<close> has no NUL.\<close>

fun strcmp_eq :: "byte list \<Rightarrow> string \<Rightarrow> bool res" where
  "strcmp_eq [] ks = Inl Out_Of_Bounds"
| "strcmp_eq (Uninit # bs) ks = Inl Uninit_Read"
| "strcmp_eq (Byte c # bs) [] = Inr (c = NUL)"
| "strcmp_eq (Byte c # bs) (k # ks) = (if c = k then strcmp_eq bs ks else Inr False)"

text \<open>
  \<open>memcpy(&dst[pos], src, n)\<close>; \<open>src\<close> are the bytes that can be read from the source pointer on. The
  destination must have room for \<open>n\<close> bytes and the source must have as many.
\<close>

definition mem_copy :: "byte list \<Rightarrow> nat \<Rightarrow> byte list \<Rightarrow> nat \<Rightarrow> byte list res" where
  "mem_copy dst pos src n =
     (if pos + n \<le> length dst \<and> n \<le> length src
      then Inr (take pos dst @ take n src @ drop (pos + n) dst)
      else Inl Out_Of_Bounds)"

text \<open>
  What can be read from a pointer to an object on the stack: its bytes, and behind it what happens to
  lie there, of which \<open>k\<close> bytes can be read without leaving the stack.
\<close>

definition on_stack :: "nat \<Rightarrow> byte list \<Rightarrow> byte list" where
  "on_stack k bs = bs @ replicate k Uninit"

section \<open>Collections of rules\<close>

named_theorems res_simps \<open>equations of the result type used by every component\<close>
named_theorems wf_defs \<open>well-formedness predicates to unfold\<close>

lemma R_bind_Inr_iff [res_simps]:
  "R_bind m f = Inr y \<longleftrightarrow> (\<exists>x. m = Inr x \<and> f x = Inr y)"
  by (cases m) auto

lemma R_bind_Inl_iff [res_simps]:
  "R_bind m f = Inl e \<longleftrightarrow> (m = Inl e \<or> (\<exists>x. m = Inr x \<and> f x = Inl e))"
  by (cases m) auto

lemma R_bind_assoc: "R_bind (R_bind m f) g = R_bind m (\<lambda>x. R_bind (f x) g)"
  by (cases m) auto

lemma R_assert_True [simp]: "R_assert True = Inr ()"
  by (simp add: R_assert_def)

lemma R_assert_Inr_iff [res_simps]: "R_assert b = Inr u \<longleftrightarrow> b"
  by (simp add: R_assert_def)

lemma R_nth_in [simp]: "i < length xs \<Longrightarrow> R_nth xs i = Inr (xs ! i)"
  by (simp add: R_nth_def)

lemma R_nth_Inr_iff [res_simps]: "R_nth xs i = Inr x \<longleftrightarrow> i < length xs \<and> xs ! i = x"
  by (auto simp: R_nth_def)

lemma R_ptr_simps [simp]: "R_ptr (Some x) = Inr x" "R_ptr None = Inl Null_Deref"
  by (simp_all add: R_ptr_def)

lemma R_loop_simps [simp]: "R_loop (Some x) = Inr x" "R_loop None = Inl Out_Of_Memory"
  by (simp_all add: R_loop_def)

lemma R_loop_Inr_iff [res_simps]: "R_loop p = Inr x \<longleftrightarrow> p = Some x"
  by (simp add: R_loop_def split: option.splits)

lemma R_ptr_Inr_iff [res_simps]: "R_ptr p = Inr x \<longleftrightarrow> p = Some x"
  by (simp add: R_ptr_def split: option.splits)

section \<open>C string lemmas\<close>

definition nul_free :: "string \<Rightarrow> bool" where
  "nul_free s \<longleftrightarrow> NUL \<notin> set s"

lemma nul_free_c_str [simp]: "nul_free (c_str s)"
  by (auto simp: nul_free_def c_str_def dest: set_takeWhileD)

lemma nul_free_take [simp]: "nul_free s \<Longrightarrow> nul_free (take n s)"
  by (auto simp: nul_free_def dest: in_set_takeD)

lemma c_str_id: "nul_free s \<Longrightarrow> c_str s = s"
  by (induction s) (auto simp: nul_free_def c_str_def)

lemma c_str_c_str [simp]: "c_str (c_str s) = c_str s"
  by (simp add: c_str_id)

lemma length_strncpy_buf [simp]: "0 < n \<Longrightarrow> length (strncpy_buf n s) = n"
  by (simp add: strncpy_buf_def Let_def)

lemma read_cstr_append_NUL:
  "nul_free s \<Longrightarrow> read_cstr (map Byte s @ Byte NUL # rest) = Inr s"
  by (induction s) (auto simp: nul_free_def)

lemma strncpy_buf_split:
  assumes "0 < n"
  shows "\<exists>rest. strncpy_buf n s = map Byte (take (n - 1) (c_str s)) @ Byte NUL # rest"
proof -
  let ?k = "length (take (n - 1) (c_str s))"
  from assms have "?k < n" by simp
  then obtain m where "n - ?k = Suc m" by (metis Suc_diff_Suc)
  then show ?thesis by (simp add: strncpy_buf_def Let_def)
qed

lemma read_cstr_strncpy_buf:
  assumes "0 < n"
  shows "read_cstr (strncpy_buf n s @ rest) = Inr (take (n - 1) (c_str s))"
proof -
  obtain r where "strncpy_buf n s = map Byte (take (n - 1) (c_str s)) @ Byte NUL # r"
    using strncpy_buf_split [OF assms] by blast
  then show ?thesis by (simp add: read_cstr_append_NUL)
qed

lemma read_cstr_nul_free: "read_cstr bs = Inr s \<Longrightarrow> nul_free s"
  by (induction bs arbitrary: s rule: read_cstr.induct)
    (auto simp: nul_free_def res_simps split: if_splits)

lemma read_cstr_length: "read_cstr bs = Inr s \<Longrightarrow> length s < length bs"
  by (induction bs arbitrary: s rule: read_cstr.induct) (auto simp: res_simps split: if_splits)

lemma read_cstr_append: "read_cstr bs = Inr s \<Longrightarrow> read_cstr (bs @ rest) = Inr s"
  by (induction bs arbitrary: s rule: read_cstr.induct) (auto simp: res_simps split: if_splits)

lemma strcmp_eq_read_cstr:
  "read_cstr bs = Inr s \<Longrightarrow> nul_free k \<Longrightarrow> strcmp_eq bs k = Inr (s = k)"
proof (induction bs k arbitrary: s rule: strcmp_eq.induct)
  case (4 c bs k ks)
  then show ?case
    by (auto simp: res_simps nul_free_def split: if_splits)
qed (auto simp: res_simps nul_free_def split: if_splits)

lemma length_mem_copy: "mem_copy dst pos src n = Inr d \<Longrightarrow> length d = length dst"
  by (auto simp: mem_copy_def split: if_splits)

lemma mem_copy_full:
  "length src = n \<Longrightarrow> pos + n \<le> length dst
   \<Longrightarrow> mem_copy dst pos src n = Inr (take pos dst @ src @ drop (pos + n) dst)"
  by (simp add: mem_copy_def)

lemma u64_less_Suc: "(x :: u64) + 1 \<noteq> 0 \<Longrightarrow> x < x + 1"
  using unatSuc [of x] by (simp add: word_less_nat_alt add.commute)

lemma unat_Suc_bound: "unat (t :: u64) + Suc n < 2 ^ 64 \<Longrightarrow> t + 1 \<noteq> 0 \<and> unat (t + 1) + n < 2 ^ 64"
proof -
  assume b: "unat t + Suc n < 2 ^ 64"
  have "t + 1 \<noteq> 0"
  proof
    assume "t + 1 = 0"
    then have "t = - 1" by (simp add: eq_neg_iff_add_eq_0)
    then have "unat t = 2 ^ 64 - 1" by (simp add: unsigned_minus_1_eq_mask mask_eq_exp_minus_1)
    then show False using b by simp
  qed
  then show ?thesis using b unatSuc [of t] by (simp add: add.commute)
qed

end
