(* ===== verification/Config.thy ===== *)
theory Config
  imports Prelude
begin

text \<open>
  The compile-time configuration (\<open>Storage/System/config.h\<close>), the engine's enumerations and
  global parameters (\<open>Storage/System/global.h\<close>, \<open>global.cpp\<close>) and the return codes of the
  key-value API (\<open>Server/kv_api.h\<close>).
\<close>

section \<open>Configuration constants\<close>

definition THREAD_CNT :: nat where "THREAD_CNT = 4"

definition PART_CNT :: nat where "PART_CNT = 1"

definition PER_ROW_VALID :: bool where "PER_ROW_VALID = True"

definition PART_ALLOC :: bool where "PART_ALLOC = False"

definition MAX_ROW_PER_TXN :: nat where "MAX_ROW_PER_TXN = 64"

definition PAGE_SIZE :: nat where "PAGE_SIZE = 4096"

definition CL_SIZE :: u32 where "CL_SIZE = 64"

definition CPU_FREQ :: nat where "CPU_FREQ = 2"

definition MEM_PAD :: bool where "MEM_PAD = True"

definition MEM_ALLIGN :: nat where "MEM_ALLIGN = 8"

definition THREAD_ALLOC :: bool where "THREAD_ALLOC = False"

definition NO_FREE :: bool where "NO_FREE = False"

definition BUCKET_CNT :: nat where "BUCKET_CNT = 31"

definition ABORT_BUFFER_SIZE :: nat where "ABORT_BUFFER_SIZE = 10"

definition INIT_PARALLELISM :: nat where "INIT_PARALLELISM = 40"

definition PRT_LAT_DISTR :: bool where "PRT_LAT_DISTR = False"

text \<open>The global parameters: variables initialised from the constants and never assigned.\<close>

definition g_part_alloc :: bool where "g_part_alloc = PART_ALLOC"

definition g_mem_pad :: bool where "g_mem_pad = MEM_PAD"

definition g_part_cnt :: nat where "g_part_cnt = PART_CNT"

definition g_thread_cnt :: nat where "g_thread_cnt = THREAD_CNT"

definition g_ts_batch_alloc :: bool where "g_ts_batch_alloc = False"

definition g_ts_batch_num :: nat where "g_ts_batch_num = 10"

definition g_init_parallelism :: nat where "g_init_parallelism = INIT_PARALLELISM"

definition warmup_finish :: bool where "warmup_finish = False"

definition enable_thread_mem_pool :: bool where "enable_thread_mem_pool = False"

definition g_prt_lat_distr :: bool where "g_prt_lat_distr = PRT_LAT_DISTR"

section \<open>Enumerations\<close>

datatype RC = RCOK | Commit | Abort | WAIT | ERROR | FINISH

datatype access_t = RD | WR | XP | SCAN

datatype TsType = R_REQ | W_REQ | P_REQ | XP_REQ

text \<open>Latch and lock modes and the kinds of an index access; the concurrency control of the engine uses none of them.\<close>

datatype latch_t = LATCH_EX | LATCH_SH | LATCH_NONE

datatype idx_acc_t = INDEX_INSERT | INDEX_READ | INDEX_NONE

datatype lock_t = LOCK_EX | LOCK_SH | LOCK_NONE

datatype TPCCTxnType =
    TPCC_ALL | TPCC_PAYMENT | TPCC_NEW_ORDER | TPCC_ORDER_STATUS | TPCC_DELIVERY | TPCC_STOCK_LEVEL

definition g_tpcc_txn_type :: TPCCTxnType where "g_tpcc_txn_type = TPCC_ALL"

datatype TestCases = READ_WRITE | CONFLICT

definition g_test_case :: TestCases where "g_test_case = CONFLICT"

datatype Data_type = DT_table | DT_page | DT_row

text \<open>\<open>server::Rc\<close>, the codes the key-value API returns to the session.\<close>

datatype Rc = Rc_OK | Rc_NOT_FOUND | Rc_ABORT | Rc_ERROR

end
