(* ===== verification/Catalog.thy ===== *)
theory Catalog
  imports Config
begin

text \<open>
  Table schemas (\<open>Storage/DataFormat/catalog.h\<close>, \<open>catalog.cpp\<close>): columns with their sizes and
  byte offsets. \<open>Column\<close> and \<open>Catalog\<close> are the records of the classes, \<open>catalog_init\<close> and
  \<open>add_col\<close> build a schema, the \<open>get_\<dots>\<close> functions read it. Sizes and offsets are 32-bit, as the
  fields of the classes are.
\<close>

section \<open>Columns and schemas\<close>

record Column =
  col_id :: u64
  col_size :: u32
  col_index :: u32
  col_type :: string
  col_name :: string

text \<open>
  \<open>_columns\<close> is an array of default-constructed columns, whose numeric fields are indeterminate
  (\<open>None\<close>) until \<open>add_col\<close> fills them.
\<close>

record Catalog =
  cat_table_name :: string
  field_cnt :: u32
  tuple_size :: u32
  columns :: "Column option list"

definition catalog_init :: "string \<Rightarrow> nat \<Rightarrow> Catalog" where
  "catalog_init name cnt =
     \<lparr>cat_table_name = name, field_cnt = 0, tuple_size = 0, columns = replicate cnt None\<rparr>"

text \<open>\<open>strcpy\<close> into one of the 80-byte buffers of a column.\<close>

definition strcpy80 :: "string \<Rightarrow> string res" where
  "strcpy80 s = (if length (c_str s) < 80 then Inr (c_str s) else Inl Out_Of_Bounds)"

definition add_col :: "Catalog \<Rightarrow> string \<Rightarrow> u64 \<Rightarrow> string \<Rightarrow> Catalog res" where
  "add_col c name sz ty =
     (let i = unat (field_cnt c)
      in if i < length (columns c)
         then R_bind (strcpy80 ty) (\<lambda>ty'. R_bind (strcpy80 name) (\<lambda>name'.
           Inr (c\<lparr>columns := (columns c)[i := Some
                    \<lparr>col_id = ucast (field_cnt c), col_size = ucast sz,
                     col_index = tuple_size c, col_type = ty', col_name = name'\<rparr>],
                  tuple_size := ucast (ucast (tuple_size c) + sz),
                  field_cnt := field_cnt c + 1\<rparr>)))
         else Inl Out_Of_Bounds)"

section \<open>Reading a schema\<close>

definition get_column :: "Catalog \<Rightarrow> nat \<Rightarrow> Column res" where
  "get_column c i =
     R_bind (R_nth (columns c) i) (\<lambda>col.
       case col of None \<Rightarrow> Inl Uninit_Read | Some cl \<Rightarrow> Inr cl)"

definition get_field_size :: "Catalog \<Rightarrow> nat \<Rightarrow> nat res" where
  "get_field_size c i = R_bind (get_column c i) (\<lambda>cl. Inr (unat (col_size cl)))"

definition get_field_index :: "Catalog \<Rightarrow> nat \<Rightarrow> nat res" where
  "get_field_index c i = R_bind (get_column c i) (\<lambda>cl. Inr (unat (col_index cl)))"

definition get_field_type :: "Catalog \<Rightarrow> nat \<Rightarrow> string res" where
  "get_field_type c i = R_bind (get_column c i) (\<lambda>cl. Inr (col_type cl))"

definition get_field_name :: "Catalog \<Rightarrow> nat \<Rightarrow> string res" where
  "get_field_name c i = R_bind (get_column c i) (\<lambda>cl. Inr (col_name cl))"

definition get_tuple_size :: "Catalog \<Rightarrow> nat" where
  "get_tuple_size c = unat (tuple_size c)"

text \<open>
  \<open>get_field_id\<close> scans the columns from 0 and asserts that it stopped before \<open>field_cnt\<close>. The scan
  visits \<open>fuel\<close> more columns from \<open>i\<close> on; called with \<open>field_cnt\<close> it is the loop of the source.
\<close>

fun scan_field :: "Catalog \<Rightarrow> string \<Rightarrow> nat \<Rightarrow> nat \<Rightarrow> nat res" where
  "scan_field c name i 0 = Inr i"
| "scan_field c name i (Suc n) =
     R_bind (get_field_name c i) (\<lambda>nm.
       if c_str name = nm then Inr i else scan_field c name (Suc i) n)"

definition get_field_id :: "Catalog \<Rightarrow> string \<Rightarrow> nat res" where
  "get_field_id c name =
     R_bind (scan_field c name 0 (unat (field_cnt c))) (\<lambda>i.
       R_bind (R_assert (i < unat (field_cnt c))) (\<lambda>_. Inr i))"

definition get_field_type_by_name :: "Catalog \<Rightarrow> string \<Rightarrow> string res" where
  "get_field_type_by_name c name = R_bind (get_field_id c name) (get_field_type c)"

definition get_field_index_by_name :: "Catalog \<Rightarrow> string \<Rightarrow> nat res" where
  "get_field_index_by_name c name = R_bind (get_field_id c name) (get_field_index c)"

text \<open>Several columns added in order, as \<open>workload::init_schema\<close> does for the lines of a table.\<close>

fun add_cols :: "Catalog \<Rightarrow> (u64 \<times> string \<times> string) list \<Rightarrow> Catalog res" where
  "add_cols c [] = Inr c"
| "add_cols c ((sz, ty, name) # fs) = R_bind (add_col c name sz ty) (\<lambda>c'. add_cols c' fs)"

section \<open>Schema invariant\<close>

text \<open>
  The layout invariant: the filled columns are exactly the first \<open>field_cnt\<close>, column \<open>i\<close> carries
  the id \<open>i\<close> and starts where the columns before it end, and the tuple is as long as all of them.
\<close>

definition sizes_upto :: "Catalog \<Rightarrow> nat \<Rightarrow> nat" where
  "sizes_upto c n = (\<Sum>j<n. case columns c ! j of None \<Rightarrow> 0 | Some cl \<Rightarrow> unat (col_size cl))"

definition wf_catalog :: "Catalog \<Rightarrow> bool" where
  "wf_catalog c \<longleftrightarrow>
     unat (field_cnt c) \<le> length (columns c) \<and>
     (\<forall>i < unat (field_cnt c). \<exists>cl. columns c ! i = Some cl \<and> unat (col_id cl) = i \<and>
        unat (col_index cl) = sizes_upto c i \<and> nul_free (col_name cl)) \<and>
     unat (tuple_size c) = sizes_upto c (unat (field_cnt c))"

lemma wf_catalog_init [simp]: "wf_catalog (catalog_init name n)"
  by (simp add: wf_catalog_def catalog_init_def sizes_upto_def)

lemma sizes_upto_mono: "i \<le> j \<Longrightarrow> sizes_upto c i \<le> sizes_upto c j"
  unfolding sizes_upto_def by (rule sum_mono2) auto

lemma sizes_upto_update_beyond:
  "n \<le> i \<Longrightarrow> sizes_upto (c\<lparr>columns := (columns c)[i := x], tuple_size := t, field_cnt := f\<rparr>) n
     = sizes_upto c n"
  by (auto simp: sizes_upto_def intro!: sum.cong)

lemma wf_catalog_column:
  assumes "wf_catalog c" and "i < unat (field_cnt c)"
  obtains cl where "columns c ! i = Some cl" and "get_column c i = Inr cl"
    and "unat (col_id cl) = i" and "unat (col_index cl) = sizes_upto c i"
    and "sizes_upto c (Suc i) = sizes_upto c i + unat (col_size cl)"
    and "nul_free (col_name cl)"
proof -
  from assms obtain cl where cl: "columns c ! i = Some cl" "unat (col_id cl) = i"
    "unat (col_index cl) = sizes_upto c i" "nul_free (col_name cl)"
    by (auto simp: wf_catalog_def)
  moreover have "get_column c i = Inr cl"
    using assms cl by (simp add: get_column_def wf_catalog_def)
  moreover have "sizes_upto c (Suc i) = sizes_upto c i + unat (col_size cl)"
    using cl by (simp add: sizes_upto_def)
  ultimately show ?thesis using that by blast
qed


section \<open>Adding columns\<close>

text \<open>
  One column added with room in the array, names that fit the 80-byte buffers and a tuple that
  stays below 4 GiB: the schema stays well-formed and the new column starts at the old tuple size.
\<close>

definition col_fits :: "Catalog \<Rightarrow> string \<Rightarrow> u64 \<Rightarrow> string \<Rightarrow> bool" where
  "col_fits c name sz ty \<longleftrightarrow>
     unat (field_cnt c) < length (columns c) \<and> length (columns c) < 2 ^ 32 \<and>
     length (c_str name) < 80 \<and> length (c_str ty) < 80 \<and>
     unat (tuple_size c) + unat sz < 2 ^ 32"

lemma unat_ucast_u64_u32:
  "unat (sz :: u64) < 2 ^ 32 \<Longrightarrow> unat (ucast sz :: u32) = unat sz"
  by (simp add: unsigned_ucast_eq take_bit_nat_eq_self)

lemma unat_ucast_u32_u64: "unat (ucast (w :: u32) :: u64) = unat w"
proof -
  have "unat w < 2 ^ 32" using unsigned_less [of w, where 'a = nat] by simp
  then show ?thesis by (simp add: unsigned_ucast_eq take_bit_nat_eq_self)
qed

lemma unat_tuple_size_sum:
  assumes "unat (t :: u32) + unat (sz :: u64) < 2 ^ 32"
  shows "unat (ucast (ucast t + sz :: u64) :: u32) = unat t + unat sz"
proof -
  have "unat (ucast t + sz :: u64) = unat t + unat sz"
    using assms by (subst unat_add_lem [THEN iffD1]) (simp_all add: unat_ucast_u32_u64)
  then show ?thesis using assms by (simp add: unat_ucast_u64_u32)
qed

lemma unat_field_cnt_Suc:
  "unat (n :: u32) < k \<Longrightarrow> k < 2 ^ 32 \<Longrightarrow> unat (n + 1) = Suc (unat n)"
  by (subst unat_add_lem [THEN iffD1]) simp_all

lemma add_col_ok:
  assumes "wf_catalog c" and "col_fits c name sz ty"
  obtains c' where "add_col c name sz ty = Inr c'" and "wf_catalog c'"
    and "field_cnt c' = field_cnt c + 1" and "unat (field_cnt c') = Suc (unat (field_cnt c))"
    and "length (columns c') = length (columns c)"
    and "unat (tuple_size c') = unat (tuple_size c) + unat sz"
    and "get_field_index c' (unat (field_cnt c)) = Inr (unat (tuple_size c))"
    and "get_field_size c' (unat (field_cnt c)) = Inr (unat sz)"
    and "get_field_name c' (unat (field_cnt c)) = Inr (c_str name)"
    and "\<And>i. i < unat (field_cnt c) \<Longrightarrow> get_column c' i = get_column c i"
proof -
  define n where "n = unat (field_cnt c)"
  define cl where "cl = \<lparr>col_id = ucast (field_cnt c), col_size = ucast sz,
    col_index = tuple_size c, col_type = c_str ty, col_name = c_str name\<rparr>"
  define c' where "c' = c\<lparr>columns := (columns c)[n := Some cl],
    tuple_size := ucast (ucast (tuple_size c) + sz), field_cnt := field_cnt c + 1\<rparr>"
  from assms(2) have fits: "n < length (columns c)" "length (columns c) < 2 ^ 32"
    "length (c_str name) < 80" "length (c_str ty) < 80" "unat (tuple_size c) + unat sz < 2 ^ 32"
    by (simp_all add: col_fits_def n_def)
  have add: "add_col c name sz ty = Inr c'"
    using fits by (simp add: add_col_def strcpy80_def c'_def cl_def n_def Let_def)
  have cnt: "unat (field_cnt c + 1) = Suc n"
    using fits by (simp add: unat_field_cnt_Suc n_def)
  have ts: "unat (ucast (ucast (tuple_size c) + sz :: u64) :: u32) = unat (tuple_size c) + unat sz"
    using fits by (simp add: unat_tuple_size_sum)
  have szs: "unat (ucast sz :: u32) = unat sz"
    using fits by (simp add: unat_ucast_u64_u32)
  have pre: "sizes_upto c' i = sizes_upto c i" if "i \<le> n" for i
    using that by (simp add: c'_def sizes_upto_update_beyond)
  have last: "sizes_upto c' (Suc n) = sizes_upto c n + unat sz"
    using pre [of n] fits szs by (simp add: sizes_upto_def c'_def cl_def)
  have old: "columns c' ! i = columns c ! i" if "i < n" for i
    using that by (simp add: c'_def)
  have new: "columns c' ! n = Some cl"
    using fits by (simp add: c'_def)
  have lens: "length (columns c') = length (columns c)" and fc: "unat (field_cnt c') = Suc n"
    and ts': "unat (tuple_size c') = unat (tuple_size c) + unat sz"
    using cnt ts by (simp_all add: c'_def)
  have wf: "wf_catalog c'"
    unfolding wf_catalog_def
  proof (intro conjI allI impI)
    show "unat (field_cnt c') \<le> length (columns c')" using fits lens fc by simp
    show "unat (tuple_size c') = sizes_upto c' (unat (field_cnt c'))"
      using assms(1) ts' fc last by (simp add: wf_catalog_def n_def)
    fix i assume "i < unat (field_cnt c')"
    then consider "i < n" | "i = n" using fc by force
    then show "\<exists>cl. columns c' ! i = Some cl \<and> unat (col_id cl) = i \<and>
        unat (col_index cl) = sizes_upto c' i \<and> nul_free (col_name cl)"
    proof cases
      case 1
      then show ?thesis using assms(1) pre [of i] old [of i]
        by (simp add: wf_catalog_def n_def)
    next
      case 2
      then show ?thesis using assms(1) pre [of n] new
        by (simp add: cl_def wf_catalog_def n_def unat_ucast_u32_u64)
    qed
  qed
  have col: "get_column c' n = Inr cl"
    using new fits lens by (simp add: get_column_def)
  have oldcol: "get_column c' i = get_column c i" if "i < n" for i
    using that old [of i] lens fits by (simp add: get_column_def R_nth_def)
  show ?thesis
    using that [OF add wf] lens fc ts' col oldcol szs n_def
    by (simp add: get_field_index_def get_field_size_def get_field_name_def cl_def c'_def)
qed

section \<open>Looking columns up by name\<close>

lemma scan_field_spec:
  assumes "wf_catalog c" and "i + n = unat (field_cnt c)"
  shows "\<exists>r. scan_field c name i n = Inr r \<and> i \<le> r \<and> r \<le> i + n \<and>
    (\<forall>j. i \<le> j \<and> j < r \<longrightarrow> get_field_name c j \<noteq> Inr (c_str name)) \<and>
    (r < i + n \<longrightarrow> get_field_name c r = Inr (c_str name))"
  using assms(2)
proof (induction n arbitrary: i)
  case 0
  then show ?case by auto
next
  case (Suc n)
  from Suc.prems have "i < unat (field_cnt c)" by simp
  then obtain cl where cl: "get_column c i = Inr cl"
    by (rule wf_catalog_column [OF assms(1)])
  then have nm: "get_field_name c i = Inr (col_name cl)"
    by (simp add: get_field_name_def)
  show ?case
  proof (cases "c_str name = col_name cl")
    case True
    then show ?thesis using nm by auto
  next
    case False
    from Suc.prems have "Suc i + n = unat (field_cnt c)" by simp
    from Suc.IH [OF this] obtain r where r: "scan_field c name (Suc i) n = Inr r" "Suc i \<le> r" "r \<le> Suc i + n"
      "\<forall>j. Suc i \<le> j \<and> j < r \<longrightarrow> get_field_name c j \<noteq> Inr (c_str name)"
      "r < Suc i + n \<longrightarrow> get_field_name c r = Inr (c_str name)"
      by blast
    have "get_field_name c j \<noteq> Inr (c_str name)" if "i \<le> j" "j < r" for j
      using that r(4) nm False by (cases "j = i") auto
    then show ?thesis using r nm False by auto
  qed
qed

section \<open>Properties of schemas\<close>

lemma wf_catalog_disjoint:
  assumes "wf_catalog c" and "i < j" and "j < unat (field_cnt c)"
  shows "\<exists>pi si pj sj. get_field_index c i = Inr pi \<and> get_field_size c i = Inr si \<and>
    get_field_index c j = Inr pj \<and> get_field_size c j = Inr sj \<and> pi + si \<le> pj \<and> pj + sj \<le> get_tuple_size c"
proof -
  from assms(2,3) have i: "i < unat (field_cnt c)" by simp
  obtain ci where ci: "get_column c i = Inr ci" "unat (col_index ci) = sizes_upto c i"
    "sizes_upto c (Suc i) = sizes_upto c i + unat (col_size ci)"
    by (rule wf_catalog_column [OF assms(1) i])
  obtain cj where cj: "get_column c j = Inr cj" "unat (col_index cj) = sizes_upto c j"
    "sizes_upto c (Suc j) = sizes_upto c j + unat (col_size cj)"
    by (rule wf_catalog_column [OF assms(1,3)])
  have "sizes_upto c (Suc i) \<le> sizes_upto c j"
    and "sizes_upto c (Suc j) \<le> sizes_upto c (unat (field_cnt c))"
    using assms(2,3) by (simp_all add: sizes_upto_mono)
  then show ?thesis
    using assms ci cj
    by (simp add: get_field_index_def get_field_size_def get_tuple_size_def wf_catalog_def)
qed

lemma add_cols_layout_aux:
  assumes "wf_catalog c" and "unat (field_cnt c) + length fs \<le> length (columns c)"
    and "length (columns c) < 2 ^ 32"
    and "\<forall>(sz, ty, name) \<in> set fs. length (c_str name) < 80 \<and> length (c_str ty) < 80"
    and "unat (tuple_size c) + sum_list (map (\<lambda>f. unat (fst f)) fs) < 2 ^ 32"
  shows "\<exists>c'. add_cols c fs = Inr c' \<and> wf_catalog c' \<and>
    unat (field_cnt c') = unat (field_cnt c) + length fs \<and>
    get_tuple_size c' = unat (tuple_size c) + sum_list (map (\<lambda>f. unat (fst f)) fs) \<and>
    (\<forall>i < unat (field_cnt c). get_column c' i = get_column c i) \<and>
    (\<forall>i < length fs.
      get_field_index c' (unat (field_cnt c) + i) =
        Inr (unat (tuple_size c) + sum_list (map (\<lambda>f. unat (fst f)) (take i fs))) \<and>
      get_field_size c' (unat (field_cnt c) + i) = Inr (unat (fst (fs ! i))) \<and>
      get_field_name c' (unat (field_cnt c) + i) = Inr (c_str (snd (snd (fs ! i)))))"
  using assms
proof (induction fs arbitrary: c)
  case Nil
  then show ?case by (simp add: get_tuple_size_def)
next
  case (Cons f fs)
  obtain sz ty name where f: "f = (sz, ty, name)" by (cases f)
  define n where "n = unat (field_cnt c)"
  have "col_fits c name sz ty"
    using Cons.prems f by (simp add: col_fits_def)
  from add_col_ok [OF Cons.prems(1) this] obtain c1 where c1:
    "add_col c name sz ty = Inr c1" "wf_catalog c1" "unat (field_cnt c1) = Suc n"
    "length (columns c1) = length (columns c)"
    "unat (tuple_size c1) = unat (tuple_size c) + unat sz"
    "get_field_index c1 n = Inr (unat (tuple_size c))" "get_field_size c1 n = Inr (unat sz)"
    "get_field_name c1 n = Inr (c_str name)"
    "\<And>i. i < n \<Longrightarrow> get_column c1 i = get_column c i"
    unfolding n_def by blast
  from Cons.IH [OF c1(2)] Cons.prems c1 f n_def obtain c2 where c2:
    "add_cols c1 fs = Inr c2" "wf_catalog c2" "unat (field_cnt c2) = Suc n + length fs"
    "get_tuple_size c2 = unat (tuple_size c1) + sum_list (map (\<lambda>f. unat (fst f)) fs)"
    "\<forall>i < Suc n. get_column c2 i = get_column c1 i"
    "\<forall>i < length fs. get_field_index c2 (Suc n + i) =
        Inr (unat (tuple_size c1) + sum_list (map (\<lambda>f. unat (fst f)) (take i fs))) \<and>
      get_field_size c2 (Suc n + i) = Inr (unat (fst (fs ! i))) \<and>
      get_field_name c2 (Suc n + i) = Inr (c_str (snd (snd (fs ! i))))"
    by auto
  have "get_field_index c2 (n + i) =
        Inr (unat (tuple_size c) + sum_list (map (\<lambda>f. unat (fst f)) (take i (f # fs)))) \<and>
      get_field_size c2 (n + i) = Inr (unat (fst ((f # fs) ! i))) \<and>
      get_field_name c2 (n + i) = Inr (c_str (snd (snd ((f # fs) ! i))))"
    if "i < length (f # fs)" for i
  proof (cases i)
    case 0
    then show ?thesis using c1 c2(5) f
      by (simp add: get_field_index_def get_field_size_def get_field_name_def)
  next
    case (Suc j)
    then show ?thesis using that c2(6) c1(5) f by simp
  qed
  then show ?case
    using c1 c2 f by (simp add: n_def)
qed

text \<open>
  A schema built by \<open>init\<close> and one \<open>add_col\<close> per field lays the fields out in order without
  gaps: field \<open>i\<close> starts at the sum of the sizes before it, keeps its size and its name, and the
  tuple size is the sum of all sizes. The bounds are those of the class: room in the column array,
  names that fit 80 bytes, and a tuple below 4 GiB.
\<close>

lemma catalog_build_layout:
  assumes "length fs \<le> n" and "n < 2 ^ 32"
    and "\<forall>(sz, ty, name) \<in> set fs. length (c_str name) < 80 \<and> length (c_str ty) < 80"
    and "sum_list (map (\<lambda>f. unat (fst f)) fs) < 2 ^ 32"
  shows "\<exists>c. add_cols (catalog_init tname n) fs = Inr c \<and> wf_catalog c \<and>
    unat (field_cnt c) = length fs \<and> get_tuple_size c = sum_list (map (\<lambda>f. unat (fst f)) fs) \<and>
    (\<forall>i < length fs.
      get_field_index c i = Inr (sum_list (map (\<lambda>f. unat (fst f)) (take i fs))) \<and>
      get_field_size c i = Inr (unat (fst (fs ! i))) \<and>
      get_field_name c i = Inr (c_str (snd (snd (fs ! i)))))"
  using add_cols_layout_aux [of "catalog_init tname n" fs] assms
  by (auto simp: catalog_init_def wf_catalog_init [unfolded catalog_init_def])

text \<open>
  C23. The schema that \<open>init\<close> and one \<open>add_col\<close> per field build keeps the columns apart: every field
  has its size and its name, the byte ranges of two different columns do not overlap, and every
  column lies inside the tuple, so \<open>set_value\<close> on one column never touches another. The bounds are
  those of the class: room in the column array, names that fit 80 bytes, a tuple below 4 GiB.
\<close>

theorem catalog_fields_disjoint:
  assumes "length fs \<le> n" and "n < 2 ^ 32"
    and "\<forall>(sz, ty, name) \<in> set fs. length (c_str name) < 80 \<and> length (c_str ty) < 80"
    and "sum_list (map (\<lambda>f. unat (fst f)) fs) < 2 ^ 32"
  shows "\<exists>c. add_cols (catalog_init tname n) fs = Inr c \<and>
    (\<forall>i < length fs. \<exists>pi. get_field_index c i = Inr pi \<and> get_field_size c i = Inr (unat (fst (fs ! i))) \<and>
       get_field_name c i = Inr (c_str (snd (snd (fs ! i)))) \<and> pi + unat (fst (fs ! i)) \<le> get_tuple_size c \<and>
       (\<forall>j < length fs. i < j \<longrightarrow> (\<exists>pj. get_field_index c j = Inr pj \<and> pi + unat (fst (fs ! i)) \<le> pj)))"
proof -
  obtain c where c: "add_cols (catalog_init tname n) fs = Inr c" "wf_catalog c" "unat (field_cnt c) = length fs"
    "get_tuple_size c = sum_list (map (\<lambda>f. unat (fst f)) fs)"
    "\<forall>i < length fs.
      get_field_index c i = Inr (sum_list (map (\<lambda>f. unat (fst f)) (take i fs))) \<and>
      get_field_size c i = Inr (unat (fst (fs ! i))) \<and>
      get_field_name c i = Inr (c_str (snd (snd (fs ! i))))"
    using catalog_build_layout [OF assms] by blast
  have "sum_list (map (\<lambda>f. unat (fst f)) (take i fs)) + unat (fst (fs ! i)) \<le> sum_list (map (\<lambda>f. unat (fst f)) fs)"
    if "i < length fs" for i
  proof -
    have "sum_list (map (\<lambda>f. unat (fst f)) fs) =
        sum_list (map (\<lambda>f. unat (fst f)) (take i fs @ fs ! i # drop (Suc i) fs))"
      using that by (simp add: id_take_nth_drop [symmetric])
    then show ?thesis by simp
  qed
  then show ?thesis
    using c wf_catalog_disjoint [OF c(2)] by (fastforce simp: c(3))
qed

text \<open>
  \<open>get_field_id\<close> finds the first column of that name, and its assertion fails exactly when no
  column has the name.
\<close>

theorem get_field_id_correct:
  assumes "wf_catalog c"
  shows "(case get_field_id c name of
      Inr i \<Rightarrow> i < unat (field_cnt c) \<and> get_field_name c i = Inr (c_str name) \<and>
        (\<forall>j < i. get_field_name c j \<noteq> Inr (c_str name))
    | Inl e \<Rightarrow> e = Assert_Failed \<and>
        (\<forall>j < unat (field_cnt c). get_field_name c j \<noteq> Inr (c_str name)))"
proof -
  obtain r where "scan_field c name 0 (unat (field_cnt c)) = Inr r" "r \<le> unat (field_cnt c)"
    "\<forall>j < r. get_field_name c j \<noteq> Inr (c_str name)"
    "r < unat (field_cnt c) \<longrightarrow> get_field_name c r = Inr (c_str name)"
    using scan_field_spec [OF assms, of 0 "unat (field_cnt c)" name] by auto
  then show ?thesis
    by (cases "r < unat (field_cnt c)") (auto simp: get_field_id_def R_assert_def)
qed

section \<open>The schema of the server\<close>

text \<open>
  The schema \<open>init_schema\<close> builds from \<open>Storage/test/data_schema.txt\<close>: a 128-byte key and a
  1024-byte value.
\<close>

definition data_fields :: "(u64 \<times> string \<times> string) list" where
  "data_fields = [(128, ''string'', ''KEY''), (1024, ''string'', ''VALUE'')]"

lemma data_fields_fit:
  "length data_fields \<le> 2" "\<forall>(sz, ty, name) \<in> set data_fields.
     length (c_str name) < 80 \<and> length (c_str ty) < 80"
  "sum_list (map (\<lambda>f. unat (fst f)) data_fields) < 2 ^ 32"
  by (simp_all add: data_fields_def c_str_def)

definition data_catalog :: Catalog where
  "data_catalog =
     \<lparr>cat_table_name = ''Data_TABLE'', field_cnt = 2, tuple_size = 1152,
      columns = [Some \<lparr>col_id = 0, col_size = 128, col_index = 0,
                       col_type = ''string'', col_name = ''KEY''\<rparr>,
                 Some \<lparr>col_id = 1, col_size = 1024, col_index = 128,
                       col_type = ''string'', col_name = ''VALUE''\<rparr>]\<rparr>"

lemma data_catalog_built:
  "add_cols (catalog_init ''Data_TABLE'' 2) data_fields = Inr data_catalog"
  by code_simp

lemma data_catalog_simps [simp]:
  "get_tuple_size data_catalog = 1152"
  "get_field_size data_catalog 0 = Inr 128"
  "get_field_size data_catalog (Suc 0) = Inr 1024"
  "get_field_index data_catalog 0 = Inr 0"
  "get_field_index data_catalog (Suc 0) = Inr 128"
  by (simp_all add: data_catalog_def get_tuple_size_def get_field_size_def get_field_index_def
      get_column_def R_nth_def)

lemma wf_data_catalog: "wf_catalog data_catalog"
  using add_cols_layout_aux [of "catalog_init ''Data_TABLE'' 2" data_fields]
    data_fields_fit data_catalog_built by (auto simp: catalog_init_def
      wf_catalog_init [unfolded catalog_init_def] data_fields_def)

lemma field_cnt_data_catalog: "unat (field_cnt data_catalog) = Suc (Suc 0)"
  by (simp add: data_catalog_def)

lemma get_field_name_data_catalog:
  "get_field_name data_catalog 0 = Inr ''KEY''"
  "get_field_name data_catalog (Suc 0) = Inr ''VALUE''"
  by (simp_all add: data_catalog_def get_field_name_def get_column_def R_nth_def)

theorem catalog_fields_disjoint_witness:
  "\<exists>c p q. add_cols (catalog_init ''Data_TABLE'' 2) data_fields = Inr c \<and>
    get_field_index c 0 = Inr p \<and> get_field_index c (Suc 0) = Inr q \<and> p + 128 \<le> q \<and> q + 1024 \<le> get_tuple_size c"
proof -
  have d: "length data_fields = 2" "unat (fst (data_fields ! 0)) = 128" "unat (fst (data_fields ! Suc 0)) = 1024"
    by (simp_all add: data_fields_def)
  have two: "(2 :: nat) < 2 ^ 32" by simp
  obtain c where c: "add_cols (catalog_init ''Data_TABLE'' 2) data_fields = Inr c"
    "\<forall>i < length data_fields. \<exists>pi. get_field_index c i = Inr pi \<and>
       get_field_size c i = Inr (unat (fst (data_fields ! i))) \<and>
       get_field_name c i = Inr (c_str (snd (snd (data_fields ! i)))) \<and>
       pi + unat (fst (data_fields ! i)) \<le> get_tuple_size c \<and>
       (\<forall>j < length data_fields. i < j \<longrightarrow> (\<exists>pj. get_field_index c j = Inr pj \<and> pi + unat (fst (data_fields ! i)) \<le> pj))"
    using catalog_fields_disjoint [OF data_fields_fit(1) two data_fields_fit(2,3), of "''Data_TABLE''"] by blast
  obtain q where q: "get_field_index c (Suc 0) = Inr q" "q + 1024 \<le> get_tuple_size c"
    using c(2) [rule_format, of "Suc 0"] d by auto
  obtain p q' where "get_field_index c 0 = Inr p" "get_field_index c (Suc 0) = Inr q'" "p + 128 \<le> q'"
    using c(2) d by (metis lessI less_Suc_eq numeral_2_eq_2)
  moreover from this(2) have "q' = q" using q(1) by simp
  ultimately show ?thesis using c(1) q by blast
qed

theorem get_field_id_correct_witness:
  "get_field_id data_catalog ''VALUE'' = Inr (Suc 0) \<and>
   get_field_name data_catalog (Suc 0) = Inr (c_str ''VALUE'')"
proof -
  have "get_field_id data_catalog ''VALUE'' = Inr (Suc 0)"
    by (simp add: get_field_id_def field_cnt_data_catalog get_field_name_data_catalog c_str_def)
  with get_field_id_correct [OF wf_data_catalog, of "''VALUE''"] show ?thesis by simp
qed

end
