(* ===== verification/Index_Hash.thy ===== *)
theory Index_Hash
  imports Config
begin

text \<open>
  The hash index (\<open>Storage/DataFormat/index_base.h\<close>, \<open>index_hash.h\<close>, \<open>index_hash.cpp\<close>) and the
  items it stores (\<open>itemid_t\<close> of \<open>Storage/System/helper.h\<close>). A \<open>BucketHeader\<close>'s chain of nodes is
  a list, as is the chain of items of a node (\<open>item->next = cur_node->items\<close> pushes at its head; the
  pointer \<open>cur_node->items\<close> is the head of the list). The interface that the transaction layer
  relies on is the locale \<open>key_index\<close>, interpreted on the code's model at the end.
\<close>

section \<open>Data\<close>

text \<open>\<open>location\<close> points to a row; \<open>None\<close> is the null pointer.\<close>

record itemid_t =
  item_type :: Data_type
  location :: "nat option"
  valid :: bool

record BucketNode =
  node_key :: u64
  items :: "itemid_t list"

record BucketHeader =
  first_node :: "BucketNode list"
  node_cnt :: u64
  locked :: bool

record IndexHash =
  buckets :: "BucketHeader list list"
  bucket_cnt :: u64
  bucket_cnt_per_part :: u64
  ix_table :: "string option"

section \<open>Buckets\<close>

definition bucket_init :: BucketHeader where
  "bucket_init = \<lparr>first_node = [], node_cnt = 0, locked = False\<rparr>"

text \<open>
  \<open>BucketHeader::insert_item\<close>: walk to the node of the key; push the item on its chain, or append
  a new node after the last one.
\<close>

fun insert_node :: "u64 \<Rightarrow> itemid_t \<Rightarrow> BucketNode list \<Rightarrow> BucketNode list" where
  "insert_node key item [] = [\<lparr>node_key = key, items = [item]\<rparr>]"
| "insert_node key item (n # ns) =
     (if node_key n = key then n\<lparr>items := item # items n\<rparr> # ns
      else n # insert_node key item ns)"

definition insert_item :: "BucketHeader \<Rightarrow> u64 \<Rightarrow> itemid_t \<Rightarrow> BucketHeader" where
  "insert_item b key item = b\<lparr>first_node := insert_node key item (first_node b)\<rparr>"

fun find_node :: "u64 \<Rightarrow> BucketNode list \<Rightarrow> BucketNode option" where
  "find_node key [] = None"
| "find_node key (n # ns) = (if node_key n = key then Some n else find_node key ns)"

text \<open>\<open>BucketHeader::read_item\<close>; a null result is \<open>None\<close>.\<close>

definition read_item :: "BucketHeader \<Rightarrow> u64 \<Rightarrow> itemid_t option" where
  "read_item b key =
     (case find_node key (first_node b) of
        None \<Rightarrow> None
      | Some n \<Rightarrow> (case items n of [] \<Rightarrow> None | it # _ \<Rightarrow> Some it))"

section \<open>The index\<close>

text \<open>\<open>IndexHash::init(uint64_t, int)\<close>; the table pointer is set by the caller.\<close>

definition index_init :: "u64 \<Rightarrow> nat \<Rightarrow> IndexHash res" where
  "index_init cnt part_cnt =
     (if part_cnt = 0 then Inl Div_By_Zero
      else let per_part = cnt div of_nat part_cnt
           in Inr \<lparr>buckets = replicate part_cnt (replicate (unat per_part) bucket_init),
                   bucket_cnt = cnt, bucket_cnt_per_part = per_part, ix_table = None\<rparr>)"

text \<open>\<open>IndexHash::init(table_t *)\<close>: one partition with a single bucket.\<close>

definition index_init_table :: "string option \<Rightarrow> IndexHash res" where
  "index_init_table table =
     R_bind (index_init 1 1) (\<lambda>ix.
     R_bind (R_assert (table \<noteq> None)) (\<lambda>_.
       Inr (ix\<lparr>ix_table := table\<rparr>)))"

definition index_init_parts :: "nat \<Rightarrow> string option \<Rightarrow> u64 \<Rightarrow> IndexHash res" where
  "index_init_parts part_cnt table cnt =
     R_bind (index_init cnt part_cnt) (\<lambda>ix. Inr (ix\<lparr>ix_table := table\<rparr>))"

definition ix_hash :: "IndexHash \<Rightarrow> u64 \<Rightarrow> u64 res" where
  "ix_hash ix key =
     (if bucket_cnt_per_part ix = 0 then Inl Div_By_Zero
      else Inr (key mod bucket_cnt_per_part ix))"

text \<open>The latch spins until it is free: a latch that stays locked blocks the caller.\<close>

definition get_latch :: "BucketHeader \<Rightarrow> BucketHeader res" where
  "get_latch b = (if locked b then Inl Would_Block else Inr (b\<lparr>locked := True\<rparr>))"

definition release_latch :: "BucketHeader \<Rightarrow> BucketHeader res" where
  "release_latch b = R_bind (R_assert (locked b)) (\<lambda>_. Inr (b\<lparr>locked := False\<rparr>))"

definition part_index :: "int \<Rightarrow> nat res" where
  "part_index part_id = (if 0 \<le> part_id then Inr (nat part_id) else Inl Out_Of_Bounds)"

definition index_insert :: "IndexHash \<Rightarrow> u64 \<Rightarrow> itemid_t \<Rightarrow> int \<Rightarrow> IndexHash res" where
  "index_insert ix key item part_id =
     R_bind (ix_hash ix key) (\<lambda>idx.
     R_bind (R_assert (idx < bucket_cnt_per_part ix)) (\<lambda>_.
     R_bind (part_index part_id) (\<lambda>p.
     R_bind (R_nth (buckets ix) p) (\<lambda>bs.
     R_bind (R_nth bs (unat idx)) (\<lambda>b.
     R_bind (get_latch b) (\<lambda>b1.
     R_bind (release_latch (insert_item b1 key item)) (\<lambda>b2.
       Inr (ix\<lparr>buckets := (buckets ix)[p := bs[unat idx := b2]]\<rparr>))))))))"

text \<open>Both overloads of \<open>index_read\<close> have this body; it takes no latch.\<close>

definition index_read :: "IndexHash \<Rightarrow> u64 \<Rightarrow> int \<Rightarrow> itemid_t option res" where
  "index_read ix key part_id =
     R_bind (ix_hash ix key) (\<lambda>idx.
     R_bind (R_assert (idx < bucket_cnt_per_part ix)) (\<lambda>_.
     R_bind (part_index part_id) (\<lambda>p.
     R_bind (R_nth (buckets ix) p) (\<lambda>bs.
     R_bind (R_nth bs (unat idx)) (\<lambda>b.
     R_bind (R_ptr (ix_table ix)) (\<lambda>_.
       Inr (read_item b key)))))))"

text \<open>\<open>index_exist\<close> is declared and not supported.\<close>

definition index_exist :: "IndexHash \<Rightarrow> u64 \<Rightarrow> bool res" where
  "index_exist ix key = R_bind (R_assert False) (\<lambda>_. Inr False)"

section \<open>The interface\<close>

fun insert_all :: "('k \<Rightarrow> 'v \<Rightarrow> 't \<Rightarrow> 't res) \<Rightarrow> ('k \<times> 'v) list \<Rightarrow> 't \<Rightarrow> 't res" where
  "insert_all ins [] t = Inr t"
| "insert_all ins ((k, v) # kvs) t = R_bind (ins k v t) (insert_all ins kvs)"

text \<open>
  What a client of the index relies on: in states the invariant allows, reading and inserting
  return, an insert is visible to the reads of its key at once, and to no other key.
\<close>

locale key_index =
  fixes insert :: "'k \<Rightarrow> 'v \<Rightarrow> 't \<Rightarrow> 't res"
    and read :: "'k \<Rightarrow> 't \<Rightarrow> 'v option res"
    and inv :: "'t \<Rightarrow> bool"
  assumes read_ok: "inv t \<Longrightarrow> \<exists>r. read k t = Inr r"
    and insert_ok: "inv t \<Longrightarrow> \<exists>t'. insert k v t = Inr t' \<and> inv t'"
    and read_insert_same: "inv t \<Longrightarrow> insert k v t = Inr t' \<Longrightarrow> read k t' = Inr (Some v)"
    and read_insert_other:
      "inv t \<Longrightarrow> insert k v t = Inr t' \<Longrightarrow> k' \<noteq> k \<Longrightarrow> read k' t' = read k' t"
begin

lemma insert_inv: "inv t \<Longrightarrow> insert k v t = Inr t' \<Longrightarrow> inv t'"
  using insert_ok [of t k v] by auto

lemma read_insert:
  "inv t \<Longrightarrow> insert k v t = Inr t'
   \<Longrightarrow> read k' t' = (if k' = k then Inr (Some v) else read k' t)"
  by (simp add: read_insert_same read_insert_other)

lemma insert_all_ok:
  "inv t \<Longrightarrow> \<exists>t'. insert_all insert kvs t = Inr t' \<and> inv t' \<and>
     (\<forall>k. read k t' = (case map_of (rev kvs) k of Some v \<Rightarrow> Inr (Some v) | None \<Rightarrow> read k t))"
proof (induction kvs arbitrary: t)
  case Nil
  then show ?case by simp
next
  case (Cons kv kvs)
  obtain k v where kv: "kv = (k, v)" by (cases kv)
  obtain t1 where t1: "insert k v t = Inr t1" "inv t1"
    using insert_ok [OF Cons.prems, of k v] by auto
  obtain t2 where t2: "insert_all insert kvs t1 = Inr t2" "inv t2"
    "\<And>k. read k t2 = (case map_of (rev kvs) k of Some v \<Rightarrow> Inr (Some v) | None \<Rightarrow> read k t1)"
    using Cons.IH [OF t1(2)] by auto
  show ?case
    using t1 t2 kv read_insert [OF Cons.prems t1(1)]
    by (auto simp: map_add_def split: option.splits)
qed

end

section \<open>Invariant and laws of the hash index\<close>

definition wf_bucket :: "IndexHash \<Rightarrow> nat \<Rightarrow> BucketHeader \<Rightarrow> bool" where
  "wf_bucket ix i b \<longleftrightarrow> \<not> locked b \<and> distinct (map node_key (first_node b)) \<and>
     (\<forall>n \<in> set (first_node b). items n \<noteq> [] \<and>
        unat (node_key n mod bucket_cnt_per_part ix) = i)"

definition wf_index :: "IndexHash \<Rightarrow> bool" where
  "wf_index ix \<longleftrightarrow> bucket_cnt_per_part ix \<noteq> 0 \<and> ix_table ix \<noteq> None \<and> buckets ix \<noteq> [] \<and>
     (\<forall>bs \<in> set (buckets ix). length bs = unat (bucket_cnt_per_part ix) \<and>
        (\<forall>i < length bs. wf_bucket ix i (bs ! i)))"

lemma node_keys_insert_node:
  "node_key ` set (insert_node key item ns) = Set.insert key (node_key ` set ns)"
  by (induction ns) auto

lemma distinct_insert_node:
  "distinct (map node_key ns) \<Longrightarrow> distinct (map node_key (insert_node key item ns))"
proof (induction ns)
  case (Cons n ns)
  have "node_key n \<notin> node_key ` set (insert_node key item ns)"
    if "node_key n \<noteq> key" "node_key n \<notin> node_key ` set ns"
    using that by (simp add: node_keys_insert_node)
  with Cons show ?case by auto
qed simp

lemma insert_node_items:
  "\<forall>n \<in> set ns. items n \<noteq> [] \<Longrightarrow> n \<in> set (insert_node key item ns) \<Longrightarrow> items n \<noteq> []"
  by (induction ns) (auto split: if_splits)

lemma find_node_insert_node:
  "find_node k (insert_node key item ns) =
     (if k = key
      then (case find_node key ns of
              None \<Rightarrow> Some \<lparr>node_key = key, items = [item]\<rparr>
            | Some n \<Rightarrow> Some (n\<lparr>items := item # items n\<rparr>))
      else find_node k ns)"
  by (induction ns) (auto split: option.splits)

lemma read_item_insert_item:
  "read_item (insert_item b key item) k = (if k = key then Some item else read_item b k)"
  by (auto simp: read_item_def insert_item_def find_node_insert_node split: option.splits)

lemma wf_bucket_insert_item:
  assumes "wf_bucket ix i b" and "unat (key mod bucket_cnt_per_part ix) = i"
  shows "wf_bucket ix i (insert_item b key item)"
proof -
  have "unat (node_key n mod bucket_cnt_per_part ix) = i"
    if "n \<in> set (insert_node key item (first_node b))" for n
  proof -
    have "node_key n \<in> Set.insert key (node_key ` set (first_node b))"
      using that node_keys_insert_node [of key item "first_node b"] by blast
    then show ?thesis using assms by (auto simp: wf_bucket_def)
  qed
  then show ?thesis
    using assms insert_node_items [of "first_node b"]
    by (auto simp: wf_bucket_def insert_item_def distinct_insert_node)
qed

lemma wf_index_bucket:
  assumes "wf_index ix"
  obtains bs b where "buckets ix ! 0 = bs" "0 < length (buckets ix)"
    "length bs = unat (bucket_cnt_per_part ix)"
    "unat (key mod bucket_cnt_per_part ix) < length bs"
    "bs ! unat (key mod bucket_cnt_per_part ix) = b"
    "wf_bucket ix (unat (key mod bucket_cnt_per_part ix)) b"
    "ix_hash ix key = Inr (key mod bucket_cnt_per_part ix)"
    "key mod bucket_cnt_per_part ix < bucket_cnt_per_part ix"
proof -
  from assms have pos: "bucket_cnt_per_part ix \<noteq> 0" and ne: "buckets ix \<noteq> []"
    by (simp_all add: wf_index_def)
  have lt: "key mod bucket_cnt_per_part ix < bucket_cnt_per_part ix"
    using pos by (simp add: word_mod_less_divisor word_gt_0)
  moreover have "buckets ix ! 0 \<in> set (buckets ix)" using ne by simp
  ultimately show ?thesis
    using that [of "buckets ix ! 0"] assms pos ne
    by (simp add: wf_index_def ix_hash_def word_less_nat_alt)
qed

lemma index_read_eq:
  assumes "wf_index ix"
  shows "index_read ix key 0 =
    Inr (read_item (buckets ix ! 0 ! unat (key mod bucket_cnt_per_part ix)) key)"
  using assms by (rule wf_index_bucket [of ix key])
    (use assms in \<open>auto simp: index_read_def part_index_def wf_index_def\<close>)

lemma unlocked_update:
  "\<not> locked b \<Longrightarrow> b\<lparr>first_node := ns, locked := False\<rparr> = b\<lparr>first_node := ns\<rparr>"
  by (cases b) simp

lemma index_insert_eq:
  assumes "wf_index ix"
  shows "index_insert ix key item 0 =
    (let i = unat (key mod bucket_cnt_per_part ix); bs = buckets ix ! 0
     in Inr (ix\<lparr>buckets := (buckets ix)[0 := bs[i := insert_item (bs ! i) key item]]\<rparr>))"
  by (rule wf_index_bucket [OF assms, of key])
    (auto simp: index_insert_def part_index_def get_latch_def release_latch_def wf_bucket_def
      insert_item_def Let_def unlocked_update)

lemma wf_index_insert:
  assumes "wf_index ix" and "index_insert ix key item 0 = Inr ix'"
  shows "wf_index ix'"
proof -
  define i where "i = unat (key mod bucket_cnt_per_part ix)"
  define bs where "bs = buckets ix ! 0"
  obtain b where bs: "0 < length (buckets ix)" "length bs = unat (bucket_cnt_per_part ix)"
    "i < length bs" "bs ! i = b" "wf_bucket ix i b"
    unfolding i_def bs_def using wf_index_bucket [OF assms(1), of key] by metis
  have ix': "ix' = ix\<lparr>buckets := (buckets ix)[0 := bs[i := insert_item b key item]]\<rparr>"
    using assms(2) bs by (simp add: index_insert_eq [OF assms(1)] Let_def i_def bs_def)
  have same: "wf_bucket ix' = wf_bucket ix"
    by (simp add: ix' wf_bucket_def fun_eq_iff)
  have bsin: "bs \<in> set (buckets ix)" using bs(1) by (simp add: bs_def)
  have "\<forall>j < length bs. wf_bucket ix j (bs[i := insert_item b key item] ! j)"
    using assms(1) bs bsin wf_bucket_insert_item [OF bs(5), of key item]
    by (auto simp: wf_index_def nth_list_update i_def)
  then show ?thesis
    using assms(1) bs unfolding wf_index_def same
    by (auto simp: ix' dest!: set_update_subset_insert [THEN subsetD])
qed

lemma index_read_insert:
  assumes "wf_index ix" and "index_insert ix key item 0 = Inr ix'"
  shows "index_read ix' k 0 = (if k = key then Inr (Some item) else index_read ix k 0)"
proof -
  define i where "i = unat (key mod bucket_cnt_per_part ix)"
  define j where "j = unat (k mod bucket_cnt_per_part ix)"
  define bs where "bs = buckets ix ! 0"
  have i: "0 < length (buckets ix)" "i < length bs"
    unfolding i_def bs_def using wf_index_bucket [OF assms(1), of key] by metis+
  have ix': "ix' = ix\<lparr>buckets := (buckets ix)[0 := bs[i := insert_item (bs ! i) key item]]\<rparr>"
    using assms(2) by (simp add: index_insert_eq [OF assms(1)] Let_def i_def bs_def)
  have "read_item (bs[i := insert_item (bs ! i) key item] ! j) k =
      (if k = key then Some item else read_item (bs ! j) k)"
    using i by (cases "j = i") (auto simp: read_item_insert_item i_def j_def)
  moreover have "bucket_cnt_per_part ix' = bucket_cnt_per_part ix"
    "buckets ix' ! 0 = bs[i := insert_item (bs ! i) key item]"
    using i by (simp_all add: ix')
  ultimately show ?thesis
    by (simp add: index_read_eq [OF assms(1)] index_read_eq [OF wf_index_insert [OF assms]]
        j_def bs_def)
qed

interpretation hash_ix: key_index
  "\<lambda>key item ix. index_insert ix key item 0" "\<lambda>key ix. index_read ix key 0" wf_index
proof (unfold_locales, goal_cases)
  case (1 t k)
  then show ?case by (simp add: index_read_eq)
next
  case (2 t k v)
  obtain t' where "index_insert t k v 0 = Inr t'"
    using index_insert_eq [OF 2] by (simp add: Let_def)
  then show ?case using wf_index_insert [OF 2] by simp
next
  case (3 t k v t')
  then show ?case by (simp add: index_read_insert)
next
  case (4 t k v t' k')
  then show ?case by (simp add: index_read_insert)
qed


section \<open>Properties of the index\<close>

text \<open>The whole chain of items under a key, newest first (null where the key has no node).\<close>

definition index_items :: "IndexHash \<Rightarrow> u64 \<Rightarrow> itemid_t list" where
  "index_items ix key =
     (case find_node key (first_node (buckets ix ! 0 ! unat (key mod bucket_cnt_per_part ix))) of
        None \<Rightarrow> [] | Some n \<Rightarrow> items n)"

lemma wf_index_init_table:
  assumes "table \<noteq> None"
  shows "\<exists>ix. index_init_table table = Inr ix \<and> wf_index ix \<and>
     (\<forall>k. index_read ix k 0 = Inr None) \<and> (\<forall>k. index_items ix k = [])"
proof -
  define ix where "ix = \<lparr>buckets = [[bucket_init]], bucket_cnt = 1, bucket_cnt_per_part = 1,
    ix_table = table\<rparr>"
  have init: "index_init_table table = Inr ix"
    using assms by (simp add: index_init_table_def index_init_def R_assert_def ix_def)
  have wf: "wf_index ix"
    using assms by (simp add: ix_def wf_index_def wf_bucket_def bucket_init_def)
  have "index_read ix k 0 = Inr None" "index_items ix k = []" for k
    unfolding index_read_eq [OF wf]
    by (simp_all add: ix_def read_item_def index_items_def bucket_init_def)
  then show ?thesis using init wf by blast
qed

lemma insert_item_chain:
  "(case find_node k (first_node (insert_item b key item)) of None \<Rightarrow> [] | Some n \<Rightarrow> items n) =
   (if k = key then item # (case find_node key (first_node b) of None \<Rightarrow> [] | Some n \<Rightarrow> items n)
    else (case find_node k (first_node b) of None \<Rightarrow> [] | Some n \<Rightarrow> items n))"
  by (simp add: insert_item_def find_node_insert_node split: option.splits)

lemma index_items_insert:
  assumes "wf_index ix" and "index_insert ix key item 0 = Inr ix'"
  shows "index_items ix' k = (if k = key then item # index_items ix key else index_items ix k)"
proof -
  define i where "i = unat (key mod bucket_cnt_per_part ix)"
  define j where "j = unat (k mod bucket_cnt_per_part ix)"
  define bs where "bs = buckets ix ! 0"
  have i: "0 < length (buckets ix)" "i < length bs"
    unfolding i_def bs_def using wf_index_bucket [OF assms(1), of key] by metis+
  have ix': "ix' = ix\<lparr>buckets := (buckets ix)[0 := bs[i := insert_item (bs ! i) key item]]\<rparr>"
    using assms(2) by (simp add: index_insert_eq [OF assms(1)] Let_def i_def bs_def)
  have "bucket_cnt_per_part ix' = bucket_cnt_per_part ix"
    "buckets ix' ! 0 = bs[i := insert_item (bs ! i) key item]"
    using i by (simp_all add: ix')
  then have new: "index_items ix' k =
      (case find_node k (first_node (bs[i := insert_item (bs ! i) key item] ! j)) of
        None \<Rightarrow> [] | Some n \<Rightarrow> items n)"
    by (simp add: index_items_def j_def)
  have old: "index_items ix k = (case find_node k (first_node (bs ! j)) of None \<Rightarrow> [] | Some n \<Rightarrow> items n)"
    "index_items ix key = (case find_node key (first_node (bs ! i)) of None \<Rightarrow> [] | Some n \<Rightarrow> items n)"
    by (simp_all add: index_items_def j_def i_def bs_def)
  show ?thesis
  proof (cases "j = i")
    case True
    then show ?thesis using i by (simp add: new old insert_item_chain)
  next
    case False
    then have "k \<noteq> key" by (auto simp: i_def j_def)
    with False show ?thesis by (simp add: new old)
  qed
qed

lemma index_items_insert_all:
  "wf_index ix \<Longrightarrow> insert_all (\<lambda>key item ix. index_insert ix key item 0) kvs ix = Inr ix' \<Longrightarrow>
   index_items ix' k = map snd (filter (\<lambda>kv. fst kv = k) (rev kvs)) @ index_items ix k"
proof (induction kvs arbitrary: ix)
  case (Cons kv kvs)
  obtain k1 v1 where kv: "kv = (k1, v1)" by (cases kv)
  with Cons.prems obtain ix1 where ix1: "index_insert ix k1 v1 0 = Inr ix1"
    "insert_all (\<lambda>key item ix. index_insert ix key item 0) kvs ix1 = Inr ix'"
    by (auto simp: res_simps)
  then show ?case
    using Cons.IH [OF hash_ix.insert_inv [OF Cons.prems(1) ix1(1)] ix1(2)]
      index_items_insert [OF Cons.prems(1) ix1(1), of k] kv by auto
qed simp

text \<open>
  C22. The hash index is a map from keys to chains of items. A freshly initialised index is well formed
  and empty. On any well-formed index every sequence of inserts succeeds and leaves it well formed;
  afterwards the chain under a key holds the items inserted under it, newest first, in front of what
  the index held there, and a read returns the item inserted last under the key and, if none was,
  what it returned before, whatever other keys share the bucket.
\<close>

theorem index_is_multimap:
  assumes "wf_index ix"
  shows "(\<exists>ix0. index_init_table (Some table) = Inr ix0 \<and> wf_index ix0 \<and>
      (\<forall>k. index_read ix0 k 0 = Inr None \<and> index_items ix0 k = [])) \<and>
    (\<exists>ix'. insert_all (\<lambda>key item ix. index_insert ix key item 0) kvs ix = Inr ix' \<and> wf_index ix' \<and>
      (\<forall>k. index_items ix' k = map snd (filter (\<lambda>kv. fst kv = k) (rev kvs)) @ index_items ix k) \<and>
      (\<forall>k. index_read ix' k 0 = (case map_of (rev kvs) k of Some it \<Rightarrow> Inr (Some it) | None \<Rightarrow> index_read ix k 0)))"
proof -
  obtain ix' where ix': "insert_all (\<lambda>key item ix. index_insert ix key item 0) kvs ix = Inr ix'"
    "wf_index ix'" "\<And>k. index_read ix' k 0 = (case map_of (rev kvs) k of
       Some v \<Rightarrow> Inr (Some v) | None \<Rightarrow> index_read ix k 0)"
    using hash_ix.insert_all_ok [OF assms, of kvs] by blast
  moreover have "\<exists>ix0. index_init_table (Some table) = Inr ix0 \<and> wf_index ix0 \<and>
      (\<forall>k. index_read ix0 k 0 = Inr None \<and> index_items ix0 k = [])"
    using wf_index_init_table [of "Some table"] by blast
  ultimately show ?thesis using index_items_insert_all [OF assms ix'(1)] by blast
qed

theorem index_is_multimap_witness:
  "\<exists>ix ix'. index_init_table (Some ''Data_TABLE'') = Inr ix \<and>
     insert_all (\<lambda>key item ix. index_insert ix key item 0)
       [(7, \<lparr>item_type = DT_row, location = Some 1, valid = True\<rparr>),
        (7, \<lparr>item_type = DT_row, location = Some 2, valid = True\<rparr>)] ix = Inr ix' \<and>
     index_read ix' 7 0 = Inr (Some \<lparr>item_type = DT_row, location = Some 2, valid = True\<rparr>) \<and>
     index_read ix' 9 0 = Inr None"
proof -
  obtain ix where "index_init_table (Some ''Data_TABLE'') = Inr ix" "wf_index ix" "index_read ix 9 0 = Inr None"
    using wf_index_init_table [of "Some ''Data_TABLE''"] by auto
  then show ?thesis
    using index_is_multimap [of ix "''Data_TABLE''"
        "[(7, \<lparr>item_type = DT_row, location = Some 1, valid = True\<rparr>),
          (7, \<lparr>item_type = DT_row, location = Some 2, valid = True\<rparr>)]"]
    by fastforce
qed

end
