(* ===== verification/Store.thy ===== *)
theory Store
  imports Catalog Index_Hash
begin

text \<open>
  The shared memory of the storage engine: rows with their version data
  (\<open>Storage/DataFormat/row.h\<close>, \<open>Row_occ\<close> of \<open>Storage/concurrency_control/occ.h\<close>), tables
  (\<open>table.h\<close>, \<open>table.cpp\<close>), the row operations of \<open>row.cpp\<close> that do not involve a transaction, the
  per-row concurrency control of \<open>occ_row.cpp\<close> and the global timestamp of \<open>manager.cpp\<close>.

  A \<open>row_t *\<close> is a number into the row heap \<open>rows\<close>; a freed or never allocated address is \<open>None\<close>
  there, and following it is the fault \<open>Use_After_Free\<close>. Addresses are handed out in increasing
  order. A \<open>table_t *\<close> is the name under which the workload's map holds the table; so is an
  \<open>IndexHash *\<close>. The engine runs with \<open>THREAD_ALLOC\<close> off, so \<open>mem_allocator.alloc\<close> and \<open>free\<close> are
  \<open>malloc\<close> and \<open>free\<close>.
\<close>

section \<open>Data\<close>

text \<open>\<open>Row_occ\<close>: the last update time and the row's mutex.\<close>

record row_occ =
  wts :: u64
  latched :: bool

text \<open>
  \<open>data\<close> is \<open>None\<close> once \<open>free_row\<close> has freed the buffer; \<open>primary_key\<close> and \<open>manager\<close> are \<open>None\<close>
  until \<open>set_primary_key\<close> and \<open>init_manager\<close> have run (the memory is not initialised).
\<close>

record row_t =
  row_table :: string
  data :: "byte list option"
  primary_key :: "u64 option"
  part_id :: u64
  row_id :: u64
  manager :: "row_occ option"

record table_t =
  schema :: Catalog
  table_name :: string
  cur_tab_size :: u64

record store =
  tables :: "string \<Rightarrow> table_t option"
  indexes :: "string \<Rightarrow> IndexHash option"
  rows :: "nat \<Rightarrow> row_t option"
  next_row :: nat
  timestamp :: u64

section \<open>Pointers\<close>

definition deref_row :: "store \<Rightarrow> nat \<Rightarrow> row_t res" where
  "deref_row s r = (case rows s r of None \<Rightarrow> Inl Use_After_Free | Some row \<Rightarrow> Inr row)"

definition put_row :: "store \<Rightarrow> nat \<Rightarrow> row_t \<Rightarrow> store" where
  "put_row s r row = s\<lparr>rows := (rows s)(r \<mapsto> row)\<rparr>"

definition deref_table :: "store \<Rightarrow> string \<Rightarrow> table_t res" where
  "deref_table s tn = R_ptr (tables s tn)"

definition deref_index :: "store \<Rightarrow> string \<Rightarrow> IndexHash res" where
  "deref_index s nm = R_ptr (indexes s nm)"

definition get_manager :: "row_t \<Rightarrow> row_occ res" where
  "get_manager row = (case manager row of None \<Rightarrow> Inl Uninit_Read | Some m \<Rightarrow> Inr m)"

definition get_primary_key :: "row_t \<Rightarrow> u64 res" where
  "get_primary_key row = (case primary_key row of None \<Rightarrow> Inl Uninit_Read | Some k \<Rightarrow> Inr k)"

definition get_data :: "row_t \<Rightarrow> byte list res" where
  "get_data row = (case data row of None \<Rightarrow> Inl Use_After_Free | Some d \<Rightarrow> Inr d)"

definition get_schema :: "store \<Rightarrow> row_t \<Rightarrow> Catalog res" where
  "get_schema s row = R_bind (deref_table s (row_table row)) (\<lambda>tb. Inr (schema tb))"

definition get_table_name :: "store \<Rightarrow> row_t \<Rightarrow> string res" where
  "get_table_name s row = R_bind (deref_table s (row_table row)) (\<lambda>tb. Inr (table_name tb))"

section \<open>Row operations\<close>

text \<open>
  \<open>row_t::init\<close> on a row just allocated: the data buffer of \<open>tuple_size\<close> indeterminate bytes. The
  new row's address is the second component.
\<close>

definition row_alloc :: "store \<Rightarrow> string \<Rightarrow> u64 \<Rightarrow> u64 \<Rightarrow> (store \<times> nat) res" where
  "row_alloc s tn part rid =
     R_bind (deref_table s tn) (\<lambda>tb.
       let r = next_row s
       in Inr (s\<lparr>rows := (rows s)(r \<mapsto>
                   \<lparr>row_table = tn, data = Some (replicate (get_tuple_size (schema tb)) Uninit),
                    primary_key = None, part_id = part, row_id = rid, manager = None\<rparr>),
                 next_row := Suc r\<rparr>, r))"

text \<open>\<open>Row_occ::init\<close>, and \<open>row_t::init_manager\<close>, which calls it on a new object.\<close>

definition row_occ_init :: row_occ where
  "row_occ_init = \<lparr>wts = 0, latched = False\<rparr>"

declare row_occ_init_def [simp]

definition init_manager :: "store \<Rightarrow> nat \<Rightarrow> store res" where
  "init_manager s r =
     R_bind (deref_row s r) (\<lambda>row.
       Inr (put_row s r (row\<lparr>manager := Some row_occ_init\<rparr>)))"

definition set_primary_key :: "store \<Rightarrow> nat \<Rightarrow> u64 \<Rightarrow> store res" where
  "set_primary_key s r k =
     R_bind (deref_row s r) (\<lambda>row. Inr (put_row s r (row\<lparr>primary_key := Some k\<rparr>)))"

text \<open>\<open>set_value(int id, void *ptr)\<close>: as many bytes as the column has, at the column's offset.\<close>

definition set_value :: "store \<Rightarrow> nat \<Rightarrow> nat \<Rightarrow> byte list \<Rightarrow> store res" where
  "set_value s r fid src =
     R_bind (deref_row s r) (\<lambda>row.
     R_bind (get_schema s row) (\<lambda>c.
     R_bind (get_field_size c fid) (\<lambda>datasize.
     R_bind (get_field_index c fid) (\<lambda>pos.
     R_bind (get_data row) (\<lambda>d.
     R_bind (mem_copy d pos src datasize) (\<lambda>d'.
       Inr (put_row s r (row\<lparr>data := Some d'\<rparr>))))))))"

text \<open>\<open>set_value(int id, void *ptr, int size)\<close>.\<close>

definition set_value_sized :: "store \<Rightarrow> nat \<Rightarrow> nat \<Rightarrow> byte list \<Rightarrow> nat \<Rightarrow> store res" where
  "set_value_sized s r fid src sz =
     R_bind (deref_row s r) (\<lambda>row.
     R_bind (get_schema s row) (\<lambda>c.
     R_bind (get_field_index c fid) (\<lambda>pos.
     R_bind (get_data row) (\<lambda>d.
     R_bind (mem_copy d pos src sz) (\<lambda>d'.
       Inr (put_row s r (row\<lparr>data := Some d'\<rparr>)))))))"

text \<open>\<open>set_value(const char *col_name, void *ptr)\<close>.\<close>

definition set_value_named :: "store \<Rightarrow> nat \<Rightarrow> string \<Rightarrow> byte list \<Rightarrow> store res" where
  "set_value_named s r nm src =
     R_bind (deref_row s r) (\<lambda>row.
     R_bind (get_schema s row) (\<lambda>c.
     R_bind (get_field_id c nm) (\<lambda>fid. set_value s r fid src)))"

text \<open>\<open>get_value(int id)\<close>: a pointer into the row's buffer, here the bytes from there on.\<close>

definition get_value :: "store \<Rightarrow> nat \<Rightarrow> nat \<Rightarrow> byte list res" where
  "get_value s r fid =
     R_bind (deref_row s r) (\<lambda>row.
     R_bind (get_schema s row) (\<lambda>c.
     R_bind (get_field_index c fid) (\<lambda>pos.
     R_bind (get_data row) (\<lambda>d. Inr (drop pos d)))))"

definition get_value_named :: "store \<Rightarrow> nat \<Rightarrow> string \<Rightarrow> byte list res" where
  "get_value_named s r nm =
     R_bind (deref_row s r) (\<lambda>row.
     R_bind (get_schema s row) (\<lambda>c.
     R_bind (get_field_index_by_name c nm) (\<lambda>pos.
     R_bind (get_data row) (\<lambda>d. Inr (drop pos d)))))"

text \<open>\<open>set_data(char *data, uint64_t size)\<close> and \<open>copy(row_t *src)\<close>.\<close>

definition set_data :: "store \<Rightarrow> nat \<Rightarrow> byte list \<Rightarrow> nat \<Rightarrow> store res" where
  "set_data s r src sz =
     R_bind (deref_row s r) (\<lambda>row.
     R_bind (get_data row) (\<lambda>d.
     R_bind (mem_copy d 0 src sz) (\<lambda>d'.
       Inr (put_row s r (row\<lparr>data := Some d'\<rparr>)))))"

definition row_copy :: "store \<Rightarrow> nat \<Rightarrow> nat \<Rightarrow> store res" where
  "row_copy s dst src =
     R_bind (deref_row s src) (\<lambda>row.
     R_bind (get_data row) (\<lambda>d.
     R_bind (get_schema s row) (\<lambda>c.
       set_data s dst d (get_tuple_size c))))"

text \<open>\<open>free_row()\<close> frees the buffer, \<open>mem_allocator.free(row)\<close> the row itself.\<close>

definition free_row :: "store \<Rightarrow> nat \<Rightarrow> store res" where
  "free_row s r =
     R_bind (deref_row s r) (\<lambda>row.
     R_bind (get_data row) (\<lambda>_. Inr (put_row s r (row\<lparr>data := None\<rparr>))))"

definition mem_free_row :: "store \<Rightarrow> nat \<Rightarrow> store res" where
  "mem_free_row s r = R_bind (deref_row s r) (\<lambda>_. Inr (s\<lparr>rows := (rows s)(r := None)\<rparr>))"

text \<open>\<open>table_t::get_new_row\<close>: a row with the next row id and a fresh concurrency manager.\<close>

definition get_new_row :: "store \<Rightarrow> string \<Rightarrow> u64 \<Rightarrow> (store \<times> nat \<times> u64) res" where
  "get_new_row s tn part =
     R_bind (deref_table s tn) (\<lambda>tb.
       let rid = cur_tab_size tb;
           s1 = s\<lparr>tables := (tables s)(tn \<mapsto> tb\<lparr>cur_tab_size := rid + 1\<rparr>)\<rparr>
       in R_bind (row_alloc s1 tn part rid) (\<lambda>(s2, r).
          R_bind (init_manager s2 r) (\<lambda>s3. Inr (s3, r, rid))))"

section \<open>Per-row concurrency control\<close>

text \<open>
  The mutex operations. A default mutex is not recursive: locking one that is held blocks, which in
  a single thread is for ever.
\<close>

definition put_manager :: "store \<Rightarrow> nat \<Rightarrow> row_t \<Rightarrow> row_occ \<Rightarrow> store" where
  "put_manager s r row m = put_row s r (row\<lparr>manager := Some m\<rparr>)"

definition row_latch :: "store \<Rightarrow> nat \<Rightarrow> store res" where
  "row_latch s r =
     R_bind (deref_row s r) (\<lambda>row.
     R_bind (get_manager row) (\<lambda>m.
       if latched m then Inl Would_Block
       else Inr (put_manager s r row (m\<lparr>latched := True\<rparr>))))"

definition row_release :: "store \<Rightarrow> nat \<Rightarrow> store res" where
  "row_release s r =
     R_bind (deref_row s r) (\<lambda>row.
     R_bind (get_manager row) (\<lambda>m.
       Inr (put_manager s r row (m\<lparr>latched := False\<rparr>))))"

text \<open>\<open>Row_occ::validate\<close>.\<close>

definition row_validate :: "store \<Rightarrow> nat \<Rightarrow> u64 \<Rightarrow> bool res" where
  "row_validate s r ts =
     R_bind (deref_row s r) (\<lambda>row.
     R_bind (get_manager row) (\<lambda>m. Inr (if ts < wts m then False else True)))"

text \<open>
  \<open>Row_occ::access\<close>: under the row's mutex, abort if the row was updated after the transaction
  started, else copy it into the transaction's \<open>cur_row\<close>.
\<close>

definition row_access :: "store \<Rightarrow> nat \<Rightarrow> u64 \<Rightarrow> nat \<Rightarrow> TsType \<Rightarrow> (RC \<times> store) res" where
  "row_access s r start_ts cur_row type =
     R_bind (row_latch s r) (\<lambda>s1.
     R_bind (R_assert (type = R_REQ)) (\<lambda>_.
     R_bind (deref_row s1 r) (\<lambda>row.
     R_bind (get_manager row) (\<lambda>m.
     R_bind (if start_ts < wts m then Inr (Abort, s1)
             else R_bind (row_copy s1 cur_row r) (\<lambda>s2. Inr (RCOK, s2))) (\<lambda>(rc, s2).
     R_bind (row_release s2 r) (\<lambda>s3. Inr (rc, s3)))))))"

text \<open>\<open>Row_occ::write\<close>.\<close>

definition row_write :: "store \<Rightarrow> nat \<Rightarrow> nat \<Rightarrow> u64 \<Rightarrow> store res" where
  "row_write s r src ts =
     R_bind (row_copy s r src) (\<lambda>s1.
       if PER_ROW_VALID
       then R_bind (deref_row s1 r) (\<lambda>row.
            R_bind (get_manager row) (\<lambda>m.
            R_bind (R_assert (wts m < ts)) (\<lambda>_.
              Inr (put_manager s1 r row (m\<lparr>wts := ts\<rparr>)))))
       else Inr s1)"

section \<open>The global timestamp\<close>

text \<open>\<open>Manager::init\<close> starts the timestamp at 1; \<open>get_ts\<close> is an atomic fetch-and-add.\<close>

definition manager_init :: "store \<Rightarrow> store" where
  "manager_init s = s\<lparr>timestamp := 1\<rparr>"

definition get_ts :: "store \<Rightarrow> u64 \<times> store" where
  "get_ts s = (timestamp s, s\<lparr>timestamp := timestamp s + 1\<rparr>)"

end
