(* ===== verification/Occ.thy ===== *)
theory Occ
  imports Store
begin

text \<open>
  The transaction descriptor (\<open>Storage/System/txn.h\<close>, \<open>txn_man::init\<close>), the row operations a
  transaction goes through (\<open>row_t::get_row\<close>, \<open>return_row\<close>), \<open>txn_man::get_row\<close> and \<open>cleanup\<close>, and
  the optimistic concurrency control of \<open>Storage/concurrency_control/occ.cpp\<close>.
\<close>

section \<open>Transactions\<close>

record Access =
  acc_type :: access_t
  orig_row :: "nat option"
  acc_data :: "nat option"

text \<open>
  \<open>accesses\<close> is the array of \<open>MAX_ROW_PER_TXN\<close> pointers to \<open>Access\<close> objects; \<open>insert_rows\<close> holds
  the first \<open>insert_cnt\<close> entries of the array of that name; \<open>record_pos\<close> maps a primary key to the
  position of its access.
\<close>

record txn_man =
  accesses :: "Access option list"
  row_cnt :: nat
  wr_cnt :: nat
  lock_cnt :: nat
  num_accesses_alloc :: nat
  insert_rows :: "nat list"
  record_pos :: "u64 \<Rightarrow> nat option"
  start_ts :: u64
  end_ts :: u64
  cur_row :: "nat option"

text \<open>A value-initialised object on which \<open>init\<close> has run.\<close>

definition txn_init :: txn_man where
  "txn_init =
     \<lparr>accesses = replicate MAX_ROW_PER_TXN None, row_cnt = 0, wr_cnt = 0, lock_cnt = 0,
      num_accesses_alloc = 0, insert_rows = [], record_pos = Map.empty,
      start_ts = 0, end_ts = 0, cur_row = None\<rparr>"

definition get_access :: "txn_man \<Rightarrow> nat \<Rightarrow> Access res" where
  "get_access t i = R_bind (R_nth (accesses t) i) R_ptr"

definition set_access :: "txn_man \<Rightarrow> nat \<Rightarrow> Access \<Rightarrow> txn_man" where
  "set_access t i acc = t\<lparr>accesses := (accesses t)[i := Some acc]\<rparr>"

section \<open>Rows as a transaction uses them\<close>

text \<open>
  \<open>row_t::get_row\<close>: a local copy of the row is allocated as the transaction's \<open>cur_row\<close> and handed
  back even when \<open>access\<close> aborts. The access type is not used.
\<close>

definition row_get_row :: "store \<Rightarrow> txn_man \<Rightarrow> nat \<Rightarrow> (RC \<times> nat \<times> store \<times> txn_man) res" where
  "row_get_row s t r =
     R_bind (deref_row s r) (\<lambda>row.
     R_bind (row_alloc s (row_table row) (part_id row) 0) (\<lambda>(s1, cur).
     R_bind (row_access s1 r (start_ts t) cur R_REQ) (\<lambda>(rc, s2).
       Inr (rc, cur, s2, t\<lparr>cur_row := Some cur\<rparr>))))"

text \<open>\<open>row_t::return_row\<close>, called on \<open>orig\<close> with the local copy \<open>loc\<close>.\<close>

definition return_row ::
    "store \<Rightarrow> access_t \<Rightarrow> u64 \<Rightarrow> nat option \<Rightarrow> nat option \<Rightarrow> store res" where
  "return_row s type ts orig loc =
     R_bind (R_assert (loc \<noteq> None)) (\<lambda>_.
     R_bind (R_ptr loc) (\<lambda>l.
     R_bind (if type = WR then R_bind (R_ptr orig) (\<lambda>r. row_write s r l ts) else Inr s) (\<lambda>s1.
     R_bind (free_row s1 l) (\<lambda>s2. mem_free_row s2 l))))"

text \<open>
  \<open>txn_man::get_row\<close>: a row the transaction has already accessed (found by its primary key) yields
  the local copy, and a read access becomes a write access if asked for. Otherwise the next
  \<open>Access\<close> slot is used; the result is \<open>None\<close> (the null pointer) if the row was updated after the
  transaction started. There is no check that a slot is left.
\<close>

definition ensure_access :: "txn_man \<Rightarrow> txn_man res" where
  "ensure_access t =
     R_bind (R_nth (accesses t) (row_cnt t)) (\<lambda>a.
       case a of
         Some _ \<Rightarrow> Inr t
       | None \<Rightarrow> Inr ((set_access t (row_cnt t)
                       \<lparr>acc_type = RD, orig_row = None, acc_data = None\<rparr>)
                     \<lparr>num_accesses_alloc := num_accesses_alloc t + 1\<rparr>))"

definition txn_get_row ::
    "store \<Rightarrow> txn_man \<Rightarrow> nat \<Rightarrow> access_t \<Rightarrow> (nat option \<times> store \<times> txn_man) res" where
  "txn_get_row s t r type =
     R_bind (deref_row s r) (\<lambda>row.
     R_bind (get_primary_key row) (\<lambda>rid.
       case record_pos t rid of
         Some pos \<Rightarrow>
           R_bind (get_access t pos) (\<lambda>acc.
             let t1 = (if acc_type acc = RD \<and> type = WR
                       then (set_access t pos (acc\<lparr>acc_type := WR\<rparr>))\<lparr>wr_cnt := wr_cnt t + 1\<rparr>
                       else t)
             in Inr (acc_data acc, s, t1))
       | None \<Rightarrow>
           R_bind (ensure_access t) (\<lambda>t1.
           R_bind (get_access t1 (row_cnt t1)) (\<lambda>acc.
           R_bind (row_get_row s t1 r) (\<lambda>(rc, cur, s2, t2).
             let acc1 = acc\<lparr>acc_data := Some cur\<rparr>
             in if rc = Abort then Inr (None, s2, set_access t2 (row_cnt t2) acc1)
                else let acc2 = acc1\<lparr>acc_type := type, orig_row := Some r\<rparr>;
                         t3 = set_access t2 (row_cnt t2) acc2;
                         t4 = t3\<lparr>record_pos := (record_pos t3)(rid \<mapsto> row_cnt t3),
                                 row_cnt := row_cnt t3 + 1,
                                 wr_cnt := (if type = WR then wr_cnt t3 + 1 else wr_cnt t3)\<rparr>
                     in Inr (acc_data acc2, s2, t4))))))"

section \<open>Cleanup\<close>

text \<open>
  \<open>txn_man::cleanup\<close>: the accesses are returned from the last to the first; write accesses of an
  aborting transaction are returned as \<open>XP\<close>. On abort the inserted rows are freed. The index is not
  touched.
\<close>

fun cleanup_rows :: "store \<Rightarrow> txn_man \<Rightarrow> RC \<Rightarrow> nat \<Rightarrow> (store \<times> txn_man) res" where
  "cleanup_rows s t rc 0 = Inr (s, t)"
| "cleanup_rows s t rc (Suc rid) =
     R_bind (get_access t rid) (\<lambda>acc.
       let type = (if acc_type acc = WR \<and> rc = Abort then XP else acc_type acc)
       in R_bind (return_row s type (end_ts t) (orig_row acc) (acc_data acc)) (\<lambda>s1.
            cleanup_rows s1 (set_access t rid (acc\<lparr>acc_data := None\<rparr>)) rc rid))"

fun free_inserted :: "store \<Rightarrow> nat list \<Rightarrow> store res" where
  "free_inserted s [] = Inr s"
| "free_inserted s (r # rs) =
     R_bind (R_assert (g_part_alloc = False)) (\<lambda>_.
     R_bind (free_row s r) (\<lambda>s1.
     R_bind (mem_free_row s1 r) (\<lambda>s2. free_inserted s2 rs)))"

definition cleanup :: "store \<Rightarrow> txn_man \<Rightarrow> RC \<Rightarrow> (store \<times> txn_man) res" where
  "cleanup s t rc =
     R_bind (cleanup_rows s t rc (row_cnt t)) (\<lambda>(s1, t1).
     R_bind (if rc = Abort then free_inserted s1 (insert_rows t1) else Inr s1) (\<lambda>s2.
       Inr (s2, t1\<lparr>row_cnt := 0, wr_cnt := 0, insert_rows := [], record_pos := Map.empty\<rparr>)))"

section \<open>Validation\<close>

text \<open>The sign of \<open>strcmp\<close>.\<close>

fun strcmp :: "string \<Rightarrow> string \<Rightarrow> int" where
  "strcmp [] [] = 0"
| "strcmp [] (y # ys) = -1"
| "strcmp (x # xs) [] = 1"
| "strcmp (x # xs) (y # ys) =
     (if x = y then strcmp xs ys else if (of_char x :: nat) < of_char y then -1 else 1)"

text \<open>The condition under which the sort of \<open>OptCC::validate\<close> swaps two neighbours.\<close>

definition access_gt :: "store \<Rightarrow> Access option \<Rightarrow> Access option \<Rightarrow> bool res" where
  "access_gt s a b =
     R_bind (R_ptr a) (\<lambda>a1. R_bind (R_ptr (orig_row a1)) (\<lambda>ra. R_bind (deref_row s ra) (\<lambda>rowa.
     R_bind (get_table_name s rowa) (\<lambda>na.
     R_bind (R_ptr b) (\<lambda>b1. R_bind (R_ptr (orig_row b1)) (\<lambda>rb. R_bind (deref_row s rb) (\<lambda>rowb.
     R_bind (get_table_name s rowb) (\<lambda>nb.
       let tabcmp = strcmp na nb
       in if tabcmp > 0 then Inr True
          else if tabcmp = 0
          then R_bind (get_primary_key rowa) (\<lambda>ka. R_bind (get_primary_key rowb) (\<lambda>kb.
                 Inr (ka > kb)))
          else Inr False))))))))"

text \<open>The bubble sort: the inner loop over \<open>j\<close>, the outer loop with \<open>i\<close> from \<open>n - 1\<close> down to 1.\<close>

function bubble_inner ::
    "('a \<Rightarrow> 'a \<Rightarrow> bool res) \<Rightarrow> nat \<Rightarrow> nat \<Rightarrow> 'a list \<Rightarrow> 'a list res" where
  "bubble_inner gt i j xs =
     (if j < i
      then R_bind (R_nth xs j) (\<lambda>a. R_bind (R_nth xs (Suc j)) (\<lambda>b.
           R_bind (gt a b) (\<lambda>swap.
             bubble_inner gt i (Suc j) (if swap then xs[j := b, Suc j := a] else xs))))
      else Inr xs)"
  by pat_completeness auto
termination
  by (relation "measure (\<lambda>(gt, i, j, xs). i - j)") auto

declare bubble_inner.simps [simp del]

fun bubble_outer :: "('a \<Rightarrow> 'a \<Rightarrow> bool res) \<Rightarrow> nat \<Rightarrow> 'a list \<Rightarrow> 'a list res" where
  "bubble_outer gt 0 xs = Inr xs"
| "bubble_outer gt (Suc i) xs = R_bind (bubble_inner gt (Suc i) 0 xs) (bubble_outer gt i)"

definition sort_accesses :: "store \<Rightarrow> txn_man \<Rightarrow> txn_man res" where
  "sort_accesses s t =
     R_bind (bubble_outer (access_gt s) (row_cnt t - 1) (accesses t)) (\<lambda>as.
       Inr (t\<lparr>accesses := as\<rparr>))"

text \<open>
  The locking loop: latch each row in the order of the sorted accesses and validate it under the
  latch; it stops at the first row that fails. Called with \<open>i = 0\<close> and \<open>n = row_cnt\<close>.
\<close>

fun lock_rows :: "store \<Rightarrow> txn_man \<Rightarrow> nat \<Rightarrow> nat \<Rightarrow> (bool \<times> store \<times> txn_man) res" where
  "lock_rows s t i 0 = Inr (True, s, t)"
| "lock_rows s t i (Suc n) =
     (let t1 = t\<lparr>lock_cnt := lock_cnt t + 1\<rparr>
      in R_bind (get_access t1 i) (\<lambda>acc.
         R_bind (R_ptr (orig_row acc)) (\<lambda>r.
         R_bind (row_latch s r) (\<lambda>s1.
         R_bind (row_validate s1 r (start_ts t1)) (\<lambda>ok.
           if ok then lock_rows s1 t1 (Suc i) n else Inr (False, s1, t1))))))"

fun release_rows :: "store \<Rightarrow> txn_man \<Rightarrow> nat \<Rightarrow> nat \<Rightarrow> store res" where
  "release_rows s t i 0 = Inr s"
| "release_rows s t i (Suc n) =
     R_bind (get_access t i) (\<lambda>acc.
     R_bind (R_ptr (orig_row acc)) (\<lambda>r.
     R_bind (row_release s r) (\<lambda>s1. release_rows s1 t (Suc i) n)))"

definition validate :: "store \<Rightarrow> txn_man \<Rightarrow> (RC \<times> store \<times> txn_man) res" where
  "validate s t =
     R_bind (sort_accesses s t) (\<lambda>t1.
     R_bind (lock_rows s (t1\<lparr>lock_cnt := 0\<rparr>) 0 (row_cnt t1)) (\<lambda>(ok, s2, t2).
     R_bind (if ok
             then let (ts, s3) = get_ts s2
                  in R_bind (cleanup s3 (t2\<lparr>end_ts := ts\<rparr>) RCOK) (\<lambda>(s4, t4). Inr (RCOK, s4, t4))
             else R_bind (cleanup s2 t2 Abort) (\<lambda>(s4, t4). Inr (Abort, s4, t4)))
       (\<lambda>(rc, s4, t4).
     R_bind (release_rows s4 t4 0 (lock_cnt t4)) (\<lambda>s5. Inr (rc, s5, t4)))))"

section \<open>Read and write sets\<close>

text \<open>
  \<open>OptCC::get_rw_set\<close> and \<open>test_valid\<close>: the original rows of the write accesses and of the others,
  in the order of the accesses, checked against the counters; \<open>test_valid\<close> says that two sets share
  no row.
\<close>

fun split_rw :: "txn_man \<Rightarrow> nat \<Rightarrow> nat \<Rightarrow> (nat option list \<times> nat option list) res" where
  "split_rw t i 0 = Inr ([], [])"
| "split_rw t i (Suc n) =
     R_bind (get_access t i) (\<lambda>acc.
     R_bind (split_rw t (Suc i) n) (\<lambda>(ws, rs).
       Inr (if acc_type acc = WR then (orig_row acc # ws, rs) else (ws, orig_row acc # rs))))"

definition get_rw_set :: "txn_man \<Rightarrow> (nat option list \<times> nat option list) res" where
  "get_rw_set t =
     R_bind (split_rw t 0 (row_cnt t)) (\<lambda>(ws, rs).
     R_bind (R_assert (length ws = wr_cnt t)) (\<lambda>_.
     R_bind (R_assert (int (length rs) = int (row_cnt t) - int (wr_cnt t))) (\<lambda>_.
       Inr (rs, ws))))"

definition test_valid :: "nat option list \<Rightarrow> nat option list \<Rightarrow> bool" where
  "test_valid set1 set2 \<longleftrightarrow> list_all (\<lambda>r1. list_all (\<lambda>r2. r1 \<noteq> r2) set2) set1"

end
