(* ===== verification/Txn.thy ===== *)
theory Txn
  imports Occ
begin

text \<open>
  The operations of a transaction (\<open>Storage/System/txn.cpp\<close>): index lookup, \<open>Read\<close>, \<open>Write\<close> with
  its insert and update paths, and \<open>finish\<close>. \<open>hasher\<close> is the \<open>std::hash<std::string>\<close> of the C++
  library, whose values the standard leaves open.
\<close>

section \<open>Operations\<close>

definition hash_key :: "(string \<Rightarrow> u64) \<Rightarrow> string \<Rightarrow> u64" where
  "hash_key hasher key = hasher key"

definition txn_index_read :: "IndexHash \<Rightarrow> u64 \<Rightarrow> int \<Rightarrow> itemid_t option res" where
  "txn_index_read ix key part = index_read ix key part"

definition insert_row :: "txn_man \<Rightarrow> nat \<Rightarrow> txn_man res" where
  "insert_row t r =
     R_bind (R_assert (length (insert_rows t) < MAX_ROW_PER_TXN)) (\<lambda>_.
       Inr (t\<lparr>insert_rows := insert_rows t @ [r]\<rparr>))"

text \<open>\<open>txn_man::Read\<close>; \<open>value_out\<close> is the reference parameter, unchanged on abort.\<close>

definition txn_Read ::
    "(string \<Rightarrow> u64) \<Rightarrow> store \<Rightarrow> txn_man \<Rightarrow> string \<Rightarrow> string \<Rightarrow>
     (RC \<times> string \<times> store \<times> txn_man) res" where
  "txn_Read hasher s t key value_out =
     (let pk = hash_key hasher key
      in R_bind (deref_index s ''Data_INDEX'') (\<lambda>ix.
         R_bind (txn_index_read ix pk 0) (\<lambda>item.
         case item of
           None \<Rightarrow> Inr (Abort, value_out, s, t)
         | Some it \<Rightarrow>
             R_bind (R_ptr (location it)) (\<lambda>row.
             R_bind (txn_get_row s t row RD) (\<lambda>(row_local, s1, t1).
             case row_local of
               None \<Rightarrow> Inr (Abort, value_out, s1, t1)
             | Some l \<Rightarrow>
                 R_bind (get_value s1 l 0) (\<lambda>read_key.
                 R_bind (strcmp_eq read_key (c_str key)) (\<lambda>same.
                 if \<not> same then Inr (Abort, value_out, s1, t1)
                 else R_bind (get_value s1 l 1) (\<lambda>read_val.
                      R_bind (read_cstr read_val) (\<lambda>v. Inr (RCOK, v, s1, t1))))))))))"

text \<open>The insert path of \<open>txn_man::Write\<close>: the row is put into the index before any validation.\<close>

definition txn_insert ::
    "store \<Rightarrow> txn_man \<Rightarrow> IndexHash \<Rightarrow> u64 \<Rightarrow> string \<Rightarrow> string \<Rightarrow> (RC \<times> store \<times> txn_man) res" where
  "txn_insert s t ix pk key val =
     R_bind (get_new_row s ''Data_TABLE'' 0) (\<lambda>(s1, new_row, row_id).
       let key_buf = strncpy_buf 128 key; val_buf = strncpy_buf 1024 val
       in R_bind (set_primary_key s1 new_row pk) (\<lambda>s2.
          R_bind (set_value s2 new_row 0 key_buf) (\<lambda>s3.
          R_bind (set_value s3 new_row 1 val_buf) (\<lambda>s4.
          R_bind (txn_get_row s4 t new_row WR) (\<lambda>(row_local, s5, t5).
          case row_local of
            None \<Rightarrow> Inr (Abort, s5, t5)
          | Some l \<Rightarrow>
              R_bind (set_value s5 l 0 key_buf) (\<lambda>s6.
              R_bind (set_value s6 l 1 val_buf) (\<lambda>s7.
              R_bind (insert_row t5 new_row) (\<lambda>t7.
                let m_item = \<lparr>item_type = DT_row, location = Some new_row, valid = True\<rparr>
                in R_bind (index_insert ix pk m_item 0) (\<lambda>ix'.
                   Inr (RCOK, s7\<lparr>indexes := (indexes s7)(''Data_INDEX'' \<mapsto> ix')\<rparr>, t7))))))))))"

text \<open>The update path of \<open>txn_man::Write\<close>.\<close>

definition txn_update ::
    "store \<Rightarrow> txn_man \<Rightarrow> itemid_t \<Rightarrow> string \<Rightarrow> string \<Rightarrow> (RC \<times> store \<times> txn_man) res" where
  "txn_update s t it key val =
     (case location it of
        None \<Rightarrow> Inr (Abort, s, t)
      | Some row \<Rightarrow>
          R_bind (txn_get_row s t row WR) (\<lambda>(row_local, s1, t1).
          case row_local of
            None \<Rightarrow> Inr (Abort, s1, t1)
          | Some l \<Rightarrow>
              R_bind (get_value s1 l 0) (\<lambda>exist_key.
              R_bind (strcmp_eq exist_key (c_str key)) (\<lambda>same.
              if \<not> same then Inr (Abort, s1, t1)
              else R_bind (set_value s1 l 1 (strncpy_buf 1024 val)) (\<lambda>s2. Inr (RCOK, s2, t1))))))"

definition txn_Write ::
    "(string \<Rightarrow> u64) \<Rightarrow> store \<Rightarrow> txn_man \<Rightarrow> string \<Rightarrow> string \<Rightarrow> (RC \<times> store \<times> txn_man) res" where
  "txn_Write hasher s t key val =
     (let pk = hash_key hasher key
      in R_bind (deref_index s ''Data_INDEX'') (\<lambda>ix.
         R_bind (txn_index_read ix pk 0) (\<lambda>item.
         case item of
           None \<Rightarrow> txn_insert s t ix pk key val
         | Some it \<Rightarrow> txn_update s t it key val)))"

definition finish :: "store \<Rightarrow> txn_man \<Rightarrow> RC \<Rightarrow> (RC \<times> store \<times> txn_man) res" where
  "finish s t rc =
     (if rc = RCOK then validate s t
      else R_bind (cleanup s t rc) (\<lambda>(s1, t1). Inr (rc, s1, t1)))"

end
