(* ===== verification/Views.thy ===== *)
theory Views
  imports Txn
begin

text \<open>
  Well-formed states of the engine and what they stand for. A row that the index reaches holds one
  key and one value, both NUL-terminated inside their columns, with an idle mutex and an update
  time in the past; a local copy holds a key and a value. The view of a store maps primary keys to
  (key, value, update time), the view of a transaction maps primary keys to its local copies. The
  lemmas give the row operations their meaning on such rows.
\<close>

section \<open>Tuples\<close>

definition tuple_ok :: "byte list \<Rightarrow> string \<Rightarrow> string \<Rightarrow> bool" where
  "tuple_ok d k v \<longleftrightarrow> length d = 1152 \<and> read_cstr (take 128 d) = Inr k \<and>
     read_cstr (drop 128 d) = Inr v"

definition trunc_key :: "string \<Rightarrow> string" where
  "trunc_key key = take 127 (c_str key)"

definition trunc_val :: "string \<Rightarrow> string" where
  "trunc_val v = take 1023 (c_str v)"

lemma tuple_ok_key: "tuple_ok d k v \<Longrightarrow> read_cstr d = Inr k"
  using read_cstr_append [of "take 128 d" k "drop 128 d"] by (simp add: tuple_ok_def)

lemma tuple_ok_unique: "tuple_ok d k v \<Longrightarrow> tuple_ok d k' v' \<Longrightarrow> k' = k \<and> v' = v"
  by (auto simp: tuple_ok_def)

lemma tuple_ok_buffers:
  "tuple_ok (strncpy_buf 128 key @ strncpy_buf 1024 val) (trunc_key key) (trunc_val val)"
  using read_cstr_strncpy_buf [of 128 key "[]"] read_cstr_strncpy_buf [of 1024 val "[]"]
  by (simp add: tuple_ok_def trunc_key_def trunc_val_def)

lemma tuple_ok_set_val:
  "tuple_ok d k v \<Longrightarrow> tuple_ok (take 128 d @ strncpy_buf 1024 val) k (trunc_val val)"
  using read_cstr_strncpy_buf [of 1024 val "[]"]
  by (simp add: tuple_ok_def trunc_val_def)

section \<open>Rows\<close>

definition shared_row :: "store \<Rightarrow> nat \<Rightarrow> u64 \<Rightarrow> string \<Rightarrow> string \<Rightarrow> u64 \<Rightarrow> bool" where
  "shared_row s r pk k v w \<longleftrightarrow> (\<exists>row d. rows s r = Some row \<and> row_table row = ''Data_TABLE'' \<and>
     primary_key row = Some pk \<and> manager row = Some \<lparr>wts = w, latched = False\<rparr> \<and>
     data row = Some d \<and> tuple_ok d k v)"

definition local_row :: "store \<Rightarrow> nat \<Rightarrow> string \<Rightarrow> string \<Rightarrow> bool" where
  "local_row s l k v \<longleftrightarrow> (\<exists>row d. rows s l = Some row \<and> row_table row = ''Data_TABLE'' \<and>
     data row = Some d \<and> tuple_ok d k v)"

definition idx_row :: "store \<Rightarrow> u64 \<Rightarrow> nat option" where
  "idx_row s pk =
     (case indexes s ''Data_INDEX'' of
        None \<Rightarrow> None
      | Some ix \<Rightarrow> (case index_read ix pk 0 of Inr (Some it) \<Rightarrow> location it | _ \<Rightarrow> None))"

definition idx_rows :: "store \<Rightarrow> nat set" where
  "idx_rows s = {r. \<exists>pk. idx_row s pk = Some r}"

definition has_table :: "store \<Rightarrow> bool" where
  "has_table s \<longleftrightarrow> (\<exists>tb. tables s ''Data_TABLE'' = Some tb \<and> schema tb = data_catalog)"

text \<open>
  The invariant of the shared store: the table and the index exist, every item of the index leads
  to a row with that primary key, no update time is in the future, addresses not handed out yet
  are unused.
\<close>

definition wf_store :: "store \<Rightarrow> bool" where
  "wf_store s \<longleftrightarrow> has_table s \<and>
     (\<exists>ix. indexes s ''Data_INDEX'' = Some ix \<and> wf_index ix \<and>
        (\<forall>pk it. index_read ix pk 0 = Inr (Some it) \<longrightarrow> location it \<noteq> None)) \<and>
     (\<forall>pk r. idx_row s pk = Some r \<longrightarrow> (\<exists>k v w. shared_row s r pk k v w \<and> w < timestamp s)) \<and>
     (\<forall>r \<ge> next_row s. rows s r = None) \<and> 0 < timestamp s"

lemma wf_storeD:
  assumes "wf_store s"
  shows "has_table s" and "\<And>pk r. idx_row s pk = Some r \<Longrightarrow> \<exists>k v w. shared_row s r pk k v w \<and> w < timestamp s"
    and "\<And>r. next_row s \<le> r \<Longrightarrow> rows s r = None" and "0 < timestamp s"
  using assms by (auto simp: wf_store_def)

lemma wf_store_index:
  assumes "wf_store s"
  obtains ix where "indexes s ''Data_INDEX'' = Some ix" "deref_index s ''Data_INDEX'' = Inr ix" "wf_index ix"
    "\<forall>pk. \<exists>it. index_read ix pk 0 = Inr it \<and> idx_row s pk = Option.bind it location \<and>
       (it = None \<longleftrightarrow> idx_row s pk = None)"
proof -
  from assms obtain ix where ix: "indexes s ''Data_INDEX'' = Some ix" "wf_index ix"
    "\<And>pk it. index_read ix pk 0 = Inr (Some it) \<Longrightarrow> location it \<noteq> None"
    by (auto simp: wf_store_def)
  have "\<exists>it. index_read ix pk 0 = Inr it \<and> idx_row s pk = Option.bind it location \<and>
       (it = None \<longleftrightarrow> idx_row s pk = None)" for pk
  proof -
    obtain it where it: "index_read ix pk 0 = Inr it"
      using hash_ix.read_ok [OF ix(2)] by blast
    then show ?thesis
      using ix(1) ix(3) [of pk] by (cases it) (auto simp: idx_row_def)
  qed
  with ix show ?thesis using that by (simp add: deref_index_def)
qed

lemma shared_row_unique:
  "shared_row s r pk k v w \<Longrightarrow> shared_row s r pk' k' v' w' \<Longrightarrow> pk' = pk \<and> k' = k \<and> v' = v \<and> w' = w"
  by (auto simp: shared_row_def dest: tuple_ok_unique)

lemma local_row_unique: "local_row s l k v \<Longrightarrow> local_row s l k' v' \<Longrightarrow> k' = k \<and> v' = v"
  by (auto simp: local_row_def dest: tuple_ok_unique)

lemma shared_row_local: "shared_row s r pk k v w \<Longrightarrow> local_row s r k v"
  by (auto simp: shared_row_def local_row_def)

lemma shared_row_below: "wf_store s \<Longrightarrow> shared_row s r pk k v w \<Longrightarrow> r < next_row s"
  using wf_storeD(3) [of s r] by (force simp: shared_row_def not_le)

lemma local_row_below: "wf_store s \<Longrightarrow> local_row s r k v \<Longrightarrow> r < next_row s"
  using wf_storeD(3) [of s r] by (force simp: local_row_def not_le)

lemma idx_row_inj: "wf_store s \<Longrightarrow> idx_row s pk = Some r \<Longrightarrow> idx_row s pk' = Some r \<Longrightarrow> pk' = pk"
  by (metis shared_row_unique wf_storeD(2))

section \<open>The views\<close>

record arow =
  a_key :: string
  a_val :: string
  a_wts :: u64

record aacc =
  aw :: bool
  ak :: string
  av :: string

definition row_view :: "store \<Rightarrow> nat \<Rightarrow> arow option" where
  "row_view s r =
     (case rows s r of None \<Rightarrow> None | Some row \<Rightarrow>
       (case (data row, manager row) of
          (Some d, Some m) \<Rightarrow>
            (case (read_cstr (take 128 d), read_cstr (drop 128 d)) of
               (Inr k, Inr v) \<Rightarrow> Some \<lparr>a_key = k, a_val = v, a_wts = wts m\<rparr>
             | _ \<Rightarrow> None)
        | _ \<Rightarrow> None))"

definition db_view :: "store \<Rightarrow> u64 \<Rightarrow> arow option" where
  "db_view s pk = Option.bind (idx_row s pk) (row_view s)"

definition local_view :: "store \<Rightarrow> Access \<Rightarrow> aacc option" where
  "local_view s a =
     (case acc_data a of None \<Rightarrow> None | Some l \<Rightarrow>
       (case rows s l of None \<Rightarrow> None | Some row \<Rightarrow>
         (case data row of None \<Rightarrow> None | Some d \<Rightarrow>
           (case (read_cstr (take 128 d), read_cstr (drop 128 d)) of
              (Inr k, Inr v) \<Rightarrow> Some \<lparr>aw = (acc_type a = WR), ak = k, av = v\<rparr>
            | _ \<Rightarrow> None))))"

definition acc_view :: "store \<Rightarrow> txn_man \<Rightarrow> u64 \<Rightarrow> aacc option" where
  "acc_view s t pk =
     Option.bind (record_pos t pk) (\<lambda>i. Option.bind (accesses t ! i) (local_view s))"

lemma row_view_shared:
  "shared_row s r pk k v w \<Longrightarrow> row_view s r = Some \<lparr>a_key = k, a_val = v, a_wts = w\<rparr>"
  by (auto simp: shared_row_def row_view_def tuple_ok_def)

lemma local_view_local:
  "acc_data a = Some l \<Longrightarrow> local_row s l k v \<Longrightarrow> local_view s a = Some \<lparr>aw = (acc_type a = WR), ak = k, av = v\<rparr>"
  by (auto simp: local_row_def local_view_def tuple_ok_def)

lemma db_view_Some:
  assumes "wf_store s" and "idx_row s pk = Some r"
  obtains k v w where "shared_row s r pk k v w" "w < timestamp s"
    "db_view s pk = Some \<lparr>a_key = k, a_val = v, a_wts = w\<rparr>"
  using wf_storeD(2) [OF assms] assms(2) by (auto simp: db_view_def dest: row_view_shared)

lemma db_view_None_iff: "wf_store s \<Longrightarrow> db_view s pk = None \<longleftrightarrow> idx_row s pk = None"
  by (cases "idx_row s pk") (auto simp: db_view_def elim: db_view_Some)

section \<open>Well-formed transactions\<close>

definition acc_ok :: "store \<Rightarrow> txn_man \<Rightarrow> nat \<Rightarrow> bool" where
  "acc_ok s t i \<longleftrightarrow> (\<exists>a r l pk k v. accesses t ! i = Some a \<and> orig_row a = Some r \<and>
     acc_data a = Some l \<and> (acc_type a = RD \<or> acc_type a = WR) \<and>
     idx_row s pk = Some r \<and> record_pos t pk = Some i \<and>
     local_row s l k v \<and> l \<notin> idx_rows s)"

definition owned :: "txn_man \<Rightarrow> nat set" where
  "owned t = {l. \<exists>i a. i < row_cnt t \<and> accesses t ! i = Some a \<and> acc_data a = Some l}"

text \<open>
  The invariant of an active transaction: its accesses are within the array, each of them has a
  row of the index and a local copy of its own, \<open>record_pos\<close> is the inverse of the access list,
  and it started in the past.
\<close>

definition wf_txn :: "store \<Rightarrow> txn_man \<Rightarrow> bool" where
  "wf_txn s t \<longleftrightarrow> length (accesses t) = MAX_ROW_PER_TXN \<and> row_cnt t \<le> MAX_ROW_PER_TXN \<and>
     (\<forall>i < row_cnt t. acc_ok s t i) \<and>
     (\<forall>pk i. record_pos t pk = Some i \<longrightarrow> i < row_cnt t \<and>
        (\<exists>a r. accesses t ! i = Some a \<and> orig_row a = Some r \<and> idx_row s pk = Some r)) \<and>
     (\<forall>i j a b. i < row_cnt t \<longrightarrow> j < row_cnt t \<longrightarrow> accesses t ! i = Some a \<longrightarrow>
        accesses t ! j = Some b \<longrightarrow> acc_data a = acc_data b \<longrightarrow> i = j) \<and>
     start_ts t < timestamp s"

lemma wf_txn_init [simp]: "0 < timestamp s \<Longrightarrow> wf_txn s txn_init"
  by (simp add: wf_txn_def txn_init_def)

lemma wf_txn_record:
  assumes "wf_txn s t" and "record_pos t pk = Some i"
  obtains a r l k v where "i < row_cnt t" "i < length (accesses t)" "accesses t ! i = Some a"
    "orig_row a = Some r" "acc_data a = Some l" "acc_type a = RD \<or> acc_type a = WR"
    "idx_row s pk = Some r" "local_row s l k v" "l \<notin> idx_rows s" "get_access t i = Inr a"
    "acc_view s t pk = Some \<lparr>aw = (acc_type a = WR), ak = k, av = v\<rparr>"
proof -
  from assms obtain a r where a: "i < row_cnt t" "accesses t ! i = Some a" "orig_row a = Some r"
    "idx_row s pk = Some r"
    unfolding wf_txn_def by blast
  moreover from assms(1) a(1) have "acc_ok s t i" by (simp add: wf_txn_def)
  with a obtain l k v where l: "acc_data a = Some l" "acc_type a = RD \<or> acc_type a = WR"
    "local_row s l k v" "l \<notin> idx_rows s"
    unfolding acc_ok_def by auto
  moreover have len: "i < length (accesses t)" using assms(1) a(1) by (simp add: wf_txn_def)
  moreover have "get_access t i = Inr a"
    using a len by (simp add: get_access_def)
  moreover have "acc_view s t pk = Some \<lparr>aw = (acc_type a = WR), ak = k, av = v\<rparr>"
    using assms(2) a l by (simp add: acc_view_def local_view_local)
  ultimately show ?thesis using that by blast
qed

lemma wf_txn_access:
  assumes "wf_txn s t" and "i < row_cnt t"
  obtains a r l pk k v where "accesses t ! i = Some a" "get_access t i = Inr a"
    "orig_row a = Some r" "acc_data a = Some l" "acc_type a = RD \<or> acc_type a = WR"
    "idx_row s pk = Some r" "record_pos t pk = Some i" "local_row s l k v" "l \<notin> idx_rows s"
proof -
  from assms have "acc_ok s t i" "i < length (accesses t)" by (auto simp: wf_txn_def)
  then show ?thesis using that by (auto simp: acc_ok_def get_access_def)
qed

lemma acc_view_None_iff: "wf_txn s t \<Longrightarrow> acc_view s t pk = None \<longleftrightarrow> record_pos t pk = None"
  by (cases "record_pos t pk") (auto simp: acc_view_def elim: wf_txn_record)

section \<open>Frames\<close>

text \<open>
  What an operation of one transaction may change for everybody else: rows outside \<open>own\<close> keep their
  contents unless the index reaches them, the index keeps its entries, new entries are new rows,
  and time does not run backwards.
\<close>

definition frame :: "nat set \<Rightarrow> store \<Rightarrow> store \<Rightarrow> bool" where
  "frame own s s' \<longleftrightarrow>
     (\<forall>r. rows s r \<noteq> None \<longrightarrow> r \<notin> own \<longrightarrow> r \<notin> idx_rows s \<longrightarrow> rows s' r = rows s r) \<and>
     (\<forall>pk r. idx_row s pk = Some r \<longrightarrow> idx_row s' pk = Some r) \<and>
     (\<forall>pk r. idx_row s' pk = Some r \<longrightarrow> idx_row s pk = Some r \<or> next_row s \<le> r) \<and>
     next_row s \<le> next_row s' \<and> timestamp s \<le> timestamp s'"

lemma frame_refl [simp]: "frame own s s"
  by (simp add: frame_def)

lemma local_row_cong: "rows s' l = rows s l \<Longrightarrow> local_row s' l k v = local_row s l k v"
  by (simp add: local_row_def)

lemma shared_row_cong: "rows s' r = rows s r \<Longrightarrow> shared_row s' r pk k v w = shared_row s r pk k v w"
  by (simp add: shared_row_def)

lemma local_view_cong:
  "(\<And>l. acc_data a = Some l \<Longrightarrow> rows s' l = rows s l) \<Longrightarrow> local_view s' a = local_view s a"
  by (cases "acc_data a") (simp_all add: local_view_def)

lemma frame_local:
  assumes "frame own s s'" and "rows s l \<noteq> None" and "l \<notin> own" and "l \<notin> idx_rows s"
    and "wf_store s"
  shows "rows s' l = rows s l" and "l \<notin> idx_rows s'"
proof -
  show "rows s' l = rows s l" using assms by (simp add: frame_def)
  have "l < next_row s" using assms(2) wf_storeD(3) [OF assms(5), of l] by (force simp: not_le)
  then have "idx_row s pk = Some l" if "idx_row s' pk = Some l" for pk
    using assms(1) that unfolding frame_def by (meson not_le)
  then show "l \<notin> idx_rows s'" using assms(4) by (auto simp: idx_rows_def)
qed

lemma frame_wf_txn:
  assumes fr: "frame own s s'" and ws: "wf_store s" and wf: "wf_txn s u"
    and own: "owned u \<inter> own = {}"
  shows "wf_txn s' u" and "acc_view s' u = acc_view s u"
proof -
  have keep: "rows s' l = rows s l \<and> l \<notin> idx_rows s'"
    if "i < row_cnt u" "accesses u ! i = Some a" "acc_data a = Some l" for i a l
  proof -
    from that own have "l \<notin> own" by (auto simp: owned_def)
    moreover from wf that have "rows s l \<noteq> None \<and> l \<notin> idx_rows s"
      by (elim wf_txn_access) (auto simp: local_row_def)
    ultimately show ?thesis using frame_local [OF fr _ _ _ ws] by blast
  qed
  have idx: "idx_row s' pk = Some r" if "idx_row s pk = Some r" for pk r
    using fr that by (simp add: frame_def)
  have ok: "acc_ok s' u i" if "i < row_cnt u" for i
    using wf that
  proof (rule wf_txn_access)
    fix a r l pk k v
    assume a: "accesses u ! i = Some a" "orig_row a = Some r" "acc_data a = Some l"
      "acc_type a = RD \<or> acc_type a = WR" "idx_row s pk = Some r" "record_pos u pk = Some i"
      "local_row s l k v" "l \<notin> idx_rows s"
    with keep [OF that a(1,3)] idx [OF a(5)] show ?thesis
      unfolding acc_ok_def by (metis local_row_cong)
  qed
  have ts: "start_ts u < timestamp s'"
    using fr wf by (auto simp: frame_def wf_txn_def)
  show "wf_txn s' u"
    using wf ok ts idx unfolding wf_txn_def by blast
  show "acc_view s' u = acc_view s u"
  proof
    fix pk
    show "acc_view s' u pk = acc_view s u pk"
    proof (cases "record_pos u pk")
      case (Some i)
      then obtain a where "i < row_cnt u" and a: "accesses u ! i = Some a"
        by (rule wf_txn_record [OF wf])
      then have "local_view s' a = local_view s a"
        using keep by (auto intro!: local_view_cong)
      with a show ?thesis by (simp add: acc_view_def Some)
    qed (simp add: acc_view_def)
  qed
qed


lemma frame_trans:
  assumes "frame own s s'" and "frame own' s' s''" and "own' \<subseteq> own \<union> {r. next_row s \<le> r}"
    and "wf_store s"
  shows "frame own s s''"
proof -
  have "rows s'' r = rows s r" if "rows s r \<noteq> None" "r \<notin> own" "r \<notin> idx_rows s" for r
  proof -
    have "r < next_row s" using that(1) wf_storeD(3) [OF assms(4), of r] by (force simp: not_le)
    then have "r \<notin> own'" using that assms(3) by auto
    moreover have "rows s' r = rows s r" "r \<notin> idx_rows s'"
      using frame_local [OF assms(1) that assms(4)] by auto
    ultimately show ?thesis using assms(2) that(1) by (simp add: frame_def)
  qed
  moreover have "idx_row s pk = Some r \<or> next_row s \<le> r" if "idx_row s'' pk = Some r" for pk r
    using assms(1,2) that unfolding frame_def by (meson order_trans)
  ultimately show ?thesis
    using assms(1,2) by (auto simp: frame_def)
qed

end
