(* ===== verification/Txn_Refine.thy ===== *)
theory Txn_Refine
  imports Views
begin

text \<open>
  The transaction operations against an abstract optimistic protocol. \<open>a_access\<close>, \<open>a_read\<close>,
  \<open>a_update\<close>, \<open>a_insert\<close> and \<open>a_commit\<close> describe the protocol on the views only: maps from primary
  keys to committed rows and to local copies. The refinement lemmas show that on well-formed states
  the code's operations neither fault nor block and compute exactly these functions on the views.
\<close>

section \<open>The abstract protocol\<close>

type_synonym adb = "u64 \<Rightarrow> arow option"
type_synonym aset = "u64 \<Rightarrow> aacc option"

text \<open>First access copies the committed row unless it is newer than the transaction.\<close>

definition a_access :: "adb \<Rightarrow> aset \<Rightarrow> u64 \<Rightarrow> u64 \<Rightarrow> bool \<Rightarrow> aset option" where
  "a_access db acc start pk wr =
     (case acc pk of
        Some l \<Rightarrow> Some (acc(pk \<mapsto> l\<lparr>aw := aw l \<or> wr\<rparr>))
      | None \<Rightarrow>
          (case db pk of
             None \<Rightarrow> None
           | Some row \<Rightarrow>
               if start < a_wts row then None
               else Some (acc(pk \<mapsto> \<lparr>aw = wr, ak = a_key row, av = a_val row\<rparr>))))"

definition a_read :: "adb \<Rightarrow> aset \<Rightarrow> u64 \<Rightarrow> u64 \<Rightarrow> string \<Rightarrow> string \<Rightarrow> RC \<times> string \<times> aset" where
  "a_read db acc start pk key vo =
     (case db pk of
        None \<Rightarrow> (Abort, vo, acc)
      | Some _ \<Rightarrow>
          (case a_access db acc start pk False of
             None \<Rightarrow> (Abort, vo, acc)
           | Some acc' \<Rightarrow>
               (case acc' pk of
                  None \<Rightarrow> (Abort, vo, acc')
                | Some l \<Rightarrow> if ak l = c_str key then (RCOK, av l, acc') else (Abort, vo, acc'))))"

definition a_update :: "adb \<Rightarrow> aset \<Rightarrow> u64 \<Rightarrow> u64 \<Rightarrow> string \<Rightarrow> string \<Rightarrow> RC \<times> aset" where
  "a_update db acc start pk key val =
     (case a_access db acc start pk True of
        None \<Rightarrow> (Abort, acc)
      | Some acc' \<Rightarrow>
          (case acc' pk of
             None \<Rightarrow> (Abort, acc')
           | Some l \<Rightarrow>
               if ak l = c_str key then (RCOK, acc'(pk \<mapsto> l\<lparr>av := trunc_val val\<rparr>))
               else (Abort, acc')))"

definition a_insert :: "adb \<Rightarrow> aset \<Rightarrow> u64 \<Rightarrow> string \<Rightarrow> string \<Rightarrow> adb \<times> aset" where
  "a_insert db acc pk key val =
     (db(pk \<mapsto> \<lparr>a_key = trunc_key key, a_val = trunc_val val, a_wts = 0\<rparr>),
      acc(pk \<mapsto> \<lparr>aw = True, ak = trunc_key key, av = trunc_val val\<rparr>))"

definition a_valid :: "adb \<Rightarrow> aset \<Rightarrow> u64 \<Rightarrow> bool" where
  "a_valid db acc start \<longleftrightarrow>
     (\<forall>pk \<in> dom acc. \<forall>row. db pk = Some row \<longrightarrow> a_wts row \<le> start)"

definition a_write_back :: "adb \<Rightarrow> aset \<Rightarrow> u64 \<Rightarrow> adb" where
  "a_write_back db acc ts =
     (\<lambda>pk. case acc pk of
        Some l \<Rightarrow> if aw l then Some \<lparr>a_key = ak l, a_val = av l, a_wts = ts\<rparr> else db pk
      | None \<Rightarrow> db pk)"

section \<open>Row operations on well-formed rows\<close>

definition fresh_row :: "u64 \<Rightarrow> u64 \<Rightarrow> row_t" where
  "fresh_row p rid =
     \<lparr>row_table = ''Data_TABLE'', data = Some (replicate 1152 Uninit), primary_key = None,
      part_id = p, row_id = rid, manager = None\<rparr>"

definition add_row :: "store \<Rightarrow> row_t \<Rightarrow> store" where
  "add_row s row = s\<lparr>rows := (rows s)(next_row s \<mapsto> row), next_row := Suc (next_row s)\<rparr>"

lemma deref_row_Some [simp]: "rows s r = Some row \<Longrightarrow> deref_row s r = Inr row"
  by (simp add: deref_row_def)

lemma get_schema_ok: "has_table s \<Longrightarrow> row_table row = ''Data_TABLE'' \<Longrightarrow> get_schema s row = Inr data_catalog"
  by (auto simp: has_table_def get_schema_def deref_table_def)

lemma has_table_cong [simp]:
  "has_table (put_row s r row) = has_table s"
  "has_table (s\<lparr>rows := rs\<rparr>) = has_table s"
  "has_table (s\<lparr>timestamp := ts\<rparr>) = has_table s"
  "has_table (add_row s row) = has_table s"
  by (simp_all add: has_table_def put_row_def add_row_def)

lemma idx_row_cong [simp]:
  "idx_row (put_row s r row) = idx_row s"
  "idx_row (s\<lparr>rows := rs\<rparr>) = idx_row s"
  "idx_row (s\<lparr>timestamp := ts\<rparr>) = idx_row s"
  "idx_row (add_row s row) = idx_row s"
  by (simp_all add: idx_row_def put_row_def add_row_def fun_eq_iff)

lemma row_alloc_ok:
  "has_table s \<Longrightarrow> row_alloc s ''Data_TABLE'' p rid = Inr (add_row s (fresh_row p rid), next_row s)"
  by (auto simp: has_table_def row_alloc_def deref_table_def Let_def add_row_def fresh_row_def)

lemma row_copy_ok:
  assumes "has_table s" and "rows s src = Some srow" "row_table srow = ''Data_TABLE''"
    "data srow = Some d" "length d = 1152"
    and "rows s dst = Some drow" "data drow = Some d0" "length d0 = 1152"
  shows "row_copy s dst src = Inr (put_row s dst (drow\<lparr>data := Some d\<rparr>))"
  using assms by (simp add: row_copy_def get_data_def get_schema_ok set_data_def mem_copy_def)

lemma put_row_same [simp]: "rows s r = Some row \<Longrightarrow> put_row s r row = s"
  by (cases s) (auto simp: put_row_def)

lemma rows_put_row [simp]: "rows (put_row s r row) q = (if q = r then Some row else rows s q)"
  by (simp add: put_row_def)

lemma put_row_put_row [simp]: "put_row (put_row s r a) r b = put_row s r b"
  by (simp add: put_row_def)

lemma put_row_swap: "r \<noteq> q \<Longrightarrow> put_row (put_row s r a) q b = put_row (put_row s q b) r a"
  by (simp add: put_row_def fun_upd_twist)

lemma rows_add_row [simp]:
  "rows (add_row s row) q = (if q = next_row s then Some row else rows s q)"
  by (simp add: add_row_def)

lemma put_row_add_row [simp]: "put_row (add_row s a) (next_row s) b = add_row s b"
  by (simp add: put_row_def add_row_def)

lemma store_cong [simp]:
  "tables (put_row s r row) = tables s" "indexes (put_row s r row) = indexes s"
  "next_row (put_row s r row) = next_row s" "timestamp (put_row s r row) = timestamp s"
  "tables (add_row s row) = tables s" "indexes (add_row s row) = indexes s"
  "next_row (add_row s row) = Suc (next_row s)" "timestamp (add_row s row) = timestamp s"
  by (simp_all add: put_row_def add_row_def)

text \<open>
  \<open>Row_occ::access\<close> on an idle row with a local copy of the right size: aborted exactly when the
  row is newer than the transaction, otherwise copied; the row itself and its mutex are as before.
\<close>

lemma row_access_ok:
  assumes "has_table s" and row: "rows s r = Some row" "row_table row = ''Data_TABLE''"
    "manager row = Some \<lparr>wts = w, latched = False\<rparr>" "data row = Some d" "length d = 1152"
    and cur: "rows s cur = Some crow" "data crow = Some d0" "length d0 = 1152" "cur \<noteq> r"
  shows "row_access s r ts cur R_REQ =
    Inr (if ts < w then (Abort, s) else (RCOK, put_row s cur (crow\<lparr>data := Some d\<rparr>)))"
proof -
  define lrow where "lrow = row\<lparr>manager := Some \<lparr>wts = w, latched = True\<rparr>\<rparr>"
  define s1 where "s1 = put_row s r lrow"
  have latch: "row_latch s r = Inr s1"
    using row by (simp add: row_latch_def get_manager_def put_manager_def s1_def lrow_def)
  have copy: "row_copy s1 cur r = Inr (put_row s1 cur (crow\<lparr>data := Some d\<rparr>))"
    using assms by (intro row_copy_ok [where srow = lrow and drow = crow and d = d and ?d0.0 = d0])
      (simp_all add: s1_def lrow_def)
  have unlock: "lrow\<lparr>manager := Some \<lparr>wts = w, latched = False\<rparr>\<rparr> = row"
    using row by (cases row) (simp add: lrow_def)
  have m: "get_manager lrow = Inr \<lparr>wts = w, latched = True\<rparr>"
    by (simp add: get_manager_def lrow_def)
  have rel: "row_release s1 r = Inr s"
    using row unlock m by (simp add: row_release_def s1_def put_manager_def)
  have rel2: "row_release (put_row s1 cur x) r = Inr (put_row s cur x)" for x
    using row cur unlock m
    by (simp add: row_release_def s1_def put_manager_def put_row_swap [of r cur])
  have deref: "deref_row s1 r = Inr lrow" by (simp add: s1_def)
  show ?thesis
    by (simp add: row_access_def latch copy rel rel2 m deref)
qed

lemma row_get_row_ok:
  assumes ht: "has_table s" and below: "r < next_row s" and "shared_row s r pk k v w"
  shows "\<exists>d p. tuple_ok d k v \<and> row_get_row s t r =
    Inr (if start_ts t < w
         then (Abort, next_row s, add_row s (fresh_row p 0), t\<lparr>cur_row := Some (next_row s)\<rparr>)
         else (RCOK, next_row s, add_row s ((fresh_row p 0)\<lparr>data := Some d\<rparr>),
               t\<lparr>cur_row := Some (next_row s)\<rparr>))"
proof -
  from assms(3) obtain row d where row: "rows s r = Some row" "row_table row = ''Data_TABLE''"
    "manager row = Some \<lparr>wts = w, latched = False\<rparr>" "data row = Some d" "tuple_ok d k v"
    by (auto simp: shared_row_def)
  have ne: "r \<noteq> next_row s" using below by simp
  have "row_access (add_row s (fresh_row (part_id row) 0)) r (start_ts t) (next_row s) R_REQ =
    Inr (if start_ts t < w then (Abort, add_row s (fresh_row (part_id row) 0))
         else (RCOK, put_row (add_row s (fresh_row (part_id row) 0)) (next_row s)
                 ((fresh_row (part_id row) 0)\<lparr>data := Some d\<rparr>)))"
    using row ht ne
    by (intro row_access_ok [where row = row and crow = "fresh_row (part_id row) 0" and d = d
          and ?d0.0 = "replicate 1152 Uninit"]) (simp_all add: tuple_ok_def fresh_row_def)
  then have "row_get_row s t r =
    Inr (if start_ts t < w
         then (Abort, next_row s, add_row s (fresh_row (part_id row) 0), t\<lparr>cur_row := Some (next_row s)\<rparr>)
         else (RCOK, next_row s, add_row s ((fresh_row (part_id row) 0)\<lparr>data := Some d\<rparr>),
               t\<lparr>cur_row := Some (next_row s)\<rparr>))"
    using row ht by (simp add: row_get_row_def row_alloc_ok split: if_splits)
  with row(5) show ?thesis by blast
qed

section \<open>Well-formedness under local changes\<close>

lemma idx_rows_cong [simp]:
  "idx_rows (put_row s r row) = idx_rows s" "idx_rows (add_row s row) = idx_rows s"
  "idx_rows (s\<lparr>rows := rs\<rparr>) = idx_rows s" "idx_rows (s\<lparr>timestamp := ts\<rparr>) = idx_rows s"
  by (simp_all add: idx_rows_def)

text \<open>Any change of rows that the index does not reach keeps the store well-formed and its view.\<close>

lemma wf_store_local_change:
  assumes "wf_store s" and "tables s' = tables s" "indexes s' = indexes s" "timestamp s' = timestamp s"
    and "\<And>r. r \<in> idx_rows s \<Longrightarrow> rows s' r = rows s r"
    and "\<And>r. next_row s' \<le> r \<Longrightarrow> rows s' r = None"
  shows "wf_store s'" and "db_view s' = db_view s" and "idx_row s' = idx_row s"
proof -
  show idx: "idx_row s' = idx_row s"
    using assms(3) by (simp add: idx_row_def fun_eq_iff)
  have keep: "rows s' r = rows s r" if "idx_row s pk = Some r" for r pk
    using that assms(5) by (auto simp: idx_rows_def)
  have "shared_row s' r pk k v w = shared_row s r pk k v w" if "idx_row s pk' = Some r" for r pk pk' k v w
    using keep [OF that] by (rule shared_row_cong)
  then show "wf_store s'"
    using assms idx unfolding wf_store_def has_table_def by simp
  show "db_view s' = db_view s"
  proof
    fix pk
    show "db_view s' pk = db_view s pk"
      by (cases "idx_row s pk") (simp_all add: db_view_def idx row_view_def keep)
  qed
qed

lemma add_row_ok:
  assumes "wf_store s"
  shows "wf_store (add_row s row)" and "db_view (add_row s row) = db_view s"
    and "frame own s (add_row s row)" and "next_row s \<notin> idx_rows s"
proof -
  have notin: "next_row s \<notin> idx_rows s"
  proof
    assume "next_row s \<in> idx_rows s"
    then obtain pk where "idx_row s pk = Some (next_row s)" by (auto simp: idx_rows_def)
    then show False using wf_storeD(2) [OF assms] shared_row_below [OF assms] by blast
  qed
  then show "next_row s \<notin> idx_rows s" .
  have new: "rows (add_row s row) r = rows s r" if "r \<in> idx_rows s" for r
    using that notin by auto
  have none: "rows (add_row s row) r = None" if "next_row (add_row s row) \<le> r" for r
    using that wf_storeD(3) [OF assms] by simp
  show "wf_store (add_row s row)" "db_view (add_row s row) = db_view s"
    using wf_store_local_change [OF assms, of "add_row s row"] new none by simp_all
  show "frame own s (add_row s row)"
    using wf_storeD(3) [OF assms] by (auto simp: frame_def)
qed

lemma put_local_ok:
  assumes "wf_store s" and "rows s l \<noteq> None" and "l \<notin> idx_rows s"
  shows "wf_store (put_row s l row)" and "db_view (put_row s l row) = db_view s"
    and "l \<in> own \<Longrightarrow> frame own s (put_row s l row)"
proof -
  have none: "rows (put_row s l row) r = None" if "next_row (put_row s l row) \<le> r" for r
    using that wf_storeD(3) [OF assms(1)] assms(2) by auto
  have keep: "rows (put_row s l row) r = rows s r" if "r \<in> idx_rows s" for r
    using that assms(3) by auto
  show "wf_store (put_row s l row)" "db_view (put_row s l row) = db_view s"
    using wf_store_local_change [OF assms(1), of "put_row s l row"] keep none by simp_all
  show "l \<in> own \<Longrightarrow> frame own s (put_row s l row)"
    by (auto simp: frame_def)
qed


section \<open>Well-formed transactions under their own operations\<close>

lemma acc_okI:
  "accesses t ! i = Some a \<Longrightarrow> orig_row a = Some r \<Longrightarrow> acc_data a = Some l \<Longrightarrow>
   acc_type a = RD \<or> acc_type a = WR \<Longrightarrow> idx_row s pk = Some r \<Longrightarrow> record_pos t pk = Some i \<Longrightarrow>
   local_row s l k v \<Longrightarrow> l \<notin> idx_rows s \<Longrightarrow> acc_ok s t i"
  unfolding acc_ok_def by blast

lemma wf_txnI:
  assumes "length (accesses t) = MAX_ROW_PER_TXN" "row_cnt t \<le> MAX_ROW_PER_TXN"
    and "\<And>i. i < row_cnt t \<Longrightarrow> acc_ok s t i"
    and "\<And>pk i. record_pos t pk = Some i \<Longrightarrow> i < row_cnt t \<and>
      (\<exists>a r. accesses t ! i = Some a \<and> orig_row a = Some r \<and> idx_row s pk = Some r)"
    and "\<And>i j a b. i < row_cnt t \<Longrightarrow> j < row_cnt t \<Longrightarrow> accesses t ! i = Some a \<Longrightarrow>
      accesses t ! j = Some b \<Longrightarrow> acc_data a = acc_data b \<Longrightarrow> i = j"
    and "start_ts t < timestamp s"
  shows "wf_txn s t"
  unfolding wf_txn_def using assms by blast

text \<open>Only the used part of the access array, the positions and the start time matter.\<close>

lemma wf_txn_cong:
  assumes "wf_txn s t" and "length (accesses t') = length (accesses t)"
    and "\<And>i. i < row_cnt t \<Longrightarrow> accesses t' ! i = accesses t ! i"
    and "row_cnt t' = row_cnt t" "record_pos t' = record_pos t" "start_ts t' = start_ts t"
  shows "wf_txn s t'" and "acc_view s t' = acc_view s t" and "owned t' = owned t"
proof -
  have ok: "acc_ok s t' i = acc_ok s t i" if "i < row_cnt t" for i
    using that assms by (simp add: acc_ok_def)
  have pos: "i < row_cnt t" if "record_pos t pk = Some i" for pk i
    using assms(1) that by (auto simp: wf_txn_def)
  show "wf_txn s t'"
    using assms ok pos unfolding wf_txn_def by simp
  show "acc_view s t' = acc_view s t"
  proof
    fix pk
    show "acc_view s t' pk = acc_view s t pk"
      using pos [of pk] assms by (cases "record_pos t pk") (simp_all add: acc_view_def)
  qed
  show "owned t' = owned t"
    using assms by (auto simp: owned_def)
qed

text \<open>A new access with a new local copy.\<close>

lemma wf_txn_push:
  assumes ws: "wf_store s" and wt: "wf_txn s t" and idx: "idx_row s pk = Some r"
    and new: "record_pos t pk = None" and room: "row_cnt t < MAX_ROW_PER_TXN"
    and loc: "local_row (add_row s lrow) (next_row s) k v"
    and a: "orig_row a = Some r" "acc_data a = Some (next_row s)" "acc_type a = RD \<or> acc_type a = WR"
    and t': "accesses t' = (accesses t)[row_cnt t := Some a]" "row_cnt t' = Suc (row_cnt t)"
      "record_pos t' = (record_pos t)(pk \<mapsto> row_cnt t)" "start_ts t' = start_ts t"
  shows "wf_txn (add_row s lrow) t'"
    and "acc_view (add_row s lrow) t' = (acc_view s t)(pk \<mapsto> \<lparr>aw = (acc_type a = WR), ak = k, av = v\<rparr>)"
    and "owned t' = insert (next_row s) (owned t)"
proof -
  let ?s' = "add_row s lrow" and ?n = "row_cnt t"
  have len: "?n < length (accesses t)" "length (accesses t) = MAX_ROW_PER_TXN"
    using wt room by (simp_all add: wf_txn_def)
  have acc: "accesses t' ! i = (if i = ?n then Some a else accesses t ! i)" if "i \<le> ?n" for i
    using that len by (simp add: t'(1) nth_list_update)
  have nidx: "next_row s \<notin> idx_rows s" using add_row_ok(4) [OF ws] .
  have below: "l < next_row s" if "local_row s l k v" for l k v
    using local_row_below [OF ws that] .
  have keep: "local_row ?s' l k v = local_row s l k v" if "l < next_row s" for l k v
    using that by (simp add: local_row_def)
  have old: "acc_ok ?s' t' i \<and> acc_data (the (accesses t ! i)) \<noteq> Some (next_row s)" if "i < ?n" for i
    using wt that
  proof (rule wf_txn_access)
    fix b r l pk' k v
    assume b: "accesses t ! i = Some b" "orig_row b = Some r" "acc_data b = Some l"
      "acc_type b = RD \<or> acc_type b = WR" "idx_row s pk' = Some r" "record_pos t pk' = Some i"
      "local_row s l k v" "l \<notin> idx_rows s"
    then show ?thesis
      using new below [OF b(7)] keep that acc [of i] unfolding acc_ok_def
      by (auto simp: t'(3)) (metis option.distinct(1))+
  qed
  have last: "acc_ok ?s' t' ?n"
    unfolding acc_ok_def using acc [of ?n] a idx loc nidx by (auto simp: t'(3))
  have uniq: "i = j" if "i < Suc ?n" "j < Suc ?n" "accesses t' ! i = Some x" "accesses t' ! j = Some y"
    "acc_data x = acc_data y" for i j x y
  proof (cases "i = ?n \<or> j = ?n")
    case True
    then show ?thesis
      using that acc [of i] acc [of j] a(2) old [of i] old [of j] by (auto split: if_splits)
  next
    case False
    then have "i < ?n" "j < ?n" using that by auto
    then show ?thesis
      using that acc [of i] acc [of j] wt unfolding wf_txn_def by (metis less_imp_le less_irrefl)
  qed
  have pos: "i < Suc ?n \<and> (\<exists>b q. accesses t' ! i = Some b \<and> orig_row b = Some q \<and> idx_row s pk' = Some q)"
    if "record_pos t' pk' = Some i" for pk' i
  proof (cases "pk' = pk")
    case True
    then show ?thesis using that acc [of ?n] a idx by (auto simp: t'(3))
  next
    case False
    then have "record_pos t pk' = Some i" using that by (simp add: t'(3))
    then show ?thesis using acc [of i] by (auto elim!: wf_txn_record [OF wt])
  qed
  have ok: "acc_ok ?s' t' i" if "i < Suc ?n" for i
    using that old last by (cases "i = ?n") auto
  show "wf_txn ?s' t'"
  proof (rule wf_txnI)
    show "start_ts t' < timestamp ?s'" using wt by (simp add: t' wf_txn_def)
    show "length (accesses t') = MAX_ROW_PER_TXN" using len by (simp add: t')
    show "row_cnt t' \<le> MAX_ROW_PER_TXN" using room by (simp add: t')
  qed (use ok pos uniq in \<open>auto simp: t'(2)\<close>)
  show "acc_view ?s' t' = (acc_view s t)(pk \<mapsto> \<lparr>aw = (acc_type a = WR), ak = k, av = v\<rparr>)"
  proof
    fix pk'
    show "acc_view ?s' t' pk' = ((acc_view s t)(pk \<mapsto> \<lparr>aw = (acc_type a = WR), ak = k, av = v\<rparr>)) pk'"
    proof (cases "pk' = pk")
      case True
      then show ?thesis using local_view_local [OF a(2) loc] acc [of ?n]
        by (simp add: acc_view_def t'(3))
    next
      case False
      show ?thesis
      proof (cases "record_pos t pk'")
        case None
        with False show ?thesis by (simp add: acc_view_def t'(3))
      next
        case (Some i)
        then obtain b l where b: "i < ?n" "accesses t ! i = Some b" "acc_data b = Some l" "l < next_row s"
          using below by (auto elim!: wf_txn_record [OF wt])
        then have "local_view ?s' b = local_view s b" by (intro local_view_cong) auto
        with False b Some acc [of i] show ?thesis by (simp add: acc_view_def t'(3))
      qed
    qed
  qed
  show "owned t' = insert (next_row s) (owned t)"
  proof -
    have "owned t' \<subseteq> insert (next_row s) (owned t)"
      using acc a(2) by (auto simp: owned_def t'(2) less_Suc_eq)
    moreover have "next_row s \<in> owned t'"
      using acc [of ?n] a(2) by (auto simp: owned_def t'(2))
    moreover have "owned t \<subseteq> owned t'"
      using acc by (auto simp: owned_def t'(2)) (metis less_SucI less_imp_le less_irrefl)
    ultimately show ?thesis by blast
  qed
qed

text \<open>A read access that becomes a write access.\<close>

lemma record_pos_inj:
  assumes "wf_store s" and "wf_txn s t" and "record_pos t pk = Some i" and "record_pos t pk' = Some i"
  shows "pk' = pk"
proof -
  obtain a r where "accesses t ! i = Some a" "orig_row a = Some r" "idx_row s pk = Some r"
    by (rule wf_txn_record [OF assms(2,3)])
  moreover obtain b q where "accesses t ! i = Some b" "orig_row b = Some q" "idx_row s pk' = Some q"
    by (rule wf_txn_record [OF assms(2,4)])
  ultimately show ?thesis using idx_row_inj [OF assms(1)] by simp
qed

lemma wf_txn_upgrade:
  assumes ws: "wf_store s" and wt: "wf_txn s t" and pos: "record_pos t pk = Some i" "accesses t ! i = Some a"
    and b: "orig_row b = orig_row a" "acc_data b = acc_data a" "acc_type b = WR"
    and t': "accesses t' = (accesses t)[i := Some b]" "row_cnt t' = row_cnt t"
      "record_pos t' = record_pos t" "start_ts t' = start_ts t"
  shows "wf_txn s t'"
    and "acc_view s t' = (acc_view s t)(pk \<mapsto> (the (acc_view s t pk))\<lparr>aw := True\<rparr>)"
    and "owned t' = owned t"
proof -
  have i: "i < row_cnt t" "i < length (accesses t)"
    using wt pos by (auto elim: wf_txn_record)
  have acc: "accesses t' ! j = (if j = i then Some b else accesses t ! j)" if "j < row_cnt t" for j
    using that i by (simp add: t'(1) nth_list_update)
  have ok: "acc_ok s t' j" if "j < row_cnt t" for j
    using wt that
  proof (rule wf_txn_access)
    fix x r l pk' k v
    assume x: "accesses t ! j = Some x" "orig_row x = Some r" "acc_data x = Some l"
      "acc_type x = RD \<or> acc_type x = WR" "idx_row s pk' = Some r" "record_pos t pk' = Some j"
      "local_row s l k v" "l \<notin> idx_rows s"
    then show ?thesis
      using acc [OF that] pos b t'(3)
      by (intro acc_okI [where a = "if j = i then b else x" and r = r and l = l and pk = pk'])
        (auto split: if_splits)
  qed
  have ex: "\<exists>x. accesses t' ! j = Some y \<longrightarrow> accesses t ! j = Some x \<and> acc_data x = acc_data y
      \<and> orig_row x = orig_row y" if "j < row_cnt t" for j y
    using acc [OF that] pos b by auto
  have uniq: "j = m" if "j < row_cnt t" "m < row_cnt t" "accesses t' ! j = Some x" "accesses t' ! m = Some y"
    "acc_data x = acc_data y" for j m x y
    using wt that ex [OF that(1), of x] ex [OF that(2), of y] unfolding wf_txn_def by metis
  have rec: "j < row_cnt t \<and> (\<exists>x r. accesses t' ! j = Some x \<and> orig_row x = Some r \<and> idx_row s pk' = Some r)"
    if "record_pos t pk' = Some j" for pk' j
    using wt that by (rule wf_txn_record) (use acc [of j] pos b in auto)
  show "wf_txn s t'"
    by (rule wf_txnI) (use wt ok uniq rec in \<open>auto simp: wf_txn_def t'\<close>)
  show "acc_view s t' = (acc_view s t)(pk \<mapsto> (the (acc_view s t pk))\<lparr>aw := True\<rparr>)"
  proof
    fix pk'
    show "acc_view s t' pk' = ((acc_view s t)(pk \<mapsto> (the (acc_view s t pk))\<lparr>aw := True\<rparr>)) pk'"
    proof (cases "record_pos t pk'")
      case None
      then show ?thesis using pos by (auto simp: acc_view_def t'(3))
    next
      case (Some j)
      show ?thesis
      proof (cases "pk' = pk")
        case True
        show ?thesis
          by (rule wf_txn_record [OF wt pos(1)])
            (use True acc [of i] pos b i t'(3) in \<open>auto simp: acc_view_def local_view_local\<close>)
      next
        case False
        have "j \<noteq> i" using record_pos_inj [OF ws wt pos(1)] False Some by blast
        then show ?thesis using False Some acc [of j] wt
          by (auto simp: acc_view_def t'(3) elim!: wf_txn_record)
      qed
    qed
  qed
  show "owned t' = owned t"
    using acc pos(2) b(2) i by (auto simp: owned_def t'(2) split: if_splits) (metis option.inject)+
qed


text \<open>New contents for a local copy the transaction owns.\<close>

lemma wf_txn_set_local:
  assumes ws: "wf_store s" and wt: "wf_txn s t" and pos: "record_pos t pk = Some i"
    and a: "accesses t ! i = Some a" "acc_data a = Some l"
    and loc: "local_row (put_row s l row) l k v"
  shows "wf_store (put_row s l row)" and "wf_txn (put_row s l row) t"
    and "db_view (put_row s l row) = db_view s" and "frame (owned t) s (put_row s l row)"
    and "acc_view (put_row s l row) t = (acc_view s t)(pk \<mapsto> \<lparr>aw = (acc_type a = WR), ak = k, av = v\<rparr>)"
proof -
  let ?s' = "put_row s l row"
  obtain a' k0 v0 where a': "i < row_cnt t" "accesses t ! i = Some a'"
    "acc_data a' = Some l \<Longrightarrow> l \<notin> idx_rows s \<and> local_row s l k0 v0"
    by (rule wf_txn_record [OF wt pos]) (use a in auto)
  then have i: "i < row_cnt t" "l \<notin> idx_rows s" "rows s l \<noteq> None"
    using a by (auto simp: local_row_def)
  then have "l \<in> owned t" using a by (auto simp: owned_def)
  then show "wf_store ?s'" "db_view ?s' = db_view s" "frame (owned t) s ?s'"
    using put_local_ok [OF ws i(3,2)] by auto
  have uniq: "j = i" if "j < row_cnt t" "accesses t ! j = Some b" "acc_data b = Some l" for j b
    using wt that i(1) a unfolding wf_txn_def by metis
  have ok: "acc_ok ?s' t j" if "j < row_cnt t" for j
    using wt that
  proof (rule wf_txn_access)
    fix x r m pk' k' v'
    assume x: "accesses t ! j = Some x" "orig_row x = Some r" "acc_data x = Some m"
      "acc_type x = RD \<or> acc_type x = WR" "idx_row s pk' = Some r" "record_pos t pk' = Some j"
      "local_row s m k' v'" "m \<notin> idx_rows s"
    show ?thesis
    proof (cases "m = l")
      case True
      then show ?thesis using x loc by (intro acc_okI [OF x(1,2,3,4) _ x(6)]) auto
    next
      case False
      then have "local_row ?s' m k' v'" using x(7) by (simp add: local_row_def)
      then show ?thesis using x by (intro acc_okI [OF x(1,2,3,4) _ x(6)]) auto
    qed
  qed
  show "wf_txn ?s' t"
    using wt ok unfolding wf_txn_def idx_row_cong store_cong by blast
  show "acc_view ?s' t = (acc_view s t)(pk \<mapsto> \<lparr>aw = (acc_type a = WR), ak = k, av = v\<rparr>)"
  proof
    fix pk'
    show "acc_view ?s' t pk' = ((acc_view s t)(pk \<mapsto> \<lparr>aw = (acc_type a = WR), ak = k, av = v\<rparr>)) pk'"
    proof (cases "pk' = pk")
      case True
      then show ?thesis using pos a local_view_local [OF a(2) loc] by (simp add: acc_view_def)
    next
      case False
      show ?thesis
      proof (cases "record_pos t pk'")
        case None
        with False show ?thesis by (simp add: acc_view_def)
      next
        case (Some j)
        then obtain b where b: "j < row_cnt t" "accesses t ! j = Some b" by (rule wf_txn_record [OF wt])
        have "acc_data b \<noteq> Some l"
          using uniq [OF b] record_pos_inj [OF ws wt pos] Some False by blast
        then have "local_view ?s' b = local_view s b" by (intro local_view_cong) auto
        with False Some b show ?thesis by (simp add: acc_view_def)
      qed
    qed
  qed
qed

section \<open>Effects\<close>

text \<open>
  What every operation of a transaction \<open>t\<close> guarantees: well-formed results, nothing of others
  touched, local copies taken from fresh memory only.
\<close>

definition effect :: "store \<Rightarrow> txn_man \<Rightarrow> store \<Rightarrow> txn_man \<Rightarrow> bool" where
  "effect s t s' t' \<longleftrightarrow> wf_store s' \<and> wf_txn s' t' \<and> frame (owned t) s s' \<and>
     owned t' \<subseteq> owned t \<union> {r. next_row s \<le> r} \<and> start_ts t' = start_ts t"

lemma effect_refl: "wf_store s \<Longrightarrow> wf_txn s t \<Longrightarrow> effect s t s t"
  by (simp add: effect_def)

lemma effect_trans:
  assumes "wf_store s" and "effect s t s' t'" and "effect s' t' s'' t''"
  shows "effect s t s'' t''"
proof -
  from assms(2) have e1: "frame (owned t) s s'" "owned t' \<subseteq> owned t \<union> {r. next_row s \<le> r}"
    by (simp_all add: effect_def)
  from assms(3) have e2: "frame (owned t') s' s''" "owned t'' \<subseteq> owned t' \<union> {r. next_row s' \<le> r}"
    by (simp_all add: effect_def)
  have "next_row s \<le> next_row s'" using e1(1) by (simp add: frame_def)
  then have "owned t'' \<subseteq> owned t \<union> {r. next_row s \<le> r}" using e1(2) e2(2) by force
  then show ?thesis
    using frame_trans [OF e1(1) e2(1) e1(2) assms(1)] assms(2,3) by (simp add: effect_def)
qed

text \<open>\<open>txn_man::get_row\<close> computes \<open>a_access\<close>.\<close>

definition access_result ::
    "store \<Rightarrow> txn_man \<Rightarrow> nat option \<Rightarrow> store \<Rightarrow> txn_man \<Rightarrow> u64 \<Rightarrow> bool \<Rightarrow> bool" where
  "access_result s t lo s' t' pk wr \<longleftrightarrow>
     (case a_access (db_view s) (acc_view s t) (start_ts t) pk wr of
        None \<Rightarrow> lo = None \<and> acc_view s' t' = acc_view s t
      | Some acc \<Rightarrow> acc_view s' t' = acc \<and>
          (\<exists>l i a. lo = Some l \<and> record_pos t' pk = Some i \<and> accesses t' ! i = Some a \<and>
             acc_data a = Some l))"

definition quiet :: "store \<Rightarrow> store \<Rightarrow> bool" where
  "quiet s s' \<longleftrightarrow> db_view s' = db_view s \<and> idx_row s' = idx_row s \<and> indexes s' = indexes s \<and>
     timestamp s' = timestamp s"

lemma txn_get_row_again:
  assumes ws: "wf_store s" and wt: "wf_txn s t" and idx: "idx_row s pk = Some r"
    and pos: "record_pos t pk = Some i" and type: "type = RD \<or> type = WR"
  shows "\<exists>lo t'. txn_get_row s t r type = Inr (lo, s, t') \<and> effect s t s t' \<and>
    insert_rows t' = insert_rows t \<and> access_result s t lo s t' pk (type = WR)"
proof -
  obtain a q l k v where a: "i < length (accesses t)" "accesses t ! i = Some a" "orig_row a = Some q"
    "acc_data a = Some l" "get_access t i = Inr a" "acc_type a = RD \<or> acc_type a = WR"
    "acc_view s t pk = Some \<lparr>aw = (acc_type a = WR), ak = k, av = v\<rparr>"
    by (rule wf_txn_record [OF wt pos])
  obtain row where row: "rows s r = Some row" "primary_key row = Some pk"
    using wf_storeD(2) [OF ws idx] by (auto simp: shared_row_def)
  show ?thesis
  proof (cases "acc_type a = RD \<and> type = WR")
    case True
    define t' where "t' = (set_access t i (a\<lparr>acc_type := WR\<rparr>))\<lparr>wr_cnt := wr_cnt t + 1\<rparr>"
    have get: "txn_get_row s t r type = Inr (Some l, s, t')"
      using row a pos True by (simp add: txn_get_row_def get_primary_key_def t'_def)
    have up: "wf_txn s t'" "acc_view s t' = (acc_view s t)(pk \<mapsto> (the (acc_view s t pk))\<lparr>aw := True\<rparr>)"
      "owned t' = owned t"
      using wf_txn_upgrade [OF ws wt pos a(2), of "a\<lparr>acc_type := WR\<rparr>" t']
      by (simp_all add: t'_def set_access_def)
    have "accesses t' ! i = Some (a\<lparr>acc_type := WR\<rparr>)" "record_pos t' = record_pos t"
      "start_ts t' = start_ts t" "insert_rows t' = insert_rows t"
      using a(1) by (simp_all add: t'_def set_access_def)
    then show ?thesis
      using get up a pos True ws
      by (auto simp: access_result_def a_access_def effect_def)
  next
    case False
    have get: "txn_get_row s t r type = Inr (Some l, s, t)"
      using row a pos False by (auto simp: txn_get_row_def get_primary_key_def)
    have "((acc_view s t)(pk \<mapsto> \<lparr>aw = (acc_type a = WR) \<or> type = WR, ak = k, av = v\<rparr>)) = acc_view s t"
      using a(6,7) type False by auto
    then show ?thesis
      using get a pos ws wt by (auto simp: access_result_def a_access_def effect_refl)
  qed
qed

lemma ensure_access_ok:
  assumes "length (accesses t) = MAX_ROW_PER_TXN" and "row_cnt t < MAX_ROW_PER_TXN"
  obtains t1 acc where "ensure_access t = Inr t1" "get_access t1 (row_cnt t) = Inr acc"
    "accesses t1 = (accesses t)[row_cnt t := Some acc]" "row_cnt t1 = row_cnt t"
    "record_pos t1 = record_pos t" "start_ts t1 = start_ts t" "insert_rows t1 = insert_rows t"
proof (cases "accesses t ! row_cnt t")
  case None
  then show ?thesis
    using that [of "(set_access t (row_cnt t) \<lparr>acc_type = RD, orig_row = None, acc_data = None\<rparr>)
        \<lparr>num_accesses_alloc := num_accesses_alloc t + 1\<rparr>"] assms
    by (simp add: ensure_access_def get_access_def set_access_def)
next
  case (Some a)
  then have "(accesses t)[row_cnt t := Some a] = accesses t"
    by (metis list_update_id)
  with Some show ?thesis
    using that [of t a] assms by (simp add: ensure_access_def get_access_def)
qed

text \<open>The first access to a row, computed: a row newer than the transaction, and one that is not.\<close>

lemma txn_get_row_newer:
  assumes ht: "has_table s" and below: "r < next_row s" and sh: "shared_row s r pk k v w"
    and len: "length (accesses t) = MAX_ROW_PER_TXN" and room: "row_cnt t < MAX_ROW_PER_TXN"
    and pos: "record_pos t pk = None" and newer: "start_ts t < w"
  obtains lrow t' b where "txn_get_row s t r type = Inr (None, add_row s lrow, t')"
    "accesses t' = (accesses t)[row_cnt t := Some b]" "row_cnt t' = row_cnt t"
    "record_pos t' = record_pos t" "start_ts t' = start_ts t" "insert_rows t' = insert_rows t"
proof -
  obtain row where row: "rows s r = Some row" "primary_key row = Some pk"
    using sh by (auto simp: shared_row_def)
  obtain t1 acc where t1: "ensure_access t = Inr t1" "get_access t1 (row_cnt t) = Inr acc"
    "accesses t1 = (accesses t)[row_cnt t := Some acc]" "row_cnt t1 = row_cnt t"
    "record_pos t1 = record_pos t" "start_ts t1 = start_ts t" "insert_rows t1 = insert_rows t"
    by (rule ensure_access_ok [OF len room])
  define t2 where "t2 = t1\<lparr>cur_row := Some (next_row s)\<rparr>"
  obtain p where get: "row_get_row s t1 r = Inr (Abort, next_row s, add_row s (fresh_row p 0), t2)"
    using row_get_row_ok [OF ht below sh, of t1] newer t1(6) by (auto simp: t2_def)
  have "txn_get_row s t r type = Inr (None, add_row s (fresh_row p 0),
      set_access t2 (row_cnt t) (acc\<lparr>acc_data := Some (next_row s)\<rparr>))"
    using row pos t1 get by (simp add: txn_get_row_def get_primary_key_def t2_def)
  then show ?thesis
    by (rule that) (simp_all add: set_access_def t2_def t1)
qed

lemma txn_get_row_copy:
  assumes ht: "has_table s" and below: "r < next_row s" and sh: "shared_row s r pk k v w"
    and len: "length (accesses t) = MAX_ROW_PER_TXN" and room: "row_cnt t < MAX_ROW_PER_TXN"
    and pos: "record_pos t pk = None" and old: "\<not> start_ts t < w"
  obtains lrow t' b where "txn_get_row s t r type = Inr (Some (next_row s), add_row s lrow, t')"
    "local_row (add_row s lrow) (next_row s) k v"
    "orig_row b = Some r" "acc_data b = Some (next_row s)" "acc_type b = type"
    "accesses t' = (accesses t)[row_cnt t := Some b]" "row_cnt t' = Suc (row_cnt t)"
    "record_pos t' = (record_pos t)(pk \<mapsto> row_cnt t)" "start_ts t' = start_ts t"
    "insert_rows t' = insert_rows t"
proof -
  obtain row where row: "rows s r = Some row" "primary_key row = Some pk"
    using sh by (auto simp: shared_row_def)
  obtain t1 acc where t1: "ensure_access t = Inr t1" "get_access t1 (row_cnt t) = Inr acc"
    "accesses t1 = (accesses t)[row_cnt t := Some acc]" "row_cnt t1 = row_cnt t"
    "record_pos t1 = record_pos t" "start_ts t1 = start_ts t" "insert_rows t1 = insert_rows t"
    by (rule ensure_access_ok [OF len room])
  define t2 where "t2 = t1\<lparr>cur_row := Some (next_row s)\<rparr>"
  obtain d p where d: "tuple_ok d k v" and get: "row_get_row s t1 r =
      Inr (RCOK, next_row s, add_row s ((fresh_row p 0)\<lparr>data := Some d\<rparr>), t2)"
    using row_get_row_ok [OF ht below sh, of t1] old t1(6) by (auto simp: t2_def)
  define b where "b = acc\<lparr>acc_data := Some (next_row s), acc_type := type, orig_row := Some r\<rparr>"
  define t' where "t' = (set_access t2 (row_cnt t) b)\<lparr>record_pos := (record_pos t)(pk \<mapsto> row_cnt t),
    row_cnt := Suc (row_cnt t), wr_cnt := (if type = WR then Suc (wr_cnt t2) else wr_cnt t2)\<rparr>"
  have "txn_get_row s t r type = Inr (Some (next_row s), add_row s ((fresh_row p 0)\<lparr>data := Some d\<rparr>), t')"
    using row pos t1 get
    by (simp add: txn_get_row_def get_primary_key_def t'_def t2_def b_def Let_def set_access_def)
  moreover have "local_row (add_row s ((fresh_row p 0)\<lparr>data := Some d\<rparr>)) (next_row s) k v"
    using d by (simp add: local_row_def fresh_row_def)
  ultimately show ?thesis
    by (rule that [where b = b]) (simp_all add: b_def t'_def t2_def set_access_def t1)
qed

lemma txn_get_row_first:
  assumes ws: "wf_store s" and wt: "wf_txn s t" and idx: "idx_row s pk = Some r"
    and pos: "record_pos t pk = None" and room: "row_cnt t < MAX_ROW_PER_TXN"
    and type: "type = RD \<or> type = WR"
  shows "\<exists>lo s' t'. txn_get_row s t r type = Inr (lo, s', t') \<and> effect s t s' t' \<and> quiet s s' \<and>
    insert_rows t' = insert_rows t \<and> access_result s t lo s' t' pk (type = WR)"
proof -
  obtain k v w where sh: "shared_row s r pk k v w"
    and db: "db_view s pk = Some \<lparr>a_key = k, a_val = v, a_wts = w\<rparr>"
    by (rule db_view_Some [OF ws idx])
  have ht: "has_table s" using ws by (rule wf_storeD)
  have below: "r < next_row s" using shared_row_below [OF ws sh] .
  have len: "length (accesses t) = MAX_ROW_PER_TXN" using wt by (simp add: wf_txn_def)
  have none: "acc_view s t pk = None" using pos by (simp add: acc_view_def)
  have quiet: "quiet s (add_row s row)" for row
    using add_row_ok [OF ws] by (simp add: quiet_def)
  show ?thesis
  proof (cases "start_ts t < w")
    case True
    obtain lrow t' b where get: "txn_get_row s t r type = Inr (None, add_row s lrow, t')"
      and t': "accesses t' = (accesses t)[row_cnt t := Some b]" "row_cnt t' = row_cnt t"
      "record_pos t' = record_pos t" "start_ts t' = start_ts t" "insert_rows t' = insert_rows t"
      by (rule txn_get_row_newer [OF ht below sh len room pos True])
    have cong: "wf_txn s t'" "acc_view s t' = acc_view s t" "owned t' = owned t"
      by (rule wf_txn_cong [OF wt]; simp add: t')+
    have fr: "frame {} s (add_row s lrow)" by (rule add_row_ok [OF ws])
    have wt': "wf_txn (add_row s lrow) t'" "acc_view (add_row s lrow) t' = acc_view s t"
      using frame_wf_txn [OF fr ws cong(1)] cong(2) by simp_all
    have "effect s t (add_row s lrow) t'"
      using add_row_ok [OF ws] wt' cong by (simp add: effect_def t')
    moreover have "access_result s t None (add_row s lrow) t' pk (type = WR)"
      using none db True wt' by (simp add: access_result_def a_access_def)
    ultimately show ?thesis using get quiet t'(5) by blast
  next
    case False
    obtain lrow t' b where get: "txn_get_row s t r type = Inr (Some (next_row s), add_row s lrow, t')"
      and loc: "local_row (add_row s lrow) (next_row s) k v"
      and b: "orig_row b = Some r" "acc_data b = Some (next_row s)" "acc_type b = type"
      and t': "accesses t' = (accesses t)[row_cnt t := Some b]" "row_cnt t' = Suc (row_cnt t)"
        "record_pos t' = (record_pos t)(pk \<mapsto> row_cnt t)" "start_ts t' = start_ts t"
        "insert_rows t' = insert_rows t"
      by (rule txn_get_row_copy [OF ht below sh len room pos False])
    note push = wf_txn_push [OF ws wt idx pos room loc b(1,2) type [folded b(3)] t'(1-4)]
    have "effect s t (add_row s lrow) t'"
      using add_row_ok [OF ws] push by (auto simp: effect_def t')
    moreover have "access_result s t (Some (next_row s)) (add_row s lrow) t' pk (type = WR)"
      using none db False push b len room by (auto simp: access_result_def a_access_def t')
    ultimately show ?thesis using get quiet t'(5) by blast
  qed
qed

lemma quiet_refl [simp]: "quiet s s"
  by (simp add: quiet_def)

lemma txn_get_row_spec:
  assumes ws: "wf_store s" and wt: "wf_txn s t" and idx: "idx_row s pk = Some r"
    and room: "acc_view s t pk = None \<Longrightarrow> row_cnt t < MAX_ROW_PER_TXN"
    and type: "type = RD \<or> type = WR"
  shows "\<exists>lo s' t'. txn_get_row s t r type = Inr (lo, s', t') \<and> effect s t s' t' \<and> quiet s s' \<and>
    insert_rows t' = insert_rows t \<and> access_result s t lo s' t' pk (type = WR)"
proof (cases "record_pos t pk")
  case None
  then show ?thesis
    using txn_get_row_first [OF ws wt idx None _ type] room by (simp add: acc_view_def)
next
  case (Some i)
  then show ?thesis
    using txn_get_row_again [OF ws wt idx Some type] quiet_refl by blast
qed


section \<open>Read and update\<close>

lemma get_value_local:
  assumes "has_table s" and "local_row s l k v"
  obtains d where "get_value s l 0 = Inr d" "get_value s l 1 = Inr (drop 128 d)" "tuple_ok d k v"
proof -
  from assms(2) obtain row d where "rows s l = Some row" "row_table row = ''Data_TABLE''"
    "data row = Some d" "tuple_ok d k v"
    by (auto simp: local_row_def)
  then show ?thesis
    using that [of d] assms(1) by (simp add: get_value_def get_schema_ok get_data_def)
qed

lemma compare_key_local:
  assumes "has_table s" and "local_row s l k v"
  shows "R_bind (get_value s l 0) (\<lambda>rk. R_bind (strcmp_eq rk (c_str key)) f) = f (k = c_str key)"
  using assms
proof (rule get_value_local)
  fix d assume "get_value s l 0 = Inr d" "tuple_ok d k v"
  then show ?thesis using strcmp_eq_read_cstr [OF tuple_ok_key, of d k v "c_str key"] by simp
qed

lemma read_value_local:
  assumes "has_table s" and "local_row s l k v"
  shows "R_bind (get_value s l 1) (\<lambda>rv. R_bind (read_cstr rv) f) = f v"
  using assms by (rule get_value_local) (simp add: tuple_ok_def)

lemma set_val_local:
  assumes "has_table s" and "local_row s l k v"
  obtains row where "set_value s l 1 (strncpy_buf 1024 val) = Inr (put_row s l row)"
    "local_row (put_row s l row) l k (trunc_val val)"
proof -
  from assms(2) obtain row d where row: "rows s l = Some row" "row_table row = ''Data_TABLE''"
    "data row = Some d" "tuple_ok d k v"
    by (auto simp: local_row_def)
  then have len: "length d = 1152" by (simp add: tuple_ok_def)
  let ?row' = "row\<lparr>data := Some (take 128 d @ strncpy_buf 1024 val)\<rparr>"
  have "set_value s l 1 (strncpy_buf 1024 val) = Inr (put_row s l ?row')"
    using assms(1) row len by (simp add: set_value_def get_schema_ok get_data_def mem_copy_full)
  moreover have "local_row (put_row s l ?row') l k (trunc_val val)"
    using row tuple_ok_set_val [OF row(4)] by (simp add: local_row_def)
  ultimately show ?thesis by (rule that)
qed

lemma access_result_None:
  "access_result s t None s' t' pk wr \<Longrightarrow>
   a_access (db_view s) (acc_view s t) (start_ts t) pk wr = None \<and> acc_view s' t' = acc_view s t"
  by (auto simp: access_result_def split: option.splits)

lemma access_result_Some:
  assumes "access_result s t (Some l) s' t' pk wr" and "wf_store s'" and "wf_txn s' t'"
  obtains i a k v where "a_access (db_view s) (acc_view s t) (start_ts t) pk wr = Some (acc_view s' t')"
    "acc_view s' t' pk = Some \<lparr>aw = (acc_type a = WR), ak = k, av = v\<rparr>" "local_row s' l k v"
    "record_pos t' pk = Some i" "accesses t' ! i = Some a" "acc_data a = Some l"
proof -
  from assms(1) obtain i a where ia: "record_pos t' pk = Some i" "accesses t' ! i = Some a"
    "acc_data a = Some l"
    and "a_access (db_view s) (acc_view s t) (start_ts t) pk wr = Some (acc_view s' t')"
    by (auto simp: access_result_def split: option.splits)
  moreover obtain a' l' k v where "accesses t' ! i = Some a'" "acc_data a' = Some l'" "local_row s' l' k v"
    "acc_view s' t' pk = Some \<lparr>aw = (acc_type a' = WR), ak = k, av = v\<rparr>"
    by (rule wf_txn_record [OF assms(3) ia(1)])
  ultimately show ?thesis using that by simp
qed

lemma txn_Read_spec:
  assumes ws: "wf_store s" and wt: "wf_txn s t"
    and room: "acc_view s t (h key) = None \<Longrightarrow> db_view s (h key) \<noteq> None \<Longrightarrow> row_cnt t < MAX_ROW_PER_TXN"
  shows "\<exists>rc v s' t'. txn_Read h s t key vo = Inr (rc, v, s', t') \<and> effect s t s' t' \<and> quiet s s' \<and>
    insert_rows t' = insert_rows t \<and>
    a_read (db_view s) (acc_view s t) (start_ts t) (h key) key vo = (rc, v, acc_view s' t')"
proof -
  let ?pk = "h key"
  obtain ix where ix: "deref_index s ''Data_INDEX'' = Inr ix"
    "\<forall>pk. \<exists>it. index_read ix pk 0 = Inr it \<and> idx_row s pk = Option.bind it location \<and>
       (it = None \<longleftrightarrow> idx_row s pk = None)"
    by (rule wf_store_index [OF ws])
  obtain it where it: "index_read ix ?pk 0 = Inr it" "idx_row s ?pk = Option.bind it location"
    "it = None \<longleftrightarrow> idx_row s ?pk = None"
    using ix(2) by blast
  show ?thesis
  proof (cases it)
    case None
    then have "db_view s ?pk = None" using it db_view_None_iff [OF ws] by simp
    with None show ?thesis
      using ix it ws wt by (auto simp: txn_Read_def hash_key_def txn_index_read_def a_read_def effect_refl)
  next
    case (Some m)
    then obtain r where r: "location m = Some r" "idx_row s ?pk = Some r"
      using it by (cases "location m") auto
    then have db: "db_view s ?pk \<noteq> None" using db_view_None_iff [OF ws] by simp
    then obtain lo s1 t1 where g: "txn_get_row s t r RD = Inr (lo, s1, t1)" "effect s t s1 t1" "quiet s s1"
      "insert_rows t1 = insert_rows t" "access_result s t lo s1 t1 ?pk False"
      using txn_get_row_spec [OF ws wt r(2), of RD] room by auto
    have wf1: "wf_store s1" "wf_txn s1 t1" "has_table s1"
      using g(2) wf_storeD(1) by (simp_all add: effect_def)
    show ?thesis
    proof (cases lo)
      case None
      then have "txn_Read h s t key vo = Inr (Abort, vo, s1, t1)"
        using ix it Some r g by (simp add: txn_Read_def hash_key_def txn_index_read_def)
      moreover have "a_read (db_view s) (acc_view s t) (start_ts t) ?pk key vo = (Abort, vo, acc_view s1 t1)"
        using access_result_None g(5) None db by (auto simp: a_read_def)
      ultimately show ?thesis using g by blast
    next
      case l: (Some l)
      obtain a :: Access and k v where
        a: "a_access (db_view s) (acc_view s t) (start_ts t) ?pk False = Some (acc_view s1 t1)"
        "acc_view s1 t1 ?pk = Some \<lparr>aw = (acc_type a = WR), ak = k, av = v\<rparr>" "local_row s1 l k v"
        by (rule access_result_Some [OF g(5) [unfolded l] wf1(1,2)])
      have "txn_Read h s t key vo =
          Inr (if k = c_str key then (RCOK, v, s1, t1) else (Abort, vo, s1, t1))"
        using ix it Some r g(1) l
        by (simp add: txn_Read_def hash_key_def txn_index_read_def compare_key_local [OF wf1(3) a(3)]
            read_value_local [OF wf1(3) a(3), unfolded One_nat_def])
      moreover have "a_read (db_view s) (acc_view s t) (start_ts t) ?pk key vo =
          (if k = c_str key then (RCOK, v, acc_view s1 t1) else (Abort, vo, acc_view s1 t1))"
        using a db by (auto simp: a_read_def)
      ultimately show ?thesis using g by (auto split: if_splits)
    qed
  qed
qed

lemma txn_update_spec:
  assumes ws: "wf_store s" and wt: "wf_txn s t" and it: "location it = Some r" "idx_row s pk = Some r"
    and room: "acc_view s t pk = None \<Longrightarrow> row_cnt t < MAX_ROW_PER_TXN"
  shows "\<exists>rc s' t'. txn_update s t it key val = Inr (rc, s', t') \<and> effect s t s' t' \<and> quiet s s' \<and>
    insert_rows t' = insert_rows t \<and>
    a_update (db_view s) (acc_view s t) (start_ts t) pk key val = (rc, acc_view s' t')"
proof -
  obtain lo s1 t1 where g: "txn_get_row s t r WR = Inr (lo, s1, t1)" "effect s t s1 t1" "quiet s s1"
    "insert_rows t1 = insert_rows t" "access_result s t lo s1 t1 pk True"
    using txn_get_row_spec [OF ws wt it(2) room, of WR] by auto
  have wf1: "wf_store s1" "wf_txn s1 t1" "has_table s1"
    using g(2) wf_storeD(1) by (simp_all add: effect_def)
  show ?thesis
  proof (cases lo)
    case None
    then have "txn_update s t it key val = Inr (Abort, s1, t1)"
      using it g by (simp add: txn_update_def)
    moreover have "a_update (db_view s) (acc_view s t) (start_ts t) pk key val = (Abort, acc_view s1 t1)"
      using access_result_None g(5) None by (auto simp: a_update_def)
    ultimately show ?thesis using g by blast
  next
    case l: (Some l)
    obtain i a k v where a: "a_access (db_view s) (acc_view s t) (start_ts t) pk True = Some (acc_view s1 t1)"
      "acc_view s1 t1 pk = Some \<lparr>aw = (acc_type a = WR), ak = k, av = v\<rparr>" "local_row s1 l k v"
      "record_pos t1 pk = Some i" "accesses t1 ! i = Some a" "acc_data a = Some l"
      by (rule access_result_Some [OF g(5) [unfolded l] wf1(1,2)])
    show ?thesis
    proof (cases "k = c_str key")
      case False
      then have "txn_update s t it key val = Inr (Abort, s1, t1)"
        using it g(1) l by (simp add: txn_update_def compare_key_local [OF wf1(3) a(3)])
      moreover have "a_update (db_view s) (acc_view s t) (start_ts t) pk key val = (Abort, acc_view s1 t1)"
        using a False by (simp add: a_update_def)
      ultimately show ?thesis using g by blast
    next
      case True
      obtain row where row: "set_value s1 l 1 (strncpy_buf 1024 val) = Inr (put_row s1 l row)"
        "local_row (put_row s1 l row) l k (trunc_val val)"
        by (rule set_val_local [OF wf1(3) a(3)])
      have eq: "txn_update s t it key val = Inr (RCOK, put_row s1 l row, t1)"
        using it g(1) l True row by (simp add: txn_update_def compare_key_local [OF wf1(3) a(3)])
      note sl = wf_txn_set_local [OF wf1(1,2) a(4,5,6) row(2)]
      have "effect s1 t1 (put_row s1 l row) t1"
        using sl by (simp add: effect_def)
      with g(2) have "effect s t (put_row s1 l row) t1" by (rule effect_trans [OF ws])
      moreover have "quiet s (put_row s1 l row)" using g(3) sl(3) by (simp add: quiet_def)
      moreover have "a_update (db_view s) (acc_view s t) (start_ts t) pk key val =
          (RCOK, acc_view (put_row s1 l row) t1)"
        using a True sl(5) by (simp add: a_update_def)
      ultimately show ?thesis using eq g(4) by blast
    qed
  qed
qed


section \<open>Insert\<close>

definition new_row :: "u64 \<Rightarrow> u64 \<Rightarrow> string \<Rightarrow> string \<Rightarrow> row_t" where
  "new_row pk rid key val =
     \<lparr>row_table = ''Data_TABLE'', data = Some (strncpy_buf 128 key @ strncpy_buf 1024 val),
      primary_key = Some pk, part_id = 0, row_id = rid, manager = Some \<lparr>wts = 0, latched = False\<rparr>\<rparr>"

lemma set_value_columns:
  assumes "has_table s" and "rows s r = Some row" "row_table row = ''Data_TABLE''" "data row = Some d"
    "length d = 1152"
  shows "set_value s r 0 (strncpy_buf 128 key) =
      Inr (put_row s r (row\<lparr>data := Some (strncpy_buf 128 key @ drop 128 d)\<rparr>))"
    and "set_value s r 1 (strncpy_buf 1024 val) =
      Inr (put_row s r (row\<lparr>data := Some (take 128 d @ strncpy_buf 1024 val)\<rparr>))"
  using assms by (simp_all add: set_value_def get_schema_ok get_data_def mem_copy_full)

lemma set_both_columns:
  assumes "has_table s" and "rows s r = Some row" "row_table row = ''Data_TABLE''" "data row = Some d"
    "length d = 1152"
  obtains s1 where "set_value s r 0 (strncpy_buf 128 key) = Inr s1"
    "set_value s1 r 1 (strncpy_buf 1024 val) =
       Inr (put_row s r (row\<lparr>data := Some (strncpy_buf 128 key @ strncpy_buf 1024 val)\<rparr>))"
proof -
  let ?row1 = "row\<lparr>data := Some (strncpy_buf 128 key @ drop 128 d)\<rparr>"
  have "set_value (put_row s r ?row1) r 1 (strncpy_buf 1024 val) =
      Inr (put_row (put_row s r ?row1) r
        (?row1\<lparr>data := Some (take 128 (strncpy_buf 128 key @ drop 128 d) @ strncpy_buf 1024 val)\<rparr>))"
    using assms by (intro set_value_columns(2)) simp_all
  then show ?thesis
    using that set_value_columns(1) [OF assms] by simp
qed

lemma get_new_row_ok:
  assumes "has_table s"
  obtains s1 rid row where "get_new_row s ''Data_TABLE'' 0 = Inr (add_row s1 row, next_row s, rid)"
    "has_table s1" "rows s1 = rows s" "indexes s1 = indexes s" "next_row s1 = next_row s"
    "timestamp s1 = timestamp s" "row_table row = ''Data_TABLE''"
    "data row = Some (replicate 1152 Uninit)" "part_id row = 0" "row_id row = rid"
    "manager row = Some \<lparr>wts = 0, latched = False\<rparr>"
proof -
  obtain tb where tb: "tables s ''Data_TABLE'' = Some tb" "schema tb = data_catalog"
    using assms by (auto simp: has_table_def)
  define s1 where "s1 = s\<lparr>tables := (tables s)(''Data_TABLE'' \<mapsto> tb\<lparr>cur_tab_size := cur_tab_size tb + 1\<rparr>)\<rparr>"
  define row where "row = (fresh_row 0 (cur_tab_size tb))\<lparr>manager := Some \<lparr>wts = 0, latched = False\<rparr>\<rparr>"
  have ht: "has_table s1" using tb by (simp add: has_table_def s1_def)
  have n: "next_row s1 = next_row s" by (simp add: s1_def)
  have "init_manager (add_row s1 (fresh_row 0 (cur_tab_size tb))) (next_row s) = Inr (add_row s1 row)"
    using put_row_add_row [of s1 _ row] n by (simp add: init_manager_def row_def)
  then have "get_new_row s ''Data_TABLE'' 0 = Inr (add_row s1 row, next_row s, cur_tab_size tb)"
    using tb row_alloc_ok [OF ht, of 0 "cur_tab_size tb"] n
    by (simp add: get_new_row_def deref_table_def Let_def s1_def [symmetric])
  then show ?thesis
    by (rule that) (simp_all add: ht n row_def fresh_row_def, simp_all add: s1_def)
qed

lemma make_row_ok:
  assumes "has_table s"
  obtains s1 sa sb sc rid where "get_new_row s ''Data_TABLE'' 0 = Inr (sa, next_row s, rid)"
    "set_primary_key sa (next_row s) pk = Inr sb"
    "set_value sb (next_row s) 0 (strncpy_buf 128 key) = Inr sc"
    "set_value sc (next_row s) 1 (strncpy_buf 1024 val) = Inr (add_row s1 (new_row pk rid key val))"
    "has_table s1" "rows s1 = rows s" "indexes s1 = indexes s" "next_row s1 = next_row s"
    "timestamp s1 = timestamp s"
proof -
  obtain s1 rid row where a: "get_new_row s ''Data_TABLE'' 0 = Inr (add_row s1 row, next_row s, rid)"
    "has_table s1" "rows s1 = rows s" "indexes s1 = indexes s" "next_row s1 = next_row s"
    "timestamp s1 = timestamp s" "row_table row = ''Data_TABLE''"
    "data row = Some (replicate 1152 Uninit)" "part_id row = 0" "row_id row = rid"
    "manager row = Some \<lparr>wts = 0, latched = False\<rparr>"
    by (rule get_new_row_ok [OF assms])
  let ?r = "next_row s" and ?row = "row\<lparr>primary_key := Some pk\<rparr>"
  have pk: "set_primary_key (add_row s1 row) ?r pk = Inr (add_row s1 ?row)"
    using a(5) put_row_add_row [of s1 row ?row] by (simp add: set_primary_key_def)
  obtain sc where sc: "set_value (add_row s1 ?row) ?r 0 (strncpy_buf 128 key) = Inr sc"
    "set_value sc ?r 1 (strncpy_buf 1024 val) = Inr (put_row (add_row s1 ?row) ?r
       (?row\<lparr>data := Some (strncpy_buf 128 key @ strncpy_buf 1024 val)\<rparr>))"
    by (rule set_both_columns [of "add_row s1 ?row" ?r ?row "replicate 1152 Uninit"])
      (simp_all add: a)
  have "?row\<lparr>data := Some (strncpy_buf 128 key @ strncpy_buf 1024 val)\<rparr> = new_row pk rid key val"
    using a(7-11) by (cases row) (simp add: new_row_def)
  then have "set_value sc ?r 1 (strncpy_buf 1024 val) = Inr (add_row s1 (new_row pk rid key val))"
    using sc(2) put_row_add_row [of s1 ?row "new_row pk rid key val"] a(5) by simp
  then show ?thesis using that a pk sc(1) by blast
qed

text \<open>The store with the new row in the index.\<close>

lemma wf_store_index_insert:
  assumes ws: "wf_store s"
    and ix: "indexes s ''Data_INDEX'' = Some ix"
      "index_insert ix pk \<lparr>item_type = DT_row, location = Some (next_row s), valid = True\<rparr> 0 = Inr ix'"
    and s1: "has_table s1" "rows s1 = rows s" "indexes s1 = indexes s" "next_row s1 = next_row s"
      "timestamp s1 = timestamp s"
    and s': "s' = (add_row s1 (new_row pk rid key val))\<lparr>indexes := (indexes s)(''Data_INDEX'' \<mapsto> ix')\<rparr>"
  shows "wf_store s'" and "idx_row s' = (idx_row s)(pk \<mapsto> next_row s)" and "idx_row s pk = None \<Longrightarrow> frame {} s s'"
    and "db_view s' = (db_view s)(pk \<mapsto> \<lparr>a_key = trunc_key key, a_val = trunc_val val, a_wts = 0\<rparr>)"
    and "timestamp s' = timestamp s" and "next_row s' = Suc (next_row s)"
proof -
  have wix: "wf_index ix" using ws ix(1) by (simp add: wf_store_def)
  have read: "index_read ix' k 0 = (if k = pk
      then Inr (Some \<lparr>item_type = DT_row, location = Some (next_row s), valid = True\<rparr>)
      else index_read ix k 0)" for k
    by (rule hash_ix.read_insert [OF wix ix(2)])
  show idx: "idx_row s' = (idx_row s)(pk \<mapsto> next_row s)"
    by (rule ext) (simp add: idx_row_def s' ix(1) read)
  have notin: "next_row s \<notin> idx_rows s" by (rule add_row_ok(4) [OF ws])
  have rows: "rows s' q = (if q = next_row s then Some (new_row pk rid key val) else rows s q)" for q
    by (simp add: s' s1)
  have new: "shared_row s' (next_row s) pk (trunc_key key) (trunc_val val) 0"
    using tuple_ok_buffers by (simp add: shared_row_def rows new_row_def)
  have old: "shared_row s' r pk' k v w = shared_row s r pk' k v w" if "idx_row s q = Some r" for r q pk' k v w
    using that notin by (intro shared_row_cong) (auto simp: rows idx_rows_def)
  show ts: "timestamp s' = timestamp s" and nx: "next_row s' = Suc (next_row s)"
    by (simp_all add: s' s1)
  have "\<exists>k v w. shared_row s' r q k v w \<and> w < timestamp s'" if "idx_row s' q = Some r" for q r
  proof (cases "q = pk")
    case True
    then show ?thesis using that new wf_storeD(4) [OF ws] by (auto simp: idx ts)
  next
    case False
    then have "idx_row s q = Some r" using that by (simp add: idx)
    then show ?thesis using wf_storeD(2) [OF ws] old ts by simp
  qed
  moreover have "has_table s'" using s1(1) by (simp add: s' has_table_def)
  moreover have "wf_index ix'" by (rule hash_ix.insert_inv [OF wix ix(2)])
  moreover have "location it \<noteq> None" if "index_read ix' q 0 = Inr (Some it)" for q it
    using that ws ix(1) unfolding read wf_store_def by (auto split: if_splits)
  ultimately show "wf_store s'"
    using wf_storeD(3,4) [OF ws] ts nx by (simp add: wf_store_def rows) (simp add: s')
  show "frame {} s s'" if "idx_row s pk = None"
    using wf_storeD(3) [OF ws] that by (auto simp: frame_def rows idx ts nx)
  show "db_view s' = (db_view s)(pk \<mapsto> \<lparr>a_key = trunc_key key, a_val = trunc_val val, a_wts = 0\<rparr>)"
  proof
    fix q
    show "db_view s' q = ((db_view s)(pk \<mapsto> \<lparr>a_key = trunc_key key, a_val = trunc_val val, a_wts = 0\<rparr>)) q"
    proof (cases "q = pk")
      case True
      then show ?thesis using row_view_shared [OF new] by (simp add: db_view_def idx)
    next
      case False
      then show ?thesis
      proof (cases "idx_row s q")
        case (Some r)
        then have "r \<noteq> next_row s" using notin by (auto simp: idx_rows_def)
        then show ?thesis using False Some by (simp add: db_view_def idx row_view_def rows)
      qed (simp add: db_view_def idx)
    qed
  qed
qed

text \<open>
  The insert path as the code executes it, whether or not the key has come into the index since the
  transaction looked it up; the transaction must survive the new entry.
\<close>

lemma txn_insert_run:
  assumes ws: "wf_store s" and len: "length (accesses t) = MAX_ROW_PER_TXN" and pos: "record_pos t pk = None"
    and ix: "indexes s ''Data_INDEX'' = Some ix"
    and room: "row_cnt t < MAX_ROW_PER_TXN" "length (insert_rows t) < MAX_ROW_PER_TXN"
    and survive: "\<And>s4. idx_row s4 = (idx_row s)(pk \<mapsto> next_row s) \<Longrightarrow> timestamp s4 = timestamp s \<Longrightarrow>
      (idx_row s pk = None \<Longrightarrow> frame {} s s4) \<Longrightarrow> wf_txn s4 t \<and> acc_view s4 t = acc_view s t"
  shows "\<exists>s' t'. txn_insert s t ix pk key val = Inr (RCOK, s', t') \<and> wf_store s' \<and> wf_txn s' t' \<and>
    start_ts t' = start_ts t \<and> owned t' = insert (Suc (next_row s)) (owned t) \<and>
    (idx_row s pk = None \<longrightarrow> frame {} s s') \<and>
    timestamp s' = timestamp s \<and> idx_row s' = (idx_row s)(pk \<mapsto> next_row s) \<and>
    insert_rows t' = insert_rows t @ [next_row s] \<and>
    (db_view s', acc_view s' t') = a_insert (db_view s) (acc_view s t) pk key val"
proof -
  let ?r = "next_row s" and ?kb = "strncpy_buf 128 key" and ?vb = "strncpy_buf 1024 val"
  let ?item = "\<lparr>item_type = DT_row, location = Some ?r, valid = True\<rparr>"
  obtain s1 sa sb sc rid where mk: "get_new_row s ''Data_TABLE'' 0 = Inr (sa, ?r, rid)"
    "set_primary_key sa ?r pk = Inr sb" "set_value sb ?r 0 ?kb = Inr sc"
    "set_value sc ?r 1 ?vb = Inr (add_row s1 (new_row pk rid key val))"
    and s1: "has_table s1" "rows s1 = rows s" "indexes s1 = indexes s" "next_row s1 = next_row s"
    "timestamp s1 = timestamp s"
    by (rule make_row_ok [OF wf_storeD(1) [OF ws]])
  define s4 where "s4 = add_row s1 (new_row pk rid key val)"
  have "wf_index ix" using ws ix by (simp add: wf_store_def)
  then obtain ix' where ix': "index_insert ix pk ?item 0 = Inr ix'"
    using hash_ix.insert_ok [of ix pk ?item] by blast
  define s4' where "s4' = s4\<lparr>indexes := (indexes s)(''Data_INDEX'' \<mapsto> ix')\<rparr>"
  note w4 = wf_store_index_insert [OF ws ix ix' s1 s4'_def [unfolded s4_def]]
  have sh: "shared_row s4 ?r pk (trunc_key key) (trunc_val val) 0"
    using tuple_ok_buffers s1(4) by (simp add: s4_def shared_row_def new_row_def)
  have ht: "has_table s4" and below: "?r < next_row s4" using s1 by (simp_all add: s4_def)
  have old: "\<not> start_ts t < 0" by simp
  obtain lrow t' b where get: "txn_get_row s4 t ?r WR = Inr (Some (next_row s4), add_row s4 lrow, t')"
    and loc: "local_row (add_row s4 lrow) (next_row s4) (trunc_key key) (trunc_val val)"
    and b: "orig_row b = Some ?r" "acc_data b = Some (next_row s4)" "acc_type b = WR"
    and t': "accesses t' = (accesses t)[row_cnt t := Some b]" "row_cnt t' = Suc (row_cnt t)"
      "record_pos t' = (record_pos t)(pk \<mapsto> row_cnt t)" "start_ts t' = start_ts t"
      "insert_rows t' = insert_rows t"
    by (rule txn_get_row_copy [OF ht below sh len room(1) pos old])
  let ?n = "next_row s4"
  from loc obtain d where lrow: "row_table lrow = ''Data_TABLE''" "data lrow = Some d" "length d = 1152"
    by (auto simp: local_row_def tuple_ok_def)
  define lrow' where "lrow' = lrow\<lparr>data := Some (?kb @ ?vb)\<rparr>"
  obtain s6 where s6: "set_value (add_row s4 lrow) ?n 0 ?kb = Inr s6"
    "set_value s6 ?n 1 ?vb = Inr (put_row (add_row s4 lrow) ?n lrow')"
    unfolding lrow'_def
    by (rule set_both_columns [of "add_row s4 lrow" ?n lrow d key]) (use ht lrow in auto)
  have s6b: "set_value s6 ?n 1 ?vb = Inr (add_row s4 lrow')" using s6(2) by simp
  define t7 where "t7 = t'\<lparr>insert_rows := insert_rows t' @ [?r]\<rparr>"
  have ins: "insert_row t' ?r = Inr t7"
    using room(2) t'(5) by (simp add: insert_row_def t7_def)
  define s' where "s' = add_row s4' lrow'"
  have s'_eq: "(add_row s4 lrow')\<lparr>indexes := (indexes (add_row s4 lrow'))(''Data_INDEX'' \<mapsto> ix')\<rparr> = s'"
    using s1(3) by (simp add: s'_def s4'_def s4_def add_row_def)
  have eq: "txn_insert s t ix pk key val = Inr (RCOK, s', t7)"
    using mk get s6(1) s6b ins ix' s'_eq by (simp add: txn_insert_def Let_def s4_def [symmetric])
  have wt4: "wf_txn s4' t" "acc_view s4' t = acc_view s t"
    using survive [OF w4(2,5,3)] by simp_all
  have n4: "next_row s4' = ?n" by (simp add: s4'_def)
  have loc': "local_row s' (next_row s4') (trunc_key key) (trunc_val val)"
    using lrow tuple_ok_buffers by (simp add: s'_def local_row_def lrow'_def n4)
  note push = wf_txn_push [OF w4(1) wt4(1) _ pos room(1) loc' [unfolded s'_def], of ?r b t7,
      folded s'_def]
  have push': "wf_txn s' t7"
    "acc_view s' t7 = (acc_view s t)(pk \<mapsto> \<lparr>aw = True, ak = trunc_key key, av = trunc_val val\<rparr>)"
    "owned t7 = insert ?n (owned t)"
    using push w4(2) b t' n4 wt4(2) by (simp_all add: t7_def)
  have n: "?n = Suc ?r" using s1(4) by (simp add: s4_def)
  have add: "wf_store s'" "db_view s' = db_view s4'" "frame {} s4' s'"
    using add_row_ok [OF w4(1)] by (simp_all add: s'_def)
  have "frame {} s s'" if "idx_row s pk = None" by (rule frame_trans [OF w4(3) [OF that] add(3) _ ws]) simp
  then show ?thesis
    using eq push' add w4 t' n by (auto simp: a_insert_def t7_def s'_def)
qed

lemma txn_insert_spec:
  assumes ws: "wf_store s" and wt: "wf_txn s t" and no: "idx_row s pk = None"
    and ix: "indexes s ''Data_INDEX'' = Some ix"
    and room: "row_cnt t < MAX_ROW_PER_TXN" "length (insert_rows t) < MAX_ROW_PER_TXN"
  shows "\<exists>s' t'. txn_insert s t ix pk key val = Inr (RCOK, s', t') \<and> effect s t s' t' \<and>
    timestamp s' = timestamp s \<and> idx_row s' = (idx_row s)(pk \<mapsto> next_row s) \<and>
    insert_rows t' = insert_rows t @ [next_row s] \<and>
    (db_view s', acc_view s' t') = a_insert (db_view s) (acc_view s t) pk key val"
proof -
  have len: "length (accesses t) = MAX_ROW_PER_TXN" using wt by (simp add: wf_txn_def)
  have pos: "record_pos t pk = None"
    using wt no by (cases "record_pos t pk") (auto elim: wf_txn_record)
  have "wf_txn s4 t \<and> acc_view s4 t = acc_view s t" if "idx_row s pk = None \<Longrightarrow> frame {} s s4" for s4
    using frame_wf_txn [OF that [OF no] ws wt] by simp
  from txn_insert_run [OF ws len pos ix room this] obtain s' t'
    where r: "txn_insert s t ix pk key val = Inr (RCOK, s', t')" "wf_store s'" "wf_txn s' t'" "start_ts t' = start_ts t"
      "owned t' = insert (Suc (next_row s)) (owned t)" "frame {} s s'" "timestamp s' = timestamp s"
      "idx_row s' = (idx_row s)(pk \<mapsto> next_row s)" "insert_rows t' = insert_rows t @ [next_row s]"
      "(db_view s', acc_view s' t') = a_insert (db_view s) (acc_view s t) pk key val"
    using no by blast
  have "frame (owned t) s s'" using r(6) by (auto simp: frame_def)
  then have "effect s t s' t'" using r by (auto simp: effect_def)
  then show ?thesis using r by blast
qed

end
