(* ===== verification/Lock_Order.thy ===== *)
theory Lock_Order
  imports Occ "HOL-Library.Multiset"
begin

text \<open>
  The order in which validation takes the row latches. \<open>lock_key\<close> pairs a table name with a primary
  key and is ordered as the comparison of \<open>OptCC::validate\<close> orders rows; the bubble sort of that
  function sorts the accesses by it and keeps them a permutation of what they were.
\<close>

section \<open>The order of lock keys\<close>

lemma strcmp_refl [simp]: "strcmp a a = 0"
  by (induction a) auto

lemma strcmp_eq_0: "strcmp a b = 0 \<longleftrightarrow> a = b"
  by (induction a b rule: strcmp.induct) auto

lemma strcmp_swap: "strcmp b a = - strcmp a b"
proof (induction a b rule: strcmp.induct)
  case (4 x xs y ys)
  have "x = y" if "\<not> (of_char x :: nat) < of_char y" "\<not> (of_char y :: nat) < of_char x"
    using that by (metis linorder_less_linear of_char_eq_iff)
  with 4 show ?case by auto
qed auto

lemma strcmp_le_trans: "strcmp a b \<le> 0 \<Longrightarrow> strcmp b c \<le> 0 \<Longrightarrow> strcmp a c \<le> 0"
proof (induction a b arbitrary: c rule: strcmp.induct)
  case (2 y ys)
  then show ?case by (cases c) auto
next
  case (4 x xs y ys)
  then show ?case by (cases c) (auto split: if_splits)
qed auto

datatype lock_key = Lock_Key string u64

instantiation lock_key :: linorder
begin

fun less_eq_lock_key :: "lock_key \<Rightarrow> lock_key \<Rightarrow> bool" where
  "less_eq_lock_key (Lock_Key n k) (Lock_Key n' k') \<longleftrightarrow>
     strcmp n n' < 0 \<or> (strcmp n n' = 0 \<and> k \<le> k')"

definition less_lock_key :: "lock_key \<Rightarrow> lock_key \<Rightarrow> bool" where
  "less_lock_key a b \<longleftrightarrow> a \<le> b \<and> \<not> b \<le> (a :: lock_key)"

instance
proof
  fix a b c :: lock_key
  obtain n k where a: "a = Lock_Key n k" by (cases a)
  obtain m j where b: "b = Lock_Key m j" by (cases b)
  obtain p i where c: "c = Lock_Key p i" by (cases c)
  show "(a < b) = (a \<le> b \<and> \<not> b \<le> a)" by (rule less_lock_key_def)
  show "a \<le> a" by (simp add: a)
  show "a \<le> b \<or> b \<le> a"
    using strcmp_swap [of m n] by (auto simp: a b)
  show "a = b" if "a \<le> b" "b \<le> a"
    using that strcmp_swap [of m n] strcmp_eq_0 [of n m] by (auto simp: a b)
  show "a \<le> c" if "a \<le> b" "b \<le> c"
  proof -
    have le: "strcmp n m \<le> 0" "strcmp m p \<le> 0" using that by (auto simp: a b c)
    then have np: "strcmp n p \<le> 0" by (rule strcmp_le_trans)
    show ?thesis
    proof (cases "strcmp n p = 0")
      case True
      then have "p = n" by (simp add: strcmp_eq_0)
      with le strcmp_swap [of m n] have "strcmp n m = 0" by simp
      with that \<open>p = n\<close> show ?thesis by (auto simp: a b c strcmp_eq_0)
    next
      case False
      with np show ?thesis by (simp add: a c)
    qed
  qed
qed

end

lemma less_lock_key_iff:
  "Lock_Key n k < Lock_Key n' k' \<longleftrightarrow> strcmp n' n > 0 \<or> (strcmp n' n = 0 \<and> k < k')"
  using strcmp_swap [of n' n] by (auto simp: less_lock_key_def not_le)

section \<open>The bubble sort\<close>

text \<open>One pass of the inner loop: the largest of the first \<open>i + 1\<close> elements ends at position \<open>i\<close>.\<close>

definition cmp_ok :: "('a \<Rightarrow> 'a \<Rightarrow> bool res) \<Rightarrow> ('a \<Rightarrow> 'k::linorder) \<Rightarrow> 'a set \<Rightarrow> bool" where
  "cmp_ok gt key A \<longleftrightarrow> (\<forall>x \<in> A. \<forall>y \<in> A. gt x y = Inr (key y < key x))"

lemma mset_take_swap:
  assumes "Suc j < n" and "n \<le> length xs"
  shows "mset (take n (xs[j := xs ! Suc j, Suc j := xs ! j])) = mset (take n xs)"
proof -
  have "take n (xs[j := xs ! Suc j, Suc j := xs ! j])
      = (take n xs)[j := take n xs ! Suc j, Suc j := take n xs ! j]"
    using assms by (simp add: take_update_swap)
  also have "mset \<dots> = mset (take n xs)"
    using assms by (intro mset_swap) simp_all
  finally show ?thesis .
qed

lemma bubble_inner_ok:
  assumes "j \<le> i" and "i < length xs" and "cmp_ok gt key (set (take (Suc i) xs))"
    and "\<forall>m < j. key (xs ! m) \<le> key (xs ! j)"
  shows "\<exists>ys. bubble_inner gt i j xs = Inr ys \<and> length ys = length xs \<and>
    mset (take (Suc i) ys) = mset (take (Suc i) xs) \<and> drop (Suc i) ys = drop (Suc i) xs \<and>
    (\<forall>m < i. key (ys ! m) \<le> key (ys ! i))"
  using assms
proof (induction "i - j" arbitrary: j xs)
  case 0
  then have "j = i" by simp
  with "0.prems" show ?case by (auto simp: bubble_inner.simps)
next
  case (Suc d)
  then have ji: "j < i" by simp
  let ?a = "xs ! j" and ?b = "xs ! Suc j"
  have "?a \<in> set (take (Suc i) xs)" "?b \<in> set (take (Suc i) xs)"
    using ji Suc.prems(2) by (auto simp: in_set_conv_nth intro: exI [of _ j] exI [of _ "Suc j"])
  then have gt: "gt ?a ?b = Inr (key ?b < key ?a)"
    using Suc.prems(3) by (simp add: cmp_ok_def)
  define zs where "zs = (if key ?b < key ?a then xs[j := ?b, Suc j := ?a] else xs)"
  have step: "bubble_inner gt i j xs = bubble_inner gt i (Suc j) zs"
    using ji Suc.prems(2) gt by (simp add: bubble_inner.simps [of gt i j xs] zs_def)
  have len: "length zs = length xs" by (simp add: zs_def)
  have ms: "mset (take (Suc i) zs) = mset (take (Suc i) xs)"
    using mset_take_swap [of j "Suc i" xs] ji Suc.prems(2) by (simp add: zs_def)
  have dr: "drop (Suc i) zs = drop (Suc i) xs" using ji by (simp add: zs_def)
  have "set (take (Suc i) zs) = set (take (Suc i) xs)" using ms by (metis set_mset_mset)
  then have cmp: "cmp_ok gt key (set (take (Suc i) zs))" using Suc.prems(3) by simp
  have nth: "zs ! Suc j = (if key ?b < key ?a then ?a else ?b)"
    "zs ! j = (if key ?b < key ?a then ?b else ?a)" "\<And>m. m < j \<Longrightarrow> zs ! m = xs ! m"
    using ji Suc.prems(2) by (auto simp: zs_def)
  have max: "\<forall>m < Suc j. key (zs ! m) \<le> key (zs ! Suc j)"
    using Suc.prems(4) nth by (auto simp: less_Suc_eq)
  have "d = i - Suc j" "Suc j \<le> i" "i < length zs" using Suc len ji by auto
  from Suc.hyps(1) [OF this(1,2,3) cmp max] show ?case
    using step len ms dr by auto
qed

lemma bubble_outer_ok:
  assumes "n \<le> length xs" and "i < n" and "cmp_ok gt key (set (take n xs))"
    and "\<forall>b. i < b \<and> b < n \<longrightarrow> (\<forall>a < b. key (xs ! a) \<le> key (xs ! b))"
  shows "\<exists>ys. bubble_outer gt i xs = Inr ys \<and> length ys = length xs \<and>
    mset (take n ys) = mset (take n xs) \<and> drop n ys = drop n xs \<and>
    (\<forall>b. b < n \<longrightarrow> (\<forall>a < b. key (ys ! a) \<le> key (ys ! b)))"
  using assms
proof (induction i arbitrary: xs)
  case 0
  have "\<forall>b. b < n \<longrightarrow> (\<forall>a < b. key (xs ! a) \<le> key (xs ! b))"
    using "0.prems"(4) by (metis gr_zeroI not_less_zero)
  then show ?case by simp
next
  case (Suc i)
  have "set (take (Suc (Suc i)) xs) \<subseteq> set (take n xs)"
    using Suc.prems(2) by (intro set_take_subset_set_take) simp
  then have cmp: "cmp_ok gt key (set (take (Suc (Suc i)) xs))"
    using Suc.prems(3) by (auto simp: cmp_ok_def)
  have "Suc i < length xs" using Suc.prems by simp
  from bubble_inner_ok [OF _ this cmp, of 0] obtain zs where
    zs: "bubble_inner gt (Suc i) 0 xs = Inr zs" "length zs = length xs"
    "mset (take (Suc (Suc i)) zs) = mset (take (Suc (Suc i)) xs)"
    "drop (Suc (Suc i)) zs = drop (Suc (Suc i)) xs"
    "\<forall>m < Suc i. key (zs ! m) \<le> key (zs ! Suc i)"
    by auto
  have later: "zs ! b = xs ! b" if "Suc i < b" "b < n" for b
  proof -
    define e where "e = b - Suc (Suc i)"
    have e: "b = Suc (Suc i) + e" using that(1) by (simp add: e_def)
    have "drop (Suc (Suc i)) zs ! e = drop (Suc (Suc i)) xs ! e" by (simp only: zs(4))
    moreover have "Suc (Suc i) \<le> length zs" "Suc (Suc i) \<le> length xs"
      using that zs(2) Suc.prems(1) by linarith+
    ultimately show ?thesis by (simp add: e)
  qed
  have split_take: "take n ws = take (Suc (Suc i)) ws @ take (n - Suc (Suc i)) (drop (Suc (Suc i)) ws)" for ws :: "'a list"
    using Suc.prems(2) by (metis Suc_leI le_add_diff_inverse take_add)
  have ms: "mset (take n zs) = mset (take n xs)"
    unfolding split_take [of zs] split_take [of xs] using zs(3,4) by simp
  have dr: "drop n zs = drop n xs"
    using zs(4) Suc.prems(2) by (metis Suc_leI drop_drop le_add_diff_inverse2)
  have sets: "set (take n zs) = set (take n xs)" using ms by (metis set_mset_mset)
  have ord: "\<forall>b. i < b \<and> b < n \<longrightarrow> (\<forall>a < b. key (zs ! a) \<le> key (zs ! b))"
  proof (intro allI impI)
    fix b a assume b: "i < b \<and> b < n" and a: "a < b"
    show "key (zs ! a) \<le> key (zs ! b)"
    proof (cases "b = Suc i")
      case True
      then show ?thesis using zs(5) a by simp
    next
      case False
      then have sb: "Suc i < b" using b by simp
      show ?thesis
      proof (cases "Suc i < a")
        case True
        then show ?thesis using Suc.prems(4) later [of a] later [of b] a b sb by simp
      next
        case False
        then have "zs ! a \<in> set (take (Suc (Suc i)) zs)"
          using zs(2) Suc.prems(1,2) by (auto simp: in_set_conv_nth intro!: exI [of _ a])
        then have "zs ! a \<in> set (take (Suc (Suc i)) xs)" using zs(3) by (metis set_mset_mset)
        then obtain c where "c < Suc (Suc i)" "xs ! c = zs ! a"
          by (auto simp: in_set_conv_nth)
        then show ?thesis using Suc.prems(4) sb b later [of b] by (metis Suc_leI le_less_trans less_Suc_eq_le)
      qed
    qed
  qed
  from Suc.IH [of zs] obtain ys where "bubble_outer gt i zs = Inr ys" "length ys = length zs"
    "mset (take n ys) = mset (take n zs)" "drop n ys = drop n zs"
    "\<forall>b. b < n \<longrightarrow> (\<forall>a < b. key (ys ! a) \<le> key (ys ! b))"
    using Suc.prems zs(2) sets ord by (metis Suc_lessD)
  then show ?case using zs ms dr by auto
qed

lemma bubble_sort_ok:
  assumes "n \<le> length xs" and "cmp_ok gt key (set (take n xs))"
  obtains ys where "bubble_outer gt (n - 1) xs = Inr ys" "length ys = length xs"
    "mset (take n ys) = mset (take n xs)" "drop n ys = drop n xs" "sorted (map key (take n ys))"
proof (cases n)
  case 0
  then show ?thesis using that [of xs] by simp
next
  case (Suc m)
  then have m: "m < n" by simp
  have none: "\<forall>b. m < b \<and> b < n \<longrightarrow> (\<forall>a < b. key (xs ! a) \<le> key (xs ! b))"
    using Suc by (metis not_less_eq)
  from bubble_outer_ok [OF assms(1) m assms(2) none] obtain ys
    where ys: "bubble_outer gt m xs = Inr ys" "length ys = length xs"
    "mset (take n ys) = mset (take n xs)" "drop n ys = drop n xs"
    "\<forall>b. b < n \<longrightarrow> (\<forall>a < b. key (ys ! a) \<le> key (ys ! b))"
    by blast
  then have "sorted (map key (take n ys))"
    using assms(1) by (auto simp: sorted_iff_nth_mono_less)
  then show ?thesis using that [of ys] ys Suc by simp
qed

end
