(* ===== verification/Commit.thy ===== *)
theory Commit
  imports Txn_Refine Lock_Order
begin

text \<open>
  Validation, commit and rollback on well-formed states: the locking loop, the return of the local
  copies and the release of the latches, each as an equation on the rows it touches, and their
  composition: \<open>OptCC::validate\<close> commits exactly when \<open>a_valid\<close> holds of the views and then writes
  back \<open>a_write_back\<close>, and neither faults, nor blocks, nor leaves a latch behind.
\<close>

section \<open>The list of accesses\<close>

definition acc_list :: "txn_man \<Rightarrow> Access list" where
  "acc_list t = map the (take (row_cnt t) (accesses t))"

definition origs :: "Access list \<Rightarrow> nat set" where
  "origs as = {r. \<exists>a \<in> set as. orig_row a = Some r}"

definition locs :: "Access list \<Rightarrow> nat set" where
  "locs as = {l. \<exists>a \<in> set as. acc_data a = Some l}"

definition accs_ok :: "store \<Rightarrow> Access list \<Rightarrow> bool" where
  "accs_ok s as \<longleftrightarrow>
     (\<forall>a \<in> set as. \<exists>r l pk k v. orig_row a = Some r \<and> acc_data a = Some l \<and>
        (acc_type a = RD \<or> acc_type a = WR) \<and> idx_row s pk = Some r \<and>
        local_row s l k v \<and> l \<notin> idx_rows s) \<and>
     distinct (map orig_row as) \<and> distinct (map acc_data as)"

lemma length_acc_list: "wf_txn s t \<Longrightarrow> length (acc_list t) = row_cnt t"
  by (simp add: acc_list_def wf_txn_def)

lemma acc_list_nth:
  assumes "wf_txn s t" and "i < row_cnt t"
  shows "accesses t ! i = Some (acc_list t ! i)"
proof -
  obtain a where "accesses t ! i = Some a" by (rule wf_txn_access [OF assms])
  moreover have "row_cnt t \<le> length (accesses t)" using assms(1) by (simp add: wf_txn_def)
  ultimately show ?thesis using assms(2) by (simp add: acc_list_def)
qed

lemma acc_list_access:
  assumes wt: "wf_txn s t" and i: "i < row_cnt t"
  obtains r l pk k v where "accesses t ! i = Some (acc_list t ! i)" "get_access t i = Inr (acc_list t ! i)"
    "orig_row (acc_list t ! i) = Some r" "acc_data (acc_list t ! i) = Some l"
    "acc_type (acc_list t ! i) = RD \<or> acc_type (acc_list t ! i) = WR"
    "idx_row s pk = Some r" "record_pos t pk = Some i" "local_row s l k v" "l \<notin> idx_rows s"
proof -
  obtain a :: Access and r l pk k v where a: "accesses t ! i = Some a" "get_access t i = Inr a"
    "orig_row a = Some r" "acc_data a = Some l" "acc_type a = RD \<or> acc_type a = WR"
    "idx_row s pk = Some r" "record_pos t pk = Some i" "local_row s l k v" "l \<notin> idx_rows s"
    by (rule wf_txn_access [OF wt i])
  have "acc_list t ! i = a" using acc_list_nth [OF wt i] a(1) by simp
  then show ?thesis using that [of r l pk k v] a by simp
qed

lemma wf_txn_data_inj:
  assumes "wf_txn s t" and "i < row_cnt t" "j < row_cnt t"
    and "accesses t ! i = Some a" "accesses t ! j = Some b" "acc_data a = acc_data b"
  shows "i = j"
proof -
  have "\<forall>i j a b. i < row_cnt t \<longrightarrow> j < row_cnt t \<longrightarrow> accesses t ! i = Some a \<longrightarrow>
        accesses t ! j = Some b \<longrightarrow> acc_data a = acc_data b \<longrightarrow> i = j"
    using assms(1) unfolding wf_txn_def by (elim conjE)
  then show ?thesis using assms(2-) by metis
qed

lemma accs_ok_acc_list:
  assumes ws: "wf_store s" and wt: "wf_txn s t"
  shows "accs_ok s (acc_list t)"
proof -
  have len: "length (acc_list t) = row_cnt t" by (rule length_acc_list [OF wt])
  have each: "\<exists>r l pk k v. orig_row a = Some r \<and> acc_data a = Some l \<and>
      (acc_type a = RD \<or> acc_type a = WR) \<and> idx_row s pk = Some r \<and>
      local_row s l k v \<and> l \<notin> idx_rows s" if a: "a \<in> set (acc_list t)" for a
  proof -
    obtain i where i: "i < row_cnt t" "acc_list t ! i = a"
      using a len by (auto simp: in_set_conv_nth)
    show ?thesis
      by (rule acc_list_access [OF wt i(1)]) (use i(2) in blast)
  qed
  have orig: "i = j"
    if ij: "i < row_cnt t" "j < row_cnt t" "orig_row (acc_list t ! i) = orig_row (acc_list t ! j)" for i j
  proof -
    obtain r pk where a: "orig_row (acc_list t ! i) = Some r" "idx_row s pk = Some r" "record_pos t pk = Some i"
      by (rule acc_list_access [OF wt ij(1)])
    obtain q pk' where b: "orig_row (acc_list t ! j) = Some q" "idx_row s pk' = Some q" "record_pos t pk' = Some j"
      by (rule acc_list_access [OF wt ij(2)])
    have "pk' = pk" using idx_row_inj [OF ws a(2), of pk'] a b ij(3) by simp
    then show "i = j" using a b by simp
  qed
  have datas: "i = j" if "i < row_cnt t" "j < row_cnt t" "acc_data (acc_list t ! i) = acc_data (acc_list t ! j)" for i j
    by (rule wf_txn_data_inj [OF wt that(1,2) acc_list_nth [OF wt that(1)]
          acc_list_nth [OF wt that(2)] that(3)])
  have "distinct (map orig_row (acc_list t))" "distinct (map acc_data (acc_list t))"
    using len orig datas by (auto simp: distinct_conv_nth)
  then show ?thesis
    using each by (simp add: accs_ok_def)
qed

lemma accs_ok_mset: "mset as = mset bs \<Longrightarrow> accs_ok s as = accs_ok s bs"
proof -
  assume ms: "mset as = mset bs"
  then have "set as = set bs" by (rule mset_eq_setD)
  moreover have "distinct (map orig_row as) = distinct (map orig_row bs)"
    "distinct (map acc_data as) = distinct (map acc_data bs)"
    using ms by (auto intro!: mset_eq_imp_distinct_iff)
  ultimately show ?thesis by (simp add: accs_ok_def)
qed

lemma acc_view_iff:
  assumes ws: "wf_store s" and wt: "wf_txn s t"
  shows "acc_view s t pk = Some x \<longleftrightarrow>
    (\<exists>a \<in> set (acc_list t). \<exists>r. idx_row s pk = Some r \<and> orig_row a = Some r \<and> local_view s a = Some x)"
    (is "?l \<longleftrightarrow> ?r")
proof
  assume ?l
  then obtain i where i: "record_pos t pk = Some i"
    by (cases "record_pos t pk") (simp_all add: acc_view_def)
  obtain a :: Access and r where a: "i < row_cnt t" "accesses t ! i = Some a" "orig_row a = Some r" "idx_row s pk = Some r"
    by (rule wf_txn_record [OF wt i])
  then have "acc_list t ! i = a" using acc_list_nth [OF wt a(1)] by simp
  then have "a \<in> set (acc_list t)"
    using a(1) length_acc_list [OF wt] by (metis nth_mem)
  moreover have "local_view s a = Some x" using \<open>?l\<close> i a by (simp add: acc_view_def)
  ultimately show ?r using a by blast
next
  assume ?r
  then obtain a r where a: "a \<in> set (acc_list t)" "idx_row s pk = Some r" "orig_row a = Some r"
    "local_view s a = Some x" by blast
  then obtain i where i: "i < row_cnt t" "acc_list t ! i = a"
    using length_acc_list [OF wt] by (auto simp: in_set_conv_nth)
  then have acc: "accesses t ! i = Some a" using acc_list_nth [OF wt] by simp
  obtain q pk' where q: "orig_row a = Some q" "idx_row s pk' = Some q" "record_pos t pk' = Some i"
    by (rule acc_list_access [OF wt i(1)]) (use i(2) in auto)
  then have "pk' = pk" using idx_row_inj [OF ws a(2), of pk'] a(3) by simp
  then show ?l using q acc a(4) by (simp add: acc_view_def)
qed

section \<open>Sorting\<close>

lemma idx_row_pk:
  assumes "wf_store s" and "idx_row s pk = Some r"
  shows "\<exists>row w. rows s r = Some row \<and> row_table row = ''Data_TABLE'' \<and> primary_key row = Some pk \<and>
    manager row = Some \<lparr>wts = w, latched = False\<rparr> \<and> w < timestamp s"
  using wf_storeD(2) [OF assms] by (auto simp: shared_row_def)

definition access_key :: "store \<Rightarrow> Access option \<Rightarrow> lock_key" where
  "access_key s x =
     (case x of None \<Rightarrow> Lock_Key [] 0 | Some a \<Rightarrow>
       (case orig_row a of None \<Rightarrow> Lock_Key [] 0 | Some r \<Rightarrow>
         (case rows s r of None \<Rightarrow> Lock_Key [] 0 | Some row \<Rightarrow>
           Lock_Key (case tables s (row_table row) of None \<Rightarrow> [] | Some tb \<Rightarrow> table_name tb)
                    (case primary_key row of None \<Rightarrow> 0 | Some k \<Rightarrow> k))))"

lemma access_gt_ok:
  assumes "orig_row a = Some ra" "rows s ra = Some rowa" "tables s (row_table rowa) = Some ta"
    "primary_key rowa = Some ka"
    and "orig_row b = Some rb" "rows s rb = Some rowb" "tables s (row_table rowb) = Some tb"
    "primary_key rowb = Some kb"
  shows "access_gt s (Some a) (Some b) = Inr (access_key s (Some b) < access_key s (Some a))"
  using assms
  by (auto simp: access_gt_def access_key_def get_table_name_def deref_table_def get_primary_key_def
      less_lock_key_iff Let_def)

lemma sort_accesses_ok:
  assumes ws: "wf_store s" and wt: "wf_txn s t"
  obtains ys where "sort_accesses s t = Inr (t\<lparr>accesses := ys\<rparr>)" "length ys = length (accesses t)"
    "mset (acc_list (t\<lparr>accesses := ys\<rparr>)) = mset (acc_list t)"
    "\<forall>i < row_cnt t. ys ! i = Some (acc_list (t\<lparr>accesses := ys\<rparr>) ! i)"
    "sorted (map (access_key s) (take (row_cnt t) ys))"
proof -
  let ?n = "row_cnt t"
  have len: "?n \<le> length (accesses t)" using wt by (simp add: wf_txn_def)
  have el: "\<exists>a r row tb k. x = Some a \<and> orig_row a = Some r \<and> rows s r = Some row \<and>
      tables s (row_table row) = Some tb \<and> primary_key row = Some k"
    if "x \<in> set (take ?n (accesses t))" for x
  proof -
    obtain i where i: "i < ?n" "x = accesses t ! i" using \<open>x \<in> _\<close> by (auto simp: in_set_conv_nth)
    obtain r pk where a: "accesses t ! i = Some (acc_list t ! i)" "orig_row (acc_list t ! i) = Some r"
      "idx_row s pk = Some r"
      by (rule acc_list_access [OF wt i(1)])
    obtain row where row: "rows s r = Some row" "row_table row = ''Data_TABLE''" "primary_key row = Some pk"
      using idx_row_pk [OF ws a(3)] by blast
    obtain tb where "tables s ''Data_TABLE'' = Some tb"
      using wf_storeD(1) [OF ws] by (auto simp: has_table_def)
    then show ?thesis using a(1,2) row i(2) by auto
  qed
  have "cmp_ok (access_gt s) (access_key s) (set (take ?n (accesses t)))"
    unfolding cmp_ok_def
  proof (intro ballI)
    fix x y assume "x \<in> set (take ?n (accesses t))" "y \<in> set (take ?n (accesses t))"
    then show "access_gt s x y = Inr (access_key s y < access_key s x)"
      using el [of x] el [of y] access_gt_ok by metis
  qed
  from bubble_sort_ok [OF len this] obtain ys where ys:
    "bubble_outer (access_gt s) (?n - 1) (accesses t) = Inr ys" "length ys = length (accesses t)"
    "mset (take ?n ys) = mset (take ?n (accesses t))" "sorted (map (access_key s) (take ?n ys))"
    by blast
  have sets: "set (take ?n ys) = set (take ?n (accesses t))" using ys(3) by (metis set_mset_mset)
  have some: "ys ! i = Some (the (ys ! i))" if "i < ?n" for i
  proof -
    have "ys ! i \<in> set (take ?n ys)"
      using that ys(2) len by (auto simp: in_set_conv_nth intro!: exI [of _ i])
    then obtain a where "ys ! i = Some a" using el [of "ys ! i"] sets by auto
    then show ?thesis by simp
  qed
  show ?thesis
  proof (rule that)
    show "sort_accesses s t = Inr (t\<lparr>accesses := ys\<rparr>)" using ys(1) by (simp add: sort_accesses_def)
    show "mset (acc_list (t\<lparr>accesses := ys\<rparr>)) = mset (acc_list t)"
      using ys(3) by (simp add: acc_list_def flip: mset_map) (metis mset_map)
    show "\<forall>i < ?n. ys ! i = Some (acc_list (t\<lparr>accesses := ys\<rparr>) ! i)"
      using some ys(2) len by (simp add: acc_list_def)
  qed (use ys in simp_all)
qed

section \<open>Latches\<close>

definition set_latch :: "bool \<Rightarrow> nat set \<Rightarrow> store \<Rightarrow> store" where
  "set_latch b R s = s\<lparr>rows := (\<lambda>q. if q \<in> R
     then map_option (\<lambda>row. row\<lparr>manager := map_option (\<lambda>m. m\<lparr>latched := b\<rparr>) (manager row)\<rparr>) (rows s q)
     else rows s q)\<rparr>"

lemma set_latch_empty [simp]: "set_latch b {} s = s"
  by (simp add: set_latch_def)

lemma set_latch_union: "set_latch b A (set_latch b B s) = set_latch b (A \<union> B) s"
  by (auto simp: set_latch_def option.map_comp fun_eq_iff o_def map_option_case split: option.splits)

lemma set_latch_simps [simp]:
  "tables (set_latch b R s) = tables s" "indexes (set_latch b R s) = indexes s"
  "next_row (set_latch b R s) = next_row s" "timestamp (set_latch b R s) = timestamp s"
  "q \<notin> R \<Longrightarrow> rows (set_latch b R s) q = rows s q"
  by (simp_all add: set_latch_def)

lemma rows_set_latch_in:
  "q \<in> R \<Longrightarrow> rows s q = Some row \<Longrightarrow> manager row = Some m \<Longrightarrow>
   rows (set_latch b R s) q = Some (row\<lparr>manager := Some (m\<lparr>latched := b\<rparr>)\<rparr>)"
  by (simp add: set_latch_def)

lemma put_latch:
  "rows s r = Some row \<Longrightarrow> manager row = Some m \<Longrightarrow>
   put_manager s r row (m\<lparr>latched := b\<rparr>) = set_latch b {r} s"
  by (auto simp: put_manager_def put_row_def set_latch_def fun_eq_iff)

lemma row_latch_ok:
  assumes "rows s r = Some row" and "manager row = Some m" and "\<not> latched m"
  shows "row_latch s r = Inr (set_latch True {r} s)"
  using assms put_latch [OF assms(1,2), of True] by (simp add: row_latch_def get_manager_def)

lemma row_release_ok:
  assumes "rows s r = Some row" and "manager row = Some m"
  shows "row_release s r = Inr (set_latch False {r} s)"
  using assms put_latch [OF assms, of False] by (simp add: row_release_def get_manager_def)

definition idle :: "store \<Rightarrow> Access \<Rightarrow> bool" where
  "idle s a \<longleftrightarrow> (\<exists>r row m. orig_row a = Some r \<and> rows s r = Some row \<and> manager row = Some m \<and> \<not> latched m)"

definition current :: "store \<Rightarrow> u64 \<Rightarrow> Access \<Rightarrow> bool" where
  "current s ts a \<longleftrightarrow> (\<forall>r row m. orig_row a = Some r \<longrightarrow> rows s r = Some row \<longrightarrow>
     manager row = Some m \<longrightarrow> wts m \<le> ts)"

lemma idle_other: "idle s a \<Longrightarrow> orig_row a \<noteq> Some r \<Longrightarrow> idle (set_latch True {r} s) a"
  by (auto simp: idle_def)

lemma current_set_latch [simp]: "current (set_latch b R s) ts a = current s ts a"
  by (auto simp: current_def set_latch_def split: if_splits)

lemma origs_simps [simp]: "origs [] = {}" "orig_row a = Some r \<Longrightarrow> origs (a # as) = insert r (origs as)"
  by (auto simp: origs_def)

text \<open>
  The locking loop over idle, distinct rows: it never blocks; it latches a prefix of the rows, all
  of them if every row is current, and reports whether that is so.
\<close>

lemma lock_rows_ok:
  assumes "length as = n" and "\<forall>j < n. get_access t (i + j) = Inr (as ! j)"
    and "\<forall>a \<in> set as. idle s a" and "distinct (map orig_row as)"
  shows "\<exists>m \<le> n. lock_rows s t i n =
      Inr (\<forall>a \<in> set as. current s (start_ts t) a, set_latch True (origs (take m as)) s,
           t\<lparr>lock_cnt := lock_cnt t + m\<rparr>) \<and>
    ((\<forall>a \<in> set as. current s (start_ts t) a) \<longrightarrow> m = n)"
  using assms
proof (induction as arbitrary: n i s t)
  case Nil
  then show ?case by simp
next
  case (Cons a as)
  then obtain k where n: "n = Suc k" "length as = k" by auto
  define t1 where "t1 = t\<lparr>lock_cnt := Suc (lock_cnt t)\<rparr>"
  have acc: "get_access t1 (i + j) = get_access t (i + j)" for j by (simp add: get_access_def t1_def)
  have a: "get_access t1 i = Inr a" using Cons.prems(2) n acc [of 0] by auto
  obtain r row m where r: "orig_row a = Some r" "rows s r = Some row" "manager row = Some m" "\<not> latched m"
    using Cons.prems(3) by (auto simp: idle_def)
  let ?s1 = "set_latch True {r} s"
  have latch: "row_latch s r = Inr ?s1" using row_latch_ok r by blast
  have val: "row_validate ?s1 r (start_ts t1) = Inr (wts m \<le> start_ts t)"
    using rows_set_latch_in [of r "{r}" s row m True] r
    by (auto simp: row_validate_def get_manager_def t1_def)
  have cur: "current s (start_ts t) a \<longleftrightarrow> wts m \<le> start_ts t"
    using r by (simp add: current_def)
  have step: "lock_rows s t i n = (if current s (start_ts t) a then lock_rows ?s1 t1 (Suc i) k
      else Inr (False, ?s1, t1))"
    unfolding n(1) lock_rows.simps Let_def Suc_eq_plus1 [symmetric] t1_def [symmetric]
    using a r(1) latch val cur by simp
  show ?case
  proof (cases "current s (start_ts t) a")
    case False
    then show ?thesis
      using step r n by (intro exI [of _ 1]) (auto simp: t1_def)
  next
    case True
    have "\<forall>j < k. get_access t1 (Suc i + j) = Inr (as ! j)"
    proof (intro allI impI)
      fix j assume "j < k"
      then have "get_access t (i + Suc j) = Inr ((a # as) ! Suc j)" using Cons.prems(2) n(1) by blast
      then show "get_access t1 (Suc i + j) = Inr (as ! j)" using acc [of "Suc j"] by simp
    qed
    moreover have "\<forall>b \<in> set as. idle ?s1 b"
      proof
      fix b assume b: "b \<in> set as"
      then have "orig_row b \<noteq> Some r" using Cons.prems(4) r(1) by (auto simp: image_iff)
      then show "idle ?s1 b" using Cons.prems(3) b by (simp add: idle_other)
    qed
    ultimately obtain m' where m': "m' \<le> k" "lock_rows ?s1 t1 (Suc i) k =
        Inr (\<forall>a \<in> set as. current ?s1 (start_ts t1) a, set_latch True (origs (take m' as)) ?s1,
           t1\<lparr>lock_cnt := lock_cnt t1 + m'\<rparr>)"
      "(\<forall>a \<in> set as. current ?s1 (start_ts t1) a) \<longrightarrow> m' = k"
      using Cons.IH [OF n(2), of t1 "Suc i" ?s1] Cons.prems(4) by auto
    have "set_latch True (origs (take m' as)) ?s1 = set_latch True (origs (take (Suc m') (a # as))) s"
      using r by (simp add: set_latch_union)
    then show ?thesis
      using step True m' n by (intro exI [of _ "Suc m'"]) (simp add: t1_def)
  qed
qed

lemma release_rows_ok:
  assumes "length as = n" and "\<forall>j < n. get_access t (i + j) = Inr (as ! j)"
    and "\<forall>a \<in> set as. \<exists>r row m. orig_row a = Some r \<and> rows s r = Some row \<and> manager row = Some m"
  shows "release_rows s t i n = Inr (set_latch False (origs as) s)"
  using assms
proof (induction as arbitrary: n i s)
  case Nil
  then show ?case by simp
next
  case (Cons a as)
  then obtain k where n: "n = Suc k" "length as = k" by auto
  have a: "get_access t i = Inr a" using Cons.prems(2) n by auto
  obtain r row m where r: "orig_row a = Some r" "rows s r = Some row" "manager row = Some m"
    using Cons.prems(3) by auto
  let ?s1 = "set_latch False {r} s"
  have "\<forall>j < k. get_access t (Suc i + j) = Inr (as ! j)"
  proof (intro allI impI)
    fix j assume "j < k"
    then have "get_access t (i + Suc j) = Inr ((a # as) ! Suc j)" using Cons.prems(2) n(1) by blast
    then show "get_access t (Suc i + j) = Inr (as ! j)" by simp
  qed
  moreover have "\<forall>a \<in> set as. \<exists>r row m. orig_row a = Some r \<and> rows ?s1 r = Some row \<and> manager row = Some m"
  proof
    fix b assume "b \<in> set as"
    then obtain q row m where q: "orig_row b = Some q" "rows s q = Some row" "manager row = Some m"
      using Cons.prems(3) by auto
    then show "\<exists>q row m. orig_row b = Some q \<and> rows ?s1 q = Some row \<and> manager row = Some m"
      by (cases "q = r") (auto simp: set_latch_def)
  qed
  ultimately have "release_rows ?s1 t (Suc i) k = Inr (set_latch False (origs as) ?s1)"
    using Cons.IH [OF n(2)] by blast
  then show ?case
    using a r row_release_ok [OF r(2,3)] n by (simp add: set_latch_union)
qed

section \<open>Returning the local copies\<close>

definition return_type :: "RC \<Rightarrow> access_t \<Rightarrow> access_t" where
  "return_type rc ty = (if ty = WR \<and> rc = Abort then XP else ty)"

fun return_list :: "store \<Rightarrow> u64 \<Rightarrow> RC \<Rightarrow> Access list \<Rightarrow> store res" where
  "return_list s ts rc [] = Inr s"
| "return_list s ts rc (a # as) =
     R_bind (return_row s (return_type rc (acc_type a)) ts (orig_row a) (acc_data a)) (\<lambda>s1.
       return_list s1 ts rc as)"

lemma return_list_append:
  "return_list s ts rc (as @ bs) = R_bind (return_list s ts rc as) (\<lambda>s1. return_list s1 ts rc bs)"
  by (induction as arbitrary: s) (simp_all add: R_bind_assoc)

abbreviation dropped :: "Access \<Rightarrow> Access option" where
  "dropped a \<equiv> Some (a\<lparr>acc_data := None\<rparr>)"

lemma cleanup_rows_eq:
  assumes "length as \<le> length (accesses t)" and "\<forall>i < length as. accesses t ! i = Some (as ! i)"
  shows "cleanup_rows s t rc (length as) =
    R_bind (return_list s (end_ts t) rc (rev as)) (\<lambda>s1.
      Inr (s1, t\<lparr>accesses := map dropped as @ drop (length as) (accesses t)\<rparr>))"
  using assms
proof (induction as arbitrary: s t rule: rev_induct)
  case Nil
  then show ?case by simp
next
  case (snoc b bs)
  let ?m = "length bs" and ?b = "b\<lparr>acc_data := None\<rparr>"
  have m: "?m < length (accesses t)" using snoc.prems(1) by simp
  have b: "get_access t ?m = Inr b"
    using m snoc.prems(2) [rule_format, of ?m] by (simp add: get_access_def)
  let ?t = "set_access t ?m ?b"
  have "accesses ?t ! i = Some (bs ! i)" if "i < ?m" for i
    using snoc.prems(2) [rule_format, of i] that by (simp add: set_access_def nth_append)
  then have IH: "cleanup_rows s1 ?t rc ?m = R_bind (return_list s1 (end_ts t) rc (rev bs)) (\<lambda>s2.
      Inr (s2, ?t\<lparr>accesses := map dropped bs @ drop ?m (accesses ?t)\<rparr>))" for s1
    using snoc.IH [of ?t s1] m by (simp add: set_access_def)
  have "drop ?m (accesses ?t) = Some ?b # drop (Suc ?m) (accesses t)"
    using m by (simp add: set_access_def Cons_nth_drop_Suc [symmetric])
  then have "?t\<lparr>accesses := map dropped bs @ drop ?m (accesses ?t)\<rparr> =
      t\<lparr>accesses := map dropped (bs @ [b]) @ drop (length (bs @ [b])) (accesses t)\<rparr>"
    by (simp add: set_access_def)
  then show ?case
    using b IH by (simp add: return_list_append R_bind_assoc return_type_def Let_def)
qed

text \<open>What returning one access needs of the rows, and what a write back leaves behind.\<close>

definition returnable :: "store \<Rightarrow> u64 \<Rightarrow> RC \<Rightarrow> Access \<Rightarrow> bool" where
  "returnable s ts rc a \<longleftrightarrow> (\<exists>r l row lrow m d e. orig_row a = Some r \<and> acc_data a = Some l \<and>
     (acc_type a = RD \<or> acc_type a = WR) \<and>
     rows s r = Some row \<and> row_table row = ''Data_TABLE'' \<and> manager row = Some m \<and>
     (rc = Abort \<or> wts m < ts) \<and>
     data row = Some d \<and> length d = 1152 \<and>
     rows s l = Some lrow \<and> row_table lrow = ''Data_TABLE'' \<and> data lrow = Some e \<and> length e = 1152)"

definition written_row :: "store \<Rightarrow> u64 \<Rightarrow> Access \<Rightarrow> row_t option" where
  "written_row s ts a =
     (case (orig_row a, acc_data a) of
        (Some r, Some l) \<Rightarrow>
          (case (rows s r, rows s l) of
             (Some row, Some lrow) \<Rightarrow>
               Some (row\<lparr>data := data lrow, manager := map_option (\<lambda>m. m\<lparr>wts := ts\<rparr>) (manager row)\<rparr>)
           | _ \<Rightarrow> None)
      | _ \<Rightarrow> None)"

definition returned :: "store \<Rightarrow> u64 \<Rightarrow> RC \<Rightarrow> Access list \<Rightarrow> store \<Rightarrow> bool" where
  "returned s ts rc as s' \<longleftrightarrow> tables s' = tables s \<and> indexes s' = indexes s \<and>
     next_row s' = next_row s \<and> timestamp s' = timestamp s \<and>
     (\<forall>q. q \<in> locs as \<longrightarrow> rows s' q = None) \<and>
     (\<forall>q. q \<notin> locs as \<longrightarrow> q \<notin> origs as \<longrightarrow> rows s' q = rows s q) \<and>
     (\<forall>a r. a \<in> set as \<longrightarrow> orig_row a = Some r \<longrightarrow>
        rows s' r = (if acc_type a = WR \<and> rc \<noteq> Abort then written_row s ts a else rows s r))"

lemma free_local:
  assumes "rows s l = Some row" and "data row = Some d"
  shows "R_bind (free_row s l) (\<lambda>s1. mem_free_row s1 l) = Inr (s\<lparr>rows := (rows s)(l := None)\<rparr>)"
  using assms by (simp add: free_row_def mem_free_row_def get_data_def put_row_def)

lemma return_row_ok:
  assumes "has_table s" and "returnable s ts rc a" and "orig_row a = Some r" "acc_data a = Some l" "r \<noteq> l"
  shows "return_row s (return_type rc (acc_type a)) ts (orig_row a) (acc_data a) =
    Inr (s\<lparr>rows := (rows s)(r := (if acc_type a = WR \<and> rc \<noteq> Abort then written_row s ts a else rows s r),
                             l := None)\<rparr>)"
proof -
  from assms(2-4) obtain row lrow m d e where
    r: "rows s r = Some row" "row_table row = ''Data_TABLE''" "manager row = Some m" "rc = Abort \<or> wts m < ts"
      "data row = Some d" "length d = 1152"
    and l: "rows s l = Some lrow" "row_table lrow = ''Data_TABLE''" "data lrow = Some e" "length e = 1152"
    and ty: "acc_type a = RD \<or> acc_type a = WR"
    by (auto simp: returnable_def)
  show ?thesis
  proof (cases "acc_type a = WR \<and> rc \<noteq> Abort")
    case True
    let ?row1 = "row\<lparr>data := Some e\<rparr>"
    have copy: "row_copy s r l = Inr (put_row s r ?row1)"
      using row_copy_ok [OF assms(1) l r(1,5,6)] .
    let ?row2 = "row\<lparr>data := Some e, manager := Some (m\<lparr>wts := ts\<rparr>)\<rparr>"
    have w: "row_write s r l ts = Inr (put_row s r ?row2)"
      using copy r True by (simp add: row_write_def get_manager_def put_manager_def PER_ROW_VALID_def)
    have wr: "written_row s ts a = Some ?row2"
      using assms(3,4) r l by (simp add: written_row_def)
    have "rows (put_row s r ?row2) l = Some lrow" using l assms(5) by simp
    from free_local [OF this l(3)] show ?thesis
      using True assms(3,4) w wr
      by (simp add: return_row_def return_type_def) (simp add: put_row_def)
  next
    case False
    then have "return_type rc (acc_type a) \<noteq> WR" by (simp add: return_type_def)
    then show ?thesis
      unfolding if_not_P [OF False] using free_local [OF l(1,3)] assms(3,4)
      by (simp add: return_row_def fun_upd_idem)
  qed
qed

lemma returned_list:
  assumes "has_table s" and "\<forall>a \<in> set as. returnable s ts rc a" and "origs as \<inter> locs as = {}"
    and "distinct (map orig_row as)" "distinct (map acc_data as)"
  shows "\<exists>s'. return_list s ts rc as = Inr s' \<and> returned s ts rc as s'"
  using assms
proof (induction as arbitrary: s)
  case Nil
  then show ?case by (simp add: returned_def locs_def)
next
  case (Cons a as)
  from Cons.prems(2) obtain r l where a: "orig_row a = Some r" "acc_data a = Some l"
    by (auto simp: returnable_def)
  have ol: "origs (a # as) = insert r (origs as)" "locs (a # as) = insert l (locs as)"
    using a by (auto simp: origs_def locs_def)
  have ne: "r \<noteq> l" "l \<notin> origs as" "r \<notin> locs as" "r \<notin> origs as" "l \<notin> locs as"
    using Cons.prems(3,4,5) ol a by (auto simp: origs_def locs_def image_iff)
  define s1 where "s1 = s\<lparr>rows := (rows s)(r := (if acc_type a = WR \<and> rc \<noteq> Abort
      then written_row s ts a else rows s r), l := None)\<rparr>"
  have ret: "return_row s (return_type rc (acc_type a)) ts (orig_row a) (acc_data a) = Inr s1"
    unfolding s1_def using return_row_ok [OF Cons.prems(1) _ a ne(1)] Cons.prems(2) by simp
  have keep: "rows s1 q = rows s q" if "q \<noteq> r" "q \<noteq> l" for q using that by (simp add: s1_def)
  have other: "returnable s1 ts rc b \<and> written_row s1 ts b = written_row s ts b" if b: "b \<in> set as" for b
  proof -
    have rb: "returnable s ts rc b" using Cons.prems(2) b by simp
    then obtain rb lb where ab: "orig_row b = Some rb" "acc_data b = Some lb"
      by (auto simp: returnable_def)
    then have "rb \<in> origs as" "lb \<in> locs as" using b by (auto simp: origs_def locs_def)
    then have "rb \<noteq> r" "rb \<noteq> l" "lb \<noteq> r" "lb \<noteq> l" using ne by auto
    then have "rows s1 rb = rows s rb" "rows s1 lb = rows s lb" using keep by auto
    then show ?thesis using rb ab by (simp add: returnable_def written_row_def)
  qed
  have "has_table s1" using Cons.prems(1) by (simp add: s1_def)
  moreover have "origs as \<inter> locs as = {}" using Cons.prems(3) ol by auto
  ultimately obtain s' where s': "return_list s1 ts rc as = Inr s'" "returned s1 ts rc as s'"
    using Cons.IH [of s1] other Cons.prems(4,5) by auto
  have rows_r: "rows s' r = rows s1 r" "rows s' l = rows s1 l"
    using s'(2) ne by (simp_all add: returned_def)
  have "rows s' rb = (if acc_type b = WR \<and> rc \<noteq> Abort then written_row s ts b else rows s rb)"
    if "b \<in> set as" "orig_row b = Some rb" for b rb
  proof -
    have "rb \<in> origs as" using that by (auto simp: origs_def)
    then have "rb \<noteq> r" "rb \<noteq> l" using ne by auto
    then have "rows s1 rb = rows s rb" by (rule keep)
    then show ?thesis using s'(2) that other [OF that(1)] by (simp add: returned_def)
  qed
  moreover have "rows s' r = (if acc_type a = WR \<and> rc \<noteq> Abort then written_row s ts a else rows s r)"
    using rows_r ne by (simp add: s1_def)
  moreover have "rows s' l = None" using rows_r by (simp add: s1_def)
  ultimately have "returned s ts rc (a # as) s'"
    using s'(2) keep a unfolding returned_def ol by (auto simp: s1_def)
  then show ?case using ret s'(1) by auto
qed

end
