(* ===== verification/Validate.thy ===== *)
theory Validate
  imports Commit
begin

text \<open>
  \<open>OptCC::validate\<close> and \<open>txn_man::finish\<close> on well-formed states. The commit decision is \<open>a_valid\<close>
  of the views; a commit leaves \<open>a_write_back\<close> of the views in the store, a rollback leaves the
  committed rows as they were; in both cases the local copies are gone, every latch is free and
  other transactions are not disturbed.
\<close>

section \<open>Latches around the return of the copies\<close>

lemma returnable_set_latch:
  assumes "returnable s ts rc a"
  shows "returnable (set_latch b R s) ts rc a"
proof -
  from assms obtain r l row lrow m d e where a: "orig_row a = Some r" "acc_data a = Some l"
     "acc_type a = RD \<or> acc_type a = WR"
     "rows s r = Some row" "row_table row = ''Data_TABLE''" "manager row = Some m"
     "rc = Abort \<or> wts m < ts" "data row = Some d" "length d = 1152"
     "rows s l = Some lrow" "row_table lrow = ''Data_TABLE''" "data lrow = Some e" "length e = 1152"
    unfolding returnable_def by blast
  let ?f = "\<lambda>q (row :: row_t). if q \<in> R
     then row\<lparr>manager := map_option (\<lambda>m. m\<lparr>latched := b\<rparr>) (manager row)\<rparr> else row"
  have "rows (set_latch b R s) r = Some (?f r row)" "rows (set_latch b R s) l = Some (?f l lrow)"
    using a by (simp_all add: set_latch_def)
  moreover have "row_table (?f r row) = ''Data_TABLE''" "data (?f r row) = Some d"
    "row_table (?f l lrow) = ''Data_TABLE''" "data (?f l lrow) = Some e"
    "manager (?f r row) = Some (if r \<in> R then m\<lparr>latched := b\<rparr> else m)"
    "wts (if r \<in> R then m\<lparr>latched := b\<rparr> else m) = wts m"
    using a by simp_all
  ultimately show ?thesis
    using a unfolding returnable_def by metis
qed

lemma returned_managers:
  assumes "returned s ts rc as s'" and "a \<in> set as" "returnable s ts rc a"
  shows "\<exists>r row m. orig_row a = Some r \<and> rows s' r = Some row \<and> manager row = Some m"
proof -
  from assms(3) obtain r l row lrow m where a: "orig_row a = Some r" "acc_data a = Some l"
     "rows s r = Some row" "manager row = Some m" "rows s l = Some lrow"
    unfolding returnable_def by blast
  have "rows s' r = (if acc_type a = WR \<and> rc \<noteq> Abort then written_row s ts a else rows s r)"
    using assms(1,2) a(1) by (simp add: returned_def)
  then show ?thesis using a by (auto simp: written_row_def)
qed

text \<open>Latching some of the rows first and releasing them afterwards makes no difference.\<close>

lemma returned_unlatch:
  assumes "returned (set_latch True R s) ts rc as s4" and "R \<subseteq> origs as"
    and "\<forall>a \<in> set as. idle s a" and "origs as \<inter> locs as = {}"
    and "\<forall>a \<in> set as. returnable s ts rc a"
  shows "returned s ts rc as (set_latch False R s4)"
proof -
  let ?s5 = "set_latch False R s4"
  have "rows ?s5 r = (if acc_type a = WR \<and> rc \<noteq> Abort then written_row s ts a else rows s r)"
    if a: "a \<in> set as" "orig_row a = Some r" for a r
  proof -
    have s4: "rows s4 r = (if acc_type a = WR \<and> rc \<noteq> Abort then written_row (set_latch True R s) ts a
        else rows (set_latch True R s) r)"
      using assms(1) a by (simp add: returned_def)
    obtain row m where r: "rows s r = Some row" "manager row = Some m" "\<not> latched m"
      using assms(3) a by (auto simp: idle_def)
    obtain l where l: "acc_data a = Some l" using assms(5) a(1) by (auto simp: returnable_def)
    then have "l \<in> locs as" using a by (auto simp: locs_def)
    then have "l \<notin> R" using assms(2,4) by auto
    then have lr: "rows (set_latch True R s) l = rows s l" by simp
    have un: "row\<lparr>manager := Some (m\<lparr>latched := False\<rparr>)\<rparr> = row" "m\<lparr>latched := False\<rparr> = m"
      using r by (simp_all add: row_t.equality row_occ.equality)
    show ?thesis
    proof (cases "r \<in> R")
      case True
      have "rows (set_latch True R s) r = Some (row\<lparr>manager := Some (m\<lparr>latched := True\<rparr>)\<rparr>)"
        using rows_set_latch_in [OF True r(1,2)] .
      then show ?thesis
        using s4 True r l lr un a(2)
        by (auto simp: set_latch_def [of False] written_row_def split: option.splits)
    next
      case False
      then show ?thesis using s4 a(2) l lr by (simp add: written_row_def)
    qed
  qed
  then show ?thesis
    using assms(1,2,4) by (auto simp: returned_def set_latch_def)
qed

section \<open>Well-formed accesses\<close>

lemma accs_ok_returnable:
  assumes ws: "wf_store s" and "accs_ok s as" and "a \<in> set as"
  shows "rc = Abort \<or> ts = timestamp s \<Longrightarrow> returnable s ts rc a" and "idle s a"
proof -
  obtain r l pk k v where a: "orig_row a = Some r" "acc_data a = Some l"
    "acc_type a = RD \<or> acc_type a = WR" "idx_row s pk = Some r" "local_row s l k v"
    using assms(2,3) unfolding accs_ok_def by blast
  obtain k' v' w where sh: "shared_row s r pk k' v' w" "w < timestamp s"
    using wf_storeD(2) [OF ws a(4)] by blast
  obtain row d where r: "rows s r = Some row" "row_table row = ''Data_TABLE''"
    "manager row = Some \<lparr>wts = w, latched = False\<rparr>" "data row = Some d" "length d = 1152"
    using sh(1) by (auto simp: shared_row_def tuple_ok_def)
  obtain lrow e where l: "rows s l = Some lrow" "row_table lrow = ''Data_TABLE''"
    "data lrow = Some e" "length e = 1152"
    using a(5) by (auto simp: local_row_def tuple_ok_def)
  show "idle s a" using a r by (simp add: idle_def)
  show "returnable s ts rc a" if "rc = Abort \<or> ts = timestamp s"
    using that a(1-3) r l sh(2) by (auto simp: returnable_def)
qed

lemma accs_okE:
  assumes "accs_ok s as" and "a \<in> set as"
  obtains r l pk k v where "orig_row a = Some r" "acc_data a = Some l"
    "acc_type a = RD \<or> acc_type a = WR" "idx_row s pk = Some r" "local_row s l k v" "l \<notin> idx_rows s"
  using assms unfolding accs_ok_def by blast

lemma accs_ok_sets:
  assumes "accs_ok s as"
  shows "origs as \<subseteq> idx_rows s" and "locs as \<inter> idx_rows s = {}" and "origs as \<inter> locs as = {}"
proof -
  show o: "origs as \<subseteq> idx_rows s"
  proof
    fix r assume "r \<in> origs as"
    then obtain a where a: "a \<in> set as" "orig_row a = Some r" by (auto simp: origs_def)
    show "r \<in> idx_rows s" by (rule accs_okE [OF assms a(1)]) (use a(2) in \<open>auto simp: idx_rows_def\<close>)
  qed
  show l: "locs as \<inter> idx_rows s = {}"
  proof -
    have "l \<notin> idx_rows s" if "a \<in> set as" "acc_data a = Some l" for a l
      by (rule accs_okE [OF assms that(1)]) (use that(2) in auto)
    then show ?thesis by (auto simp: locs_def)
  qed
  show "origs as \<inter> locs as = {}" using o l by auto
qed

lemma accs_ok_distinct:
  "accs_ok s as \<Longrightarrow> distinct (map orig_row as)" "accs_ok s as \<Longrightarrow> distinct (map acc_data as)"
  by (simp_all add: accs_ok_def)

lemma returned_rev [simp]: "returned s ts rc (rev as) s' = returned s ts rc as s'"
  by (simp add: returned_def locs_def origs_def)

lemma a_valid_iff:
  assumes ws: "wf_store s" and wt: "wf_txn s t" and as: "set as = set (acc_list t)"
  shows "a_valid (db_view s) (acc_view s t) ts \<longleftrightarrow> (\<forall>a \<in> set as. current s ts a)"
proof -
  have key: "current s ts a \<longleftrightarrow> (\<forall>row. db_view s pk = Some row \<longrightarrow> a_wts row \<le> ts)"
    if a: "orig_row a = Some r" "idx_row s pk = Some r" for a :: Access and r pk
  proof -
    obtain k v w where w: "shared_row s r pk k v w"
      "db_view s pk = Some \<lparr>a_key = k, a_val = v, a_wts = w\<rparr>"
      by (rule db_view_Some [OF ws a(2)])
    then show ?thesis using a(1) by (auto simp: current_def shared_row_def)
  qed
  have dom: "pk \<in> dom (acc_view s t) \<longleftrightarrow> (\<exists>a \<in> set as. \<exists>r. idx_row s pk = Some r \<and> orig_row a = Some r)" for pk
  proof -
    have some: "\<exists>x. local_view s a = Some x" if a: "a \<in> set as" for a
    proof (rule accs_okE [OF accs_ok_acc_list [OF ws wt]])
      show "a \<in> set (acc_list t)" using a as by simp
    next
      fix l k v assume "acc_data a = Some l" "local_row s l k v"
      then show ?thesis using local_view_local by auto
    qed
    have "pk \<in> dom (acc_view s t) \<longleftrightarrow> (\<exists>x. acc_view s t pk = Some x)" by auto
    also have "\<dots> \<longleftrightarrow> (\<exists>a \<in> set as. \<exists>r. idx_row s pk = Some r \<and> orig_row a = Some r)"
      unfolding acc_view_iff [OF ws wt] as [symmetric] using some by blast
    finally show ?thesis .
  qed
  have has: "\<exists>r pk. orig_row a = Some r \<and> idx_row s pk = Some r" if "a \<in> set as" for a
    using accs_ok_acc_list [OF ws wt] that as unfolding accs_ok_def by blast
  show ?thesis
  proof
    assume v: "a_valid (db_view s) (acc_view s t) ts"
    show "\<forall>a \<in> set as. current s ts a"
    proof
      fix a assume a: "a \<in> set as"
      then obtain r pk where r: "orig_row a = Some r" "idx_row s pk = Some r" using has by blast
      then have "pk \<in> dom (acc_view s t)" using dom a by blast
      then show "current s ts a" using v key [OF r] by (simp add: a_valid_def)
    qed
  next
    assume c: "\<forall>a \<in> set as. current s ts a"
    show "a_valid (db_view s) (acc_view s t) ts"
      unfolding a_valid_def
    proof
      fix pk assume "pk \<in> dom (acc_view s t)"
      then obtain a r where "a \<in> set as" "idx_row s pk = Some r" "orig_row a = Some r"
        using dom by blast
      then show "\<forall>row. db_view s pk = Some row \<longrightarrow> a_wts row \<le> ts" using c key by blast
    qed
  qed
qed

section \<open>The store after a rollback\<close>

lemma returned_other:
  assumes "returned s ts rc as s'" and "q \<notin> locs as" and "\<And>a. a \<in> set as \<Longrightarrow> orig_row a = Some q \<Longrightarrow> acc_type a = WR \<Longrightarrow> rc = Abort"
  shows "rows s' q = rows s q"
proof (cases "q \<in> origs as")
  case True
  then obtain a where a: "a \<in> set as" "orig_row a = Some q" by (auto simp: origs_def)
  then have "rows s' q = (if acc_type a = WR \<and> rc \<noteq> Abort then written_row s ts a else rows s q)"
    using assms(1) by (simp add: returned_def)
  then show ?thesis using assms(3) [OF a] by auto
qed (use assms(1,2) in \<open>simp add: returned_def\<close>)

lemma returned_frame:
  assumes ws: "wf_store s" and ok: "accs_ok s as" and ret: "returned s1 ts rc as s'"
    and s1: "rows s1 = rows s" "tables s1 = tables s" "indexes s1 = indexes s" "next_row s1 = next_row s"
    and ts: "timestamp s \<le> timestamp s1"
  shows "idx_row s' = idx_row s" and "has_table s'" and "frame (locs as) s s'"
    and "next_row s' \<le> r \<Longrightarrow> rows s' r = None"
proof -
  have eqs: "tables s' = tables s" "indexes s' = indexes s" "next_row s' = next_row s"
    "timestamp s' = timestamp s1"
    using ret s1 by (simp_all add: returned_def)
  show idx: "idx_row s' = idx_row s" using eqs by (simp add: idx_row_def fun_eq_iff)
  show "has_table s'" using wf_storeD(1) [OF ws] eqs by (simp add: has_table_def)
  have keep: "rows s' q = rows s q" if "q \<notin> idx_rows s" "q \<notin> locs as" for q
    using ret that accs_ok_sets(1) [OF ok] s1 by (auto simp: returned_def)
  show "frame (locs as) s s'"
    unfolding frame_def using keep idx eqs ts by simp
  show "rows s' r = None" if "next_row s' \<le> r"
  proof (cases "r \<in> locs as")
    case True
    then show ?thesis using ret by (simp add: returned_def)
  next
    case False
    have "r \<notin> idx_rows s"
    proof
      assume "r \<in> idx_rows s"
      then obtain pk where "idx_row s pk = Some r" by (auto simp: idx_rows_def)
      then show False using wf_storeD(2) [OF ws] shared_row_below [OF ws] that eqs
        by (metis not_le)
    qed
    then show ?thesis using keep False wf_storeD(3) [OF ws] that eqs by simp
  qed
qed

lemma rollback_state:
  assumes ws: "wf_store s" and ok: "accs_ok s as" and ret: "returned s ts Abort as s'"
  shows "wf_store s'" and "db_view s' = db_view s" and "idx_row s' = idx_row s"
    and "frame (locs as) s s'" and "timestamp s' = timestamp s"
proof -
  note fr = returned_frame [OF ws ok ret refl refl refl refl order.refl]
  have keep: "rows s' r = rows s r" if "r \<in> idx_rows s" for r
    using that accs_ok_sets(2) [OF ok] by (intro returned_other [OF ret]) auto
  have eqs: "tables s' = tables s" "indexes s' = indexes s" "timestamp s' = timestamp s"
    using ret by (simp_all add: returned_def)
  note ch = wf_store_local_change [OF ws eqs keep fr(4)]
  show "wf_store s'" "db_view s' = db_view s" by (rule ch(1), assumption+, rule ch(2), assumption+)
  show "idx_row s' = idx_row s" "frame (locs as) s s'" by (rule fr)+
  show "timestamp s' = timestamp s" by (rule eqs)
qed

section \<open>The store after a commit\<close>

lemma written_shared:
  assumes "shared_row s r pk k v w" and "orig_row a = Some r" "acc_data a = Some l"
    and "local_row s l k' v'" and "rows s' r = written_row s ts a"
  shows "shared_row s' r pk k' v' ts"
  using assms by (auto simp: shared_row_def local_row_def written_row_def)

lemma written_row_cong: "rows s1 = rows s \<Longrightarrow> written_row s1 ts a = written_row s ts a"
  unfolding written_row_def by (cases "orig_row a"; cases "acc_data a"; simp)

lemma acc_view_row:
  assumes ws: "wf_store s" and wt: "wf_txn s t" and a: "a \<in> set (acc_list t)" "orig_row a = Some r"
    and idx: "idx_row s pk = Some r"
  obtains l k v where "acc_data a = Some l" "local_row s l k v"
    "acc_view s t pk = Some \<lparr>aw = (acc_type a = WR), ak = k, av = v\<rparr>"
proof -
  obtain l k v where l: "acc_data a = Some l" "local_row s l k v"
    by (rule accs_okE [OF accs_ok_acc_list [OF ws wt] a(1)])
  then have "local_view s a = Some \<lparr>aw = (acc_type a = WR), ak = k, av = v\<rparr>"
    by (rule local_view_local)
  then have "acc_view s t pk = Some \<lparr>aw = (acc_type a = WR), ak = k, av = v\<rparr>"
    unfolding acc_view_iff [OF ws wt] using a idx by blast
  with l show ?thesis by (rule that)
qed

lemma acc_view_no_row:
  assumes "wf_store s" and "wf_txn s t" and "idx_row s pk = Some r"
    and "\<And>a. a \<in> set (acc_list t) \<Longrightarrow> orig_row a \<noteq> Some r"
  shows "acc_view s t pk = None"
proof (rule ccontr)
  assume "acc_view s t pk \<noteq> None"
  then obtain x where "acc_view s t pk = Some x" by auto
  then show False unfolding acc_view_iff [OF assms(1,2)] using assms(3,4) by auto
qed

lemma commit_row:
  assumes ws: "wf_store s" and wt: "wf_txn s t" and as: "set as = set (acc_list t)"
    and ok: "accs_ok s as" and rc: "rc \<noteq> Abort"
    and ret: "returned (s\<lparr>timestamp := u\<rparr>) ts rc as s'" and idx: "idx_row s pk = Some r"
    and sh: "shared_row s r pk k v w"
  obtains k' v' w' where "shared_row s' r pk k' v' w'" "w' = w \<or> w' = ts"
    "a_write_back (db_view s) (acc_view s t) ts pk = Some \<lparr>a_key = k', a_val = v', a_wts = w'\<rparr>"
proof -
  have view: "db_view s pk = Some \<lparr>a_key = k, a_val = v, a_wts = w\<rparr>"
    using idx row_view_shared [OF sh] by (simp add: db_view_def)
  have nl: "r \<notin> locs as" using idx accs_ok_sets(2) [OF ok] by (auto simp: idx_rows_def)
  show ?thesis
  proof (cases "\<exists>a \<in> set as. orig_row a = Some r \<and> acc_type a = WR")
    case True
    then obtain a where a: "a \<in> set as" "orig_row a = Some r" "acc_type a = WR" by blast
    obtain l k' v' where l: "acc_data a = Some l" "local_row s l k' v'"
      "acc_view s t pk = Some \<lparr>aw = (acc_type a = WR), ak = k', av = v'\<rparr>"
      by (rule acc_view_row [OF ws wt a(1) [unfolded as] a(2) idx])
    have "rows s' r = written_row (s\<lparr>timestamp := u\<rparr>) ts a"
      using ret a rc by (simp add: returned_def)
    then have "rows s' r = written_row s ts a" by (simp add: written_row_cong [of "s\<lparr>timestamp := u\<rparr>" s])
    then have "shared_row s' r pk k' v' ts" by (rule written_shared [OF sh a(2) l(1,2)])
    then show ?thesis by (rule that) (simp_all add: a_write_back_def l(3) a(3))
  next
    case False
    then have nw: "acc_type a = WR \<Longrightarrow> rc = Abort" if "a \<in> set as" "orig_row a = Some r" for a
      using that by blast
    have "rows s' r = rows (s\<lparr>timestamp := u\<rparr>) r"
      by (rule returned_other [OF ret nl nw])
    then have sh': "shared_row s' r pk k v w" using sh shared_row_cong [of s' r s] by simp
    have "a_write_back (db_view s) (acc_view s t) ts pk = db_view s pk"
    proof (cases "\<exists>a \<in> set as. orig_row a = Some r")
      case True
      then obtain a where a: "a \<in> set as" "orig_row a = Some r" by blast
      obtain k' v' where "acc_view s t pk = Some \<lparr>aw = (acc_type a = WR), ak = k', av = v'\<rparr>"
        by (rule acc_view_row [OF ws wt a(1) [unfolded as] a(2) idx])
      then show ?thesis using False a by (auto simp: a_write_back_def)
    next
      case no: False
      have "acc_view s t pk = None"
        by (rule acc_view_no_row [OF ws wt idx]) (use no as in auto)
      then show ?thesis by (simp add: a_write_back_def)
    qed
    with sh' view show ?thesis by (intro that [of k v w]) auto
  qed
qed

lemma commit_state:
  assumes ws: "wf_store s" and wt: "wf_txn s t" and as: "set as = set (acc_list t)"
    and ok: "accs_ok s as" and rc: "rc \<noteq> Abort" and nowrap: "timestamp s + 1 \<noteq> 0"
    and ret: "returned (s\<lparr>timestamp := timestamp s + 1\<rparr>) (timestamp s) rc as s'"
  shows "wf_store s'" and "db_view s' = a_write_back (db_view s) (acc_view s t) (timestamp s)"
    and "idx_row s' = idx_row s" and "frame (locs as) s s'" and "timestamp s' = timestamp s + 1"
proof -
  have less: "timestamp s < timestamp s + 1" using nowrap by (rule u64_less_Suc)
  show ts: "timestamp s' = timestamp s + 1" using ret by (simp add: returned_def)
  note fr = returned_frame [OF ws ok ret, simplified, OF less [THEN less_imp_le]]
  show idx: "idx_row s' = idx_row s" and "frame (locs as) s s'" by (rule fr)+
  have row: "\<exists>k' v' w'. shared_row s' r pk k' v' w' \<and> w' < timestamp s' \<and>
      a_write_back (db_view s) (acc_view s t) (timestamp s) pk = Some \<lparr>a_key = k', a_val = v', a_wts = w'\<rparr>"
    if pk: "idx_row s pk = Some r" for pk r
  proof -
    obtain k v w where sh: "shared_row s r pk k v w" "w < timestamp s"
      using wf_storeD(2) [OF ws pk] by blast
    obtain k' v' w' where "shared_row s' r pk k' v' w'" "w' = w \<or> w' = timestamp s"
      "a_write_back (db_view s) (acc_view s t) (timestamp s) pk = Some \<lparr>a_key = k', a_val = v', a_wts = w'\<rparr>"
      by (rule commit_row [OF ws wt as ok rc ret pk sh(1)])
    moreover have "w < timestamp s'" "timestamp s < timestamp s'"
      using sh(2) less ts by (auto intro: less_trans)
    ultimately show ?thesis by blast
  qed
  have "indexes s' = indexes s" using ret by (simp add: returned_def)
  moreover have "\<exists>k v w. shared_row s' r pk k v w \<and> w < timestamp s'" if "idx_row s' pk = Some r" for pk r
    using row that unfolding idx by blast
  moreover have "0 < timestamp s'" using less wf_storeD(4) [OF ws] ts by simp
  ultimately show "wf_store s'"
    using ws fr(2,4) by (simp add: wf_store_def)
  show "db_view s' = a_write_back (db_view s) (acc_view s t) (timestamp s)"
  proof
    fix pk
    show "db_view s' pk = a_write_back (db_view s) (acc_view s t) (timestamp s) pk"
    proof (cases "idx_row s pk")
      case None
      then have "acc_view s t pk = None"
        unfolding acc_view_None_iff [OF wt] by (cases "record_pos t pk") (auto elim: wf_txn_record [OF wt])
      then show ?thesis using None by (simp add: db_view_def idx a_write_back_def)
    next
      case (Some r)
      then show ?thesis using row [OF Some] row_view_shared by (auto simp: db_view_def idx)
    qed
  qed
qed

section \<open>Cleanup\<close>

definition ended :: "txn_man \<Rightarrow> bool" where
  "ended t \<longleftrightarrow> row_cnt t = 0 \<and> wr_cnt t = 0 \<and> insert_rows t = [] \<and> record_pos t = Map.empty"

definition cleaned :: "txn_man \<Rightarrow> Access list \<Rightarrow> txn_man" where
  "cleaned t as = t\<lparr>accesses := map dropped as @ drop (length as) (accesses t), row_cnt := 0,
     wr_cnt := 0, insert_rows := [], record_pos := Map.empty\<rparr>"

lemma cleanup_rows_ok:
  assumes len: "length as = row_cnt t" "row_cnt t \<le> length (accesses t)"
    and nth: "\<forall>i < row_cnt t. accesses t ! i = Some (as ! i)"
    and ht: "has_table s" and ret: "\<forall>a \<in> set as. returnable s (end_ts t) rc a"
    and dis: "origs as \<inter> locs as = {}" "distinct (map orig_row as)" "distinct (map acc_data as)"
  obtains s' where "cleanup_rows s t rc (row_cnt t) =
      Inr (s', t\<lparr>accesses := map dropped as @ drop (length as) (accesses t)\<rparr>)"
    "returned s (end_ts t) rc as s'"
proof -
  have "origs (rev as) \<inter> locs (rev as) = {}" using dis(1) by (simp add: origs_def locs_def)
  with returned_list [OF ht, of "rev as" "end_ts t" rc] ret dis(2,3) obtain s'
    where s': "return_list s (end_ts t) rc (rev as) = Inr s'" "returned s (end_ts t) rc as s'"
    by (auto simp flip: rev_map)
  then show ?thesis
    using cleanup_rows_eq [of as t s rc] len nth that by simp
qed

lemma cleanup_ok:
  assumes "length as = row_cnt t" "row_cnt t \<le> length (accesses t)"
    and "\<forall>i < row_cnt t. accesses t ! i = Some (as ! i)"
    and "has_table s" and "\<forall>a \<in> set as. returnable s (end_ts t) rc a"
    and "origs as \<inter> locs as = {}" "distinct (map orig_row as)" "distinct (map acc_data as)"
    and ins: "rc = Abort \<longrightarrow> insert_rows t = []"
  obtains s' where "cleanup s t rc = Inr (s', cleaned t as)" "returned s (end_ts t) rc as s'"
proof -
  obtain s' where s': "cleanup_rows s t rc (row_cnt t) =
      Inr (s', t\<lparr>accesses := map dropped as @ drop (length as) (accesses t)\<rparr>)"
    "returned s (end_ts t) rc as s'"
    by (rule cleanup_rows_ok [OF assms(1-8)])
  then have "cleanup s t rc = Inr (s', cleaned t as)"
    using ins by (auto simp: cleanup_def cleaned_def)
  with s'(2) show ?thesis using that by blast
qed

lemma ended_cleaned [simp]: "ended (cleaned t as)"
  by (simp add: ended_def cleaned_def)

lemma get_access_cleaned:
  "length as \<le> length (accesses t) \<Longrightarrow> j < length as \<Longrightarrow>
   get_access (cleaned t as) j = Inr ((as ! j)\<lparr>acc_data := None\<rparr>)"
  by (simp add: get_access_def cleaned_def R_nth_def nth_append)

section \<open>Validation\<close>

text \<open>
  The part of \<open>validate\<close> after the locking loop, with \<open>m\<close> latches held: cleaning up and releasing
  has the effect of returning the copies on the store without latches.
\<close>

lemma finish_latched:
  assumes ws: "wf_store s" and ok: "accs_ok s as" and m: "m \<le> length as"
    and s2: "rows s2 = rows s" "tables s2 = tables s"
    and t2: "length as = row_cnt t2" "row_cnt t2 \<le> length (accesses t2)"
      "\<forall>i < row_cnt t2. accesses t2 ! i = Some (as ! i)" "lock_cnt t2 = m"
    and rc: "rc = Abort \<and> insert_rows t2 = [] \<or> rc \<noteq> Abort \<and> end_ts t2 = timestamp s"
  obtains s4 s5 where "cleanup (set_latch True (origs (take m as)) s2) t2 rc = Inr (s4, cleaned t2 as)"
    "release_rows s4 (cleaned t2 as) 0 m = Inr s5" "returned s2 (end_ts t2) rc as s5"
proof -
  let ?R = "origs (take m as)"
  let ?sl = "set_latch True ?R s2"
  have sub: "?R \<subseteq> origs as" by (auto simp: origs_def dest: in_set_takeD)
  have ret: "returnable s2 (end_ts t2) rc a" if "a \<in> set as" for a
  proof -
    have "returnable s (end_ts t2) rc a"
      using accs_ok_returnable(1) [OF ws ok that] rc by blast
    then show ?thesis using s2 by (simp add: returnable_def)
  qed
  have idle: "idle s2 a" if "a \<in> set as" for a
    using accs_ok_returnable(2) [OF ws ok that] s2 by (simp add: idle_def)
  have ht: "has_table ?sl" using wf_storeD(1) [OF ws] s2 by (simp add: has_table_def)
  have rl: "\<forall>a \<in> set as. returnable ?sl (end_ts t2) rc a"
    using ret returnable_set_latch by blast
  have ins: "rc = Abort \<longrightarrow> insert_rows t2 = []" using rc by blast
  obtain s4 where s4: "cleanup ?sl t2 rc = Inr (s4, cleaned t2 as)" "returned ?sl (end_ts t2) rc as s4"
    by (rule cleanup_ok [OF t2(1-3) ht rl accs_ok_sets(3) [OF ok] accs_ok_distinct [OF ok] ins])
  define bs where "bs = map (\<lambda>a. a\<lparr>acc_data := None\<rparr>) (take m as)"
  have bs: "length bs = m" "origs bs = ?R" using m by (auto simp: bs_def origs_def)
  have acc: "\<forall>j < m. get_access (cleaned t2 as) (0 + j) = Inr (bs ! j)"
    using m t2(1,2) by (auto simp: get_access_cleaned bs_def)
  have man: "\<exists>r row mm. orig_row b = Some r \<and> rows s4 r = Some row \<and> manager row = Some mm" if b: "b \<in> set bs" for b
  proof -
    obtain a where a: "a \<in> set (take m as)" "b = a\<lparr>acc_data := None\<rparr>"
      using b by (auto simp: bs_def)
    have "a \<in> set as" using a(1) by (rule in_set_takeD)
    then show ?thesis using returned_managers [OF s4(2)] rl a(2) by auto
  qed
  have rel: "release_rows s4 (cleaned t2 as) 0 m = Inr (set_latch False ?R s4)"
    unfolding bs(2) [symmetric] by (rule release_rows_ok [OF bs(1) acc]) (use man in blast)
  have "returned s2 (end_ts t2) rc as (set_latch False ?R s4)"
    by (rule returned_unlatch [OF s4(2) sub _ accs_ok_sets(3) [OF ok]]) (use idle ret in blast)+
  with s4(1) rel show ?thesis by (rule that)
qed

lemma acc_list_lock: "acc_list (t\<lparr>lock_cnt := n\<rparr>) = acc_list t"
  by (simp add: acc_list_def)

lemma set_latch_get_ts:
  "get_ts (set_latch b R s) = (timestamp s, set_latch b R (s\<lparr>timestamp := timestamp s + 1\<rparr>))"
  unfolding get_ts_def prod.inject by (intro conjI store.equality) (simp_all add: set_latch_def cong: if_cong)

lemma validate_ok:
  assumes ws: "wf_store s" and wt: "wf_txn s t"
    and ins: "a_valid (db_view s) (acc_view s t) (start_ts t) \<or> insert_rows t = []"
  obtains as s' t' where "set as = set (acc_list t)" "accs_ok s as" "ended t'"
    "if a_valid (db_view s) (acc_view s t) (start_ts t)
     then validate s t = Inr (RCOK, s', t') \<and>
       returned (s\<lparr>timestamp := timestamp s + 1\<rparr>) (timestamp s) RCOK as s'
     else validate s t = Inr (Abort, s', t') \<and> returned s (end_ts t) Abort as s'"
proof -
  obtain ys where ys: "sort_accesses s t = Inr (t\<lparr>accesses := ys\<rparr>)" "length ys = length (accesses t)"
    "mset (acc_list (t\<lparr>accesses := ys\<rparr>)) = mset (acc_list t)"
    "\<forall>i < row_cnt t. ys ! i = Some (acc_list (t\<lparr>accesses := ys\<rparr>) ! i)"
    by (rule sort_accesses_ok [OF ws wt])
  let ?n = "row_cnt t"
  define as where "as = acc_list (t\<lparr>accesses := ys\<rparr>)"
  define t1 where "t1 = t\<lparr>accesses := ys, lock_cnt := 0\<rparr>"
  have n: "?n \<le> length ys" using wt ys(2) by (simp add: wf_txn_def)
  have len: "length as = ?n" using n by (simp add: as_def acc_list_def)
  have set_as: "set as = set (acc_list t)" using ys(3) unfolding as_def by (rule mset_eq_setD)
  have ok: "accs_ok s as"
    using accs_ok_mset [OF ys(3)] accs_ok_acc_list [OF ws wt] by (simp add: as_def)
  have acc: "\<forall>j < ?n. get_access t1 (0 + j) = Inr (as ! j)"
    using ys(4) n by (simp add: get_access_def t1_def as_def)
  let ?ok = "\<forall>a \<in> set as. current s (start_ts t) a"
  have valid: "a_valid (db_view s) (acc_view s t) (start_ts t) \<longleftrightarrow> ?ok"
    by (rule a_valid_iff [OF ws wt set_as])
  have idle: "\<forall>a \<in> set as. idle s a" using accs_ok_returnable(2) [OF ws ok] by blast
  have "start_ts t1 = start_ts t" "lock_cnt t1 = 0" by (simp_all add: t1_def)
  with lock_rows_ok [OF len acc idle accs_ok_distinct(1) [OF ok]]
  obtain m where m: "m \<le> ?n" "?ok \<longrightarrow> m = ?n"
    "lock_rows s t1 0 ?n = Inr (?ok, set_latch True (origs (take m as)) s, t1\<lparr>lock_cnt := m\<rparr>)"
    by auto
  let ?t2 = "t1\<lparr>lock_cnt := m\<rparr>" and ?s3 = "s\<lparr>timestamp := timestamp s + 1\<rparr>"
  have lock: "R_bind (lock_rows s ((t\<lparr>accesses := ys\<rparr>)\<lparr>lock_cnt := 0\<rparr>) 0 (row_cnt (t\<lparr>accesses := ys\<rparr>))) f =
      f (?ok, set_latch True (origs (take m as)) s, ?t2)" for f
    using m(3) by (simp add: t1_def)
  have ml: "m \<le> length as" using m(1) len by simp
  have nth: "\<forall>i < ?n. ys ! i = Some (as ! i)" using ys(4) by (simp add: as_def)
  show ?thesis
  proof (cases ?ok)
    case True
    obtain s4 s5 where s5: "cleanup (set_latch True (origs (take m as)) ?s3) (?t2\<lparr>end_ts := timestamp s\<rparr>) RCOK
        = Inr (s4, cleaned (?t2\<lparr>end_ts := timestamp s\<rparr>) as)"
      "release_rows s4 (cleaned (?t2\<lparr>end_ts := timestamp s\<rparr>) as) 0 m = Inr s5"
      "returned ?s3 (end_ts (?t2\<lparr>end_ts := timestamp s\<rparr>)) RCOK as s5"
      by (rule finish_latched [OF ws ok ml, of ?s3 "?t2\<lparr>end_ts := timestamp s\<rparr>" RCOK])
        (use len n nth in \<open>simp_all add: t1_def\<close>)
    have "lock_cnt (cleaned (?t2\<lparr>end_ts := timestamp s\<rparr>) as) = m" by (simp add: cleaned_def)
    then have "validate s t = Inr (RCOK, s5, cleaned (?t2\<lparr>end_ts := timestamp s\<rparr>) as)"
      using True s5(1,2) unfolding validate_def ys(1) R_bind.simps lock
      by (simp add: set_latch_get_ts)
    then show ?thesis
      using that [OF set_as ok ended_cleaned] True valid s5(3) by simp
  next
    case False
    then have no: "insert_rows t = []" using ins valid by blast
    obtain s4 s5 where s5: "cleanup (set_latch True (origs (take m as)) s) ?t2 Abort = Inr (s4, cleaned ?t2 as)"
      "release_rows s4 (cleaned ?t2 as) 0 m = Inr s5"
      "returned s (end_ts ?t2) Abort as s5"
      by (rule finish_latched [OF ws ok ml, of s ?t2 Abort])
        (use len n nth no in \<open>simp_all add: t1_def\<close>)
    have lc: "lock_cnt (cleaned ?t2 as) = m" by (simp add: cleaned_def)
    have "validate s t = Inr (Abort, s5, cleaned ?t2 as)"
      using s5(1,2) lc unfolding validate_def ys(1) R_bind.simps lock if_not_P [OF False] prod.case
      by (simp only: if_False False R_bind.simps prod.case)
    moreover have "end_ts ?t2 = end_ts t" by (simp add: t1_def)
    ultimately show ?thesis
      using that [OF set_as ok ended_cleaned] False valid s5(3) by simp
  qed
qed

section \<open>Finishing a transaction\<close>

lemma owned_locs:
  assumes "wf_txn s t" and "set as = set (acc_list t)"
  shows "owned t = locs as"
proof
  show "owned t \<subseteq> locs as"
  proof
    fix l assume "l \<in> owned t"
    then obtain i a where i: "i < row_cnt t" "accesses t ! i = Some a" "acc_data a = Some l"
      by (auto simp: owned_def)
    then have "acc_list t ! i = a" using acc_list_nth [OF assms(1) i(1)] by simp
    then have "a \<in> set (acc_list t)" using i(1) length_acc_list [OF assms(1)] nth_mem by metis
    then show "l \<in> locs as" using i(3) assms(2) by (auto simp: locs_def)
  qed
  show "locs as \<subseteq> owned t"
  proof
    fix l assume "l \<in> locs as"
    then obtain a where a: "a \<in> set (acc_list t)" "acc_data a = Some l"
      using assms(2) by (auto simp: locs_def)
    then obtain i where "i < row_cnt t" "acc_list t ! i = a"
      using length_acc_list [OF assms(1)] by (auto simp: in_set_conv_nth)
    then show "l \<in> owned t" using acc_list_nth [OF assms(1)] a(2) by (auto simp: owned_def)
  qed
qed

text \<open>The store after a transaction that left no changes: everybody else sees what was there.\<close>

definition undone :: "store \<Rightarrow> txn_man \<Rightarrow> store \<Rightarrow> bool" where
  "undone s t s' \<longleftrightarrow> wf_store s' \<and> db_view s' = db_view s \<and> idx_row s' = idx_row s \<and>
     frame (owned t) s s' \<and> timestamp s' = timestamp s"

definition committed :: "store \<Rightarrow> txn_man \<Rightarrow> store \<Rightarrow> bool" where
  "committed s t s' \<longleftrightarrow> wf_store s' \<and>
     db_view s' = a_write_back (db_view s) (acc_view s t) (timestamp s) \<and> idx_row s' = idx_row s \<and>
     frame (owned t) s s' \<and> timestamp s' = timestamp s + 1"

lemma finish_commit_ok:
  assumes "wf_store s" and "wf_txn s t" and "timestamp s + 1 \<noteq> 0"
    and "a_valid (db_view s) (acc_view s t) (start_ts t)"
  shows "\<exists>s' t'. finish s t RCOK = Inr (RCOK, s', t') \<and> ended t' \<and> committed s t s'"
proof -
  have "a_valid (db_view s) (acc_view s t) (start_ts t) \<or> insert_rows t = []" using assms(4) ..
  then obtain as s' t' where v: "set as = set (acc_list t)" "accs_ok s as" "ended t'"
    and d: "validate s t = Inr (RCOK, s', t') \<and>
      returned (s\<lparr>timestamp := timestamp s + 1\<rparr>) (timestamp s) RCOK as s'"
    by (rule validate_ok [OF assms(1,2), unfolded if_P [OF assms(4)]])
  have "RCOK \<noteq> Abort" by simp
  note cs = commit_state [OF assms(1,2) v(1,2) this assms(3) conjunct2 [OF d]]
  show ?thesis
    using v(3) d cs by (simp add: finish_def committed_def owned_locs [OF assms(2) v(1)])
qed

lemma finish_invalid_ok:
  assumes "wf_store s" and "wf_txn s t" and "insert_rows t = []"
    and "\<not> a_valid (db_view s) (acc_view s t) (start_ts t)"
  shows "\<exists>s' t'. finish s t RCOK = Inr (Abort, s', t') \<and> ended t' \<and> undone s t s'"
proof -
  have "a_valid (db_view s) (acc_view s t) (start_ts t) \<or> insert_rows t = []" using assms(3) ..
  then obtain as s' t' where v: "set as = set (acc_list t)" "accs_ok s as" "ended t'"
    and d: "validate s t = Inr (Abort, s', t') \<and> returned s (end_ts t) Abort as s'"
    by (rule validate_ok [OF assms(1,2), unfolded if_not_P [OF assms(4)]])
  show ?thesis
    using v(3) d rollback_state [OF assms(1) v(2) conjunct2 [OF d]]
    by (simp add: finish_def undone_def owned_locs [OF assms(2) v(1)])
qed

lemma finish_abort_ok:
  assumes ws: "wf_store s" and wt: "wf_txn s t" and "insert_rows t = []"
  shows "\<exists>s' t'. finish s t Abort = Inr (Abort, s', t') \<and> ended t' \<and> undone s t s'"
proof -
  let ?as = "acc_list t"
  have len: "length ?as = row_cnt t" "row_cnt t \<le> length (accesses t)"
    using length_acc_list [OF wt] wt by (simp_all add: wf_txn_def)
  have nth: "\<forall>i < row_cnt t. accesses t ! i = Some (?as ! i)" using acc_list_nth [OF wt] by blast
  have ok: "accs_ok s ?as" by (rule accs_ok_acc_list [OF ws wt])
  have ret: "\<forall>a \<in> set ?as. returnable s (end_ts t) Abort a"
    using accs_ok_returnable(1) [OF ws ok] by blast
  have ins: "Abort = Abort \<longrightarrow> insert_rows t = []" using assms(3) by simp
  obtain s' where s': "cleanup s t Abort = Inr (s', cleaned t ?as)" "returned s (end_ts t) Abort ?as s'"
    by (rule cleanup_ok [OF len nth wf_storeD(1) [OF ws] ret accs_ok_sets(3) [OF ok]
          accs_ok_distinct [OF ok] ins])
  show ?thesis
    using s'(1) rollback_state [OF ws ok s'(2)]
    by (simp add: finish_def undone_def owned_locs [OF wt refl])
qed

text \<open>Other transactions survive the end of this one.\<close>

lemma undone_frame: "undone s t s' \<Longrightarrow> frame (owned t) s s'"
  by (simp add: undone_def)

lemma committed_frame: "committed s t s' \<Longrightarrow> frame (owned t) s s'"
  by (simp add: committed_def)

section \<open>The size of a transaction\<close>

lemma row_cnt_card:
  assumes ws: "wf_store s" and wt: "wf_txn s t"
  shows "row_cnt t = card (dom (acc_view s t))"
proof -
  have "dom (acc_view s t) = dom (record_pos t)"
    using acc_view_None_iff [OF wt] by (simp add: dom_def)
  moreover have "bij_betw (\<lambda>pk. the (record_pos t pk)) (dom (record_pos t)) {..< row_cnt t}"
    unfolding bij_betw_def
  proof
    show "inj_on (\<lambda>pk. the (record_pos t pk)) (dom (record_pos t))"
    proof (rule inj_onI)
      fix pk pk' assume a: "pk \<in> dom (record_pos t)" "pk' \<in> dom (record_pos t)"
        "the (record_pos t pk) = the (record_pos t pk')"
      then obtain i where i: "record_pos t pk = Some i" "record_pos t pk' = Some i" by auto
      then show "pk = pk'" using record_pos_inj [OF ws wt i] by simp
    qed
    show "(\<lambda>pk. the (record_pos t pk)) ` dom (record_pos t) = {..< row_cnt t}"
    proof
      show "(\<lambda>pk. the (record_pos t pk)) ` dom (record_pos t) \<subseteq> {..< row_cnt t}"
        using wt by (auto simp: wf_txn_def)
      show "{..< row_cnt t} \<subseteq> (\<lambda>pk. the (record_pos t pk)) ` dom (record_pos t)"
      proof
        fix i assume "i \<in> {..< row_cnt t}"
        then have "i < row_cnt t" by simp
        then obtain pk where "record_pos t pk = Some i" by (rule wf_txn_access [OF wt])
        then show "i \<in> (\<lambda>pk. the (record_pos t pk)) ` dom (record_pos t)" by (force simp: image_iff)
      qed
    qed
  qed
  ultimately show ?thesis by (metis bij_betw_same_card card_lessThan)
qed

section \<open>The order of the latches\<close>

lemma access_key_inj:
  assumes ws: "wf_store s" and ok: "accs_ok s as" and ab: "a \<in> set as" "b \<in> set as"
    and eq: "access_key s (Some a) = access_key s (Some b)"
  shows "orig_row a = orig_row b"
proof -
  obtain r pk where a: "orig_row a = Some r" "idx_row s pk = Some r" by (rule accs_okE [OF ok ab(1)])
  obtain q pk' where b: "orig_row b = Some q" "idx_row s pk' = Some q" by (rule accs_okE [OF ok ab(2)])
  obtain row where "rows s r = Some row" "primary_key row = Some pk" using idx_row_pk [OF ws a(2)] by blast
  moreover obtain row' where "rows s q = Some row'" "primary_key row' = Some pk'"
    using idx_row_pk [OF ws b(2)] by blast
  ultimately have "pk = pk'" using eq a(1) b(1) by (simp add: access_key_def)
  then show ?thesis using a b by simp
qed

lemma latches_sorted:
  assumes ws: "wf_store s" and wt: "wf_txn s t"
  obtains t' where "sort_accesses s t = Inr t'" "mset (acc_list t') = mset (acc_list t)"
    "row_cnt t' = row_cnt t" "length (acc_list t') = row_cnt t"
    "sorted_wrt (<) (map (\<lambda>a. access_key s (Some a)) (acc_list t'))"
proof -
  obtain ys where ys: "sort_accesses s t = Inr (t\<lparr>accesses := ys\<rparr>)" "length ys = length (accesses t)"
    "mset (acc_list (t\<lparr>accesses := ys\<rparr>)) = mset (acc_list t)"
    "\<forall>i < row_cnt t. ys ! i = Some (acc_list (t\<lparr>accesses := ys\<rparr>) ! i)"
    "sorted (map (access_key s) (take (row_cnt t) ys))"
    by (rule sort_accesses_ok [OF ws wt])
  define as where "as = acc_list (t\<lparr>accesses := ys\<rparr>)"
  have n: "row_cnt t \<le> length ys" using wt ys(2) by (simp add: wf_txn_def)
  have len: "length as = row_cnt t" using n by (simp add: as_def acc_list_def)
  have ok: "accs_ok s as"
    using accs_ok_mset [OF ys(3)] accs_ok_acc_list [OF ws wt] by (simp add: as_def)
  have "take (row_cnt t) ys = map Some as"
    using ys(4) n len by (intro nth_equalityI) (simp_all add: as_def)
  then have "sorted (map (\<lambda>a. access_key s (Some a)) as)" using ys(5) by (simp add: o_def)
  moreover have "distinct (map (\<lambda>a. access_key s (Some a)) as)"
    unfolding distinct_map
  proof
    show "distinct as" using accs_ok_distinct(1) [OF ok] by (simp add: distinct_map)
    show "inj_on (\<lambda>a. access_key s (Some a)) (set as)"
    proof (rule inj_onI)
      fix a b assume ab: "a \<in> set as" "b \<in> set as" "access_key s (Some a) = access_key s (Some b)"
      then have "orig_row a = orig_row b" by (rule access_key_inj [OF ws ok])
      then show "a = b"
        using accs_ok_distinct(1) [OF ok] ab(1,2) by (auto simp: distinct_map dest: inj_onD)
    qed
  qed
  ultimately have "sorted_wrt (<) (map (\<lambda>a. access_key s (Some a)) as)"
    by (simp add: strict_sorted_iff)
  then show ?thesis using that [OF ys(1)] ys(3) len by (simp add: as_def)
qed

lemma access_key_cong: "orig_row a = orig_row b \<Longrightarrow> access_key s (Some a) = access_key s (Some b)"
  by (simp add: access_key_def)

end
