(* ===== verification/Kv_Api.thy ===== *)
theory Kv_Api
  imports Txn
begin

text \<open>
  The key-value API the sessions call (\<open>Server/kv_api.h\<close>, \<open>kv_api.cpp\<close>): the transaction handle and
  \<open>begin_txn\<close>, \<open>get\<close>, \<open>put\<close>, \<open>commit\<close> and \<open>abort_txn\<close>. The engine's global state is the store and the
  transaction counter.
\<close>

section \<open>State\<close>

record engine =
  st :: store
  g_txn_id :: u64

text \<open>
  \<open>TxnContext\<close> owns the transaction and a \<open>thread_t\<close>, of which only the thread id is used;
  \<open>TxnHandle::impl\<close> points to it or is null.
\<close>

record TxnContext =
  ctx_txn :: txn_man
  thd_id :: u64

record TxnHandle =
  impl :: "TxnContext option"
  h_id :: u64

definition handle_init :: TxnHandle where
  "handle_init = \<lparr>impl = None, h_id = 0\<rparr>"

section \<open>Operations\<close>

definition begin_txn :: "engine \<Rightarrow> TxnHandle \<Rightarrow> Rc \<times> engine \<times> TxnHandle" where
  "begin_txn e h =
     (let (ts, s1) = get_ts (st e);
          ctx = \<lparr>ctx_txn = txn_init\<lparr>start_ts := ts\<rparr>, thd_id = 0\<rparr>
      in (Rc_OK, \<lparr>st = s1, g_txn_id = g_txn_id e + 1\<rparr>, h\<lparr>h_id := g_txn_id e, impl := Some ctx\<rparr>))"

definition get ::
    "(string \<Rightarrow> u64) \<Rightarrow> engine \<Rightarrow> TxnHandle \<Rightarrow> string \<Rightarrow> string \<Rightarrow>
     (Rc \<times> string \<times> engine \<times> TxnHandle) res" where
  "get hasher e h key value_out =
     (case impl h of
        None \<Rightarrow> Inr (Rc_ERROR, value_out, e, h)
      | Some ctx \<Rightarrow>
          R_bind (txn_Read hasher (st e) (ctx_txn ctx) key value_out) (\<lambda>(rc, v, s1, t1).
            Inr (if rc = RCOK then Rc_OK else Rc_NOT_FOUND, v, e\<lparr>st := s1\<rparr>,
                 h\<lparr>impl := Some (ctx\<lparr>ctx_txn := t1\<rparr>)\<rparr>)))"

definition put ::
    "(string \<Rightarrow> u64) \<Rightarrow> engine \<Rightarrow> TxnHandle \<Rightarrow> string \<Rightarrow> string \<Rightarrow> (Rc \<times> engine \<times> TxnHandle) res" where
  "put hasher e h key val =
     (case impl h of
        None \<Rightarrow> Inr (Rc_ERROR, e, h)
      | Some ctx \<Rightarrow>
          R_bind (txn_Write hasher (st e) (ctx_txn ctx) key val) (\<lambda>(rc, s1, t1).
            Inr (if rc = RCOK then Rc_OK else Rc_ERROR, e\<lparr>st := s1\<rparr>,
                 h\<lparr>impl := Some (ctx\<lparr>ctx_txn := t1\<rparr>)\<rparr>)))"

text \<open>The context is deleted and the pointer cleared; the transaction itself is never freed.\<close>

definition commit :: "engine \<Rightarrow> TxnHandle \<Rightarrow> (Rc \<times> engine \<times> TxnHandle) res" where
  "commit e h =
     (case impl h of
        None \<Rightarrow> Inr (Rc_ERROR, e, h)
      | Some ctx \<Rightarrow>
          R_bind (finish (st e) (ctx_txn ctx) RCOK) (\<lambda>(rc, s1, t1).
            Inr (if rc = RCOK \<or> rc = Commit then Rc_OK else Rc_ABORT, e\<lparr>st := s1\<rparr>,
                 h\<lparr>impl := None\<rparr>)))"

definition abort_txn :: "engine \<Rightarrow> TxnHandle \<Rightarrow> (Rc \<times> engine \<times> TxnHandle) res" where
  "abort_txn e h =
     (case impl h of
        None \<Rightarrow> Inr (Rc_ERROR, e, h)
      | Some ctx \<Rightarrow>
          R_bind (finish (st e) (ctx_txn ctx) Abort) (\<lambda>(rc, s1, t1).
            Inr (Rc_OK, e\<lparr>st := s1\<rparr>, h\<lparr>impl := None\<rparr>)))"

end
