(* ===== verification/System.thy ===== *)
theory System
  imports Validate Kv_Api
begin

text \<open>
  Several clients on one engine. \<open>api_step\<close> executes one call of the key-value API for one client,
  \<open>run\<close> a sequence of them: calls of different clients interleave in any order, each call is
  atomic. \<open>a_step\<close> is the same on the abstract protocol state (committed rows, clock, and for each
  client its local copies, start time and number of inserts). The refinement theorem: on
  well-formed systems every call allowed by \<open>a_ok\<close> returns, keeps the system well-formed and
  answers and moves exactly as \<open>a_step\<close> says.
\<close>

section \<open>The engine and its clients\<close>

record sys =
  eng :: engine
  handles :: "nat \<Rightarrow> TxnHandle"

datatype api_call =
    Begin_txn
  | Get string
  | Put string string
  | Commit_txn
  | Abort_txn

text \<open>The second component of the answer is what a \<open>get\<close> read.\<close>

fun api_step :: "(string \<Rightarrow> u64) \<Rightarrow> sys \<Rightarrow> nat \<Rightarrow> api_call \<Rightarrow> (Rc \<times> string \<times> sys) res" where
  "api_step hasher y c Begin_txn =
     (let (rc, e, h) = begin_txn (eng y) (handles y c)
      in Inr (rc, [], \<lparr>eng = e, handles = (handles y)(c := h)\<rparr>))"
| "api_step hasher y c (Get key) =
     R_bind (get hasher (eng y) (handles y c) key []) (\<lambda>(rc, v, e, h).
       Inr (rc, v, \<lparr>eng = e, handles = (handles y)(c := h)\<rparr>))"
| "api_step hasher y c (Put key val) =
     R_bind (put hasher (eng y) (handles y c) key val) (\<lambda>(rc, e, h).
       Inr (rc, [], \<lparr>eng = e, handles = (handles y)(c := h)\<rparr>))"
| "api_step hasher y c Commit_txn =
     R_bind (commit (eng y) (handles y c)) (\<lambda>(rc, e, h).
       Inr (rc, [], \<lparr>eng = e, handles = (handles y)(c := h)\<rparr>))"
| "api_step hasher y c Abort_txn =
     R_bind (abort_txn (eng y) (handles y c)) (\<lambda>(rc, e, h).
       Inr (rc, [], \<lparr>eng = e, handles = (handles y)(c := h)\<rparr>))"

type_synonym event = "nat \<times> api_call \<times> Rc \<times> string"

fun run :: "(string \<Rightarrow> u64) \<Rightarrow> sys \<Rightarrow> (nat \<times> api_call) list \<Rightarrow> (event list \<times> sys) res" where
  "run hasher y [] = Inr ([], y)"
| "run hasher y ((c, call) # cs) =
     R_bind (api_step hasher y c call) (\<lambda>(rc, v, y1).
     R_bind (run hasher y1 cs) (\<lambda>(evs, y2). Inr ((c, call, rc, v) # evs, y2)))"

section \<open>The abstract protocol\<close>

record atxn =
  at_acc :: aset
  at_start :: u64
  at_ins :: nat

record asys =
  a_db :: adb
  a_time :: u64
  a_next :: u64
  a_txns :: "nat \<Rightarrow> atxn option"

abbreviation set_txn :: "asys \<Rightarrow> nat \<Rightarrow> atxn option \<Rightarrow> asys" where
  "set_txn a c x \<equiv> a\<lparr>a_txns := (a_txns a)(c := x)\<rparr>"

fun a_step :: "(string \<Rightarrow> u64) \<Rightarrow> asys \<Rightarrow> nat \<Rightarrow> api_call \<Rightarrow> Rc \<times> string \<times> asys" where
  "a_step h a c Begin_txn =
     (Rc_OK, [], set_txn (a\<lparr>a_time := a_time a + 1, a_next := a_next a + 1\<rparr>) c
        (Some \<lparr>at_acc = Map.empty, at_start = a_time a, at_ins = 0\<rparr>))"
| "a_step h a c (Get key) =
     (case a_txns a c of
        None \<Rightarrow> (Rc_ERROR, [], a)
      | Some x \<Rightarrow>
          let (rc, v, acc) = a_read (a_db a) (at_acc x) (at_start x) (h key) key []
          in (if rc = RCOK then Rc_OK else Rc_NOT_FOUND, v, set_txn a c (Some (x\<lparr>at_acc := acc\<rparr>))))"
| "a_step h a c (Put key val) =
     (case a_txns a c of
        None \<Rightarrow> (Rc_ERROR, [], a)
      | Some x \<Rightarrow>
          if a_db a (h key) = None
          then let (db, acc) = a_insert (a_db a) (at_acc x) (h key) key val
               in (Rc_OK, [], set_txn (a\<lparr>a_db := db\<rparr>) c
                     (Some (x\<lparr>at_acc := acc, at_ins := Suc (at_ins x)\<rparr>)))
          else let (rc, acc) = a_update (a_db a) (at_acc x) (at_start x) (h key) key val
               in (if rc = RCOK then Rc_OK else Rc_ERROR, [], set_txn a c (Some (x\<lparr>at_acc := acc\<rparr>))))"
| "a_step h a c Commit_txn =
     (case a_txns a c of
        None \<Rightarrow> (Rc_ERROR, [], a)
      | Some x \<Rightarrow>
          if a_valid (a_db a) (at_acc x) (at_start x)
          then (Rc_OK, [], set_txn (a\<lparr>a_db := a_write_back (a_db a) (at_acc x) (a_time a),
                                    a_time := a_time a + 1\<rparr>) c None)
          else (Rc_ABORT, [], set_txn a c None))"
| "a_step h a c Abort_txn =
     (case a_txns a c of
        None \<Rightarrow> (Rc_ERROR, [], a)
      | Some x \<Rightarrow> (Rc_OK, [], set_txn a c None))"

text \<open>
  The calls the refinement covers: room in the access and insert arrays, a clock that does not
  wrap, and no rollback of a transaction that inserted rows (the code leaves a dangling index
  entry behind in that case).
\<close>

definition a_room :: "aset \<Rightarrow> u64 \<Rightarrow> bool" where
  "a_room acc pk \<longleftrightarrow> pk \<in> dom acc \<or> card (dom acc) < MAX_ROW_PER_TXN"

fun a_ok :: "(string \<Rightarrow> u64) \<Rightarrow> asys \<Rightarrow> nat \<Rightarrow> api_call \<Rightarrow> bool" where
  "a_ok h a c Begin_txn \<longleftrightarrow> a_time a + 1 \<noteq> 0"
| "a_ok h a c (Get key) \<longleftrightarrow> (\<forall>x. a_txns a c = Some x \<longrightarrow> a_room (at_acc x) (h key))"
| "a_ok h a c (Put key val) \<longleftrightarrow> (\<forall>x. a_txns a c = Some x \<longrightarrow> a_room (at_acc x) (h key) \<and>
     (a_db a (h key) = None \<longrightarrow> at_ins x < MAX_ROW_PER_TXN))"
| "a_ok h a c Commit_txn \<longleftrightarrow> a_time a + 1 \<noteq> 0 \<and> (\<forall>x. a_txns a c = Some x \<longrightarrow>
     at_ins x = 0 \<or> a_valid (a_db a) (at_acc x) (at_start x))"
| "a_ok h a c Abort_txn \<longleftrightarrow> (\<forall>x. a_txns a c = Some x \<longrightarrow> at_ins x = 0)"

fun a_run :: "(string \<Rightarrow> u64) \<Rightarrow> asys \<Rightarrow> (nat \<times> api_call) list \<Rightarrow> event list \<times> asys" where
  "a_run h a [] = ([], a)"
| "a_run h a ((c, call) # cs) =
     (let (rc, v, a1) = a_step h a c call; (evs, a2) = a_run h a1 cs
      in ((c, call, rc, v) # evs, a2))"

fun a_oks :: "(string \<Rightarrow> u64) \<Rightarrow> asys \<Rightarrow> (nat \<times> api_call) list \<Rightarrow> bool" where
  "a_oks h a [] \<longleftrightarrow> True"
| "a_oks h a ((c, call) # cs) \<longleftrightarrow>
     a_ok h a c call \<and> (let (rc, v, a1) = a_step h a c call in a_oks h a1 cs)"

section \<open>Abstraction and invariant\<close>

definition abs_txn :: "store \<Rightarrow> txn_man \<Rightarrow> atxn" where
  "abs_txn s t = \<lparr>at_acc = acc_view s t, at_start = start_ts t, at_ins = length (insert_rows t)\<rparr>"

definition abs_sys :: "sys \<Rightarrow> asys" where
  "abs_sys y = \<lparr>a_db = db_view (st (eng y)), a_time = timestamp (st (eng y)), a_next = g_txn_id (eng y),
     a_txns = (\<lambda>c. map_option (\<lambda>ctx. abs_txn (st (eng y)) (ctx_txn ctx)) (impl (handles y c)))\<rparr>"

definition wf_sys :: "sys \<Rightarrow> bool" where
  "wf_sys y \<longleftrightarrow> wf_store (st (eng y)) \<and>
     (\<forall>c ctx. impl (handles y c) = Some ctx \<longrightarrow> wf_txn (st (eng y)) (ctx_txn ctx)) \<and>
     (\<forall>c d ctx ctx'. c \<noteq> d \<longrightarrow> impl (handles y c) = Some ctx \<longrightarrow> impl (handles y d) = Some ctx' \<longrightarrow>
        owned (ctx_txn ctx) \<inter> owned (ctx_txn ctx') = {})"

lemma wf_sysD:
  assumes "wf_sys y"
  shows "wf_store (st (eng y))"
    and "impl (handles y c) = Some ctx \<Longrightarrow> wf_txn (st (eng y)) (ctx_txn ctx)"
    and "c \<noteq> d \<Longrightarrow> impl (handles y c) = Some ctx \<Longrightarrow> impl (handles y d) = Some ctx' \<Longrightarrow>
      owned (ctx_txn ctx) \<inter> owned (ctx_txn ctx') = {}"
  using assms unfolding wf_sys_def by blast+

lemma abs_sys_simps [simp]:
  "a_db (abs_sys y) = db_view (st (eng y))" "a_time (abs_sys y) = timestamp (st (eng y))"
  "a_next (abs_sys y) = g_txn_id (eng y)"
  "a_txns (abs_sys y) c = map_option (\<lambda>ctx. abs_txn (st (eng y)) (ctx_txn ctx)) (impl (handles y c))"
  by (simp_all add: abs_sys_def)

lemma asys_eqI:
  "a_db a = a_db b \<Longrightarrow> a_time a = a_time b \<Longrightarrow> a_next a = a_next b \<Longrightarrow>
   (\<And>c. a_txns a c = a_txns b c) \<Longrightarrow> (a :: asys) = b"
  by (rule asys.equality) auto

text \<open>
  The frame rule of the system: a step of client \<open>c\<close> that disturbs only what it owns keeps the
  invariant and the other clients' abstract transactions.
\<close>

definition own_of :: "TxnHandle \<Rightarrow> nat set" where
  "own_of h = (case impl h of None \<Rightarrow> {} | Some ctx \<Rightarrow> owned (ctx_txn ctx))"

lemma own_of_other:
  assumes "wf_sys y" and "d \<noteq> c" and "impl (handles y d) = Some ctx"
  shows "owned (ctx_txn ctx) \<inter> own_of (handles y c) = {}"
  using wf_sysD(3) [OF assms] by (cases "impl (handles y c)") (simp_all add: own_of_def)

lemma owned_below:
  assumes ws: "wf_store s" and wt: "wf_txn s t" and l: "l \<in> owned t"
  shows "l < next_row s"
proof -
  obtain i a where i: "i < row_cnt t" "accesses t ! i = Some a" "acc_data a = Some l"
    using l by (auto simp: owned_def)
  obtain b l' k v where b: "accesses t ! i = Some b" "acc_data b = Some l'" "local_row s l' k v"
    by (rule wf_txn_access [OF wt i(1)])
  then have "l' = l" using i by simp
  then show ?thesis using local_row_below [OF ws b(3)] by simp
qed

lemma sys_change:
  assumes wf: "wf_sys y" and ws': "wf_store s'"
    and fr: "frame (own_of (handles y c)) (st (eng y)) s'"
    and new: "\<forall>ctx. impl h' = Some ctx \<longrightarrow> wf_txn s' (ctx_txn ctx) \<and>
      owned (ctx_txn ctx) \<subseteq> own_of (handles y c) \<union> {r. next_row (st (eng y)) \<le> r}"
    and y': "y' = \<lparr>eng = \<lparr>st = s', g_txn_id = g\<rparr>, handles = (handles y)(c := h')\<rparr>"
  shows "wf_sys y'"
    and "abs_sys y' = \<lparr>a_db = db_view s', a_time = timestamp s', a_next = g,
      a_txns = (a_txns (abs_sys y))(c := map_option (\<lambda>ctx. abs_txn s' (ctx_txn ctx)) (impl h'))\<rparr>"
proof -
  let ?s = "st (eng y)"
  have kept: "wf_txn s' (ctx_txn ctx)" "acc_view s' (ctx_txn ctx) = acc_view ?s (ctx_txn ctx)"
    if "d \<noteq> c" "impl (handles y d) = Some ctx" for d ctx
    using frame_wf_txn [OF fr wf_sysD(1) [OF wf] wf_sysD(2) [OF wf that(2)] own_of_other [OF wf that]]
    by simp_all
  have apart: "owned (ctx_txn ctx) \<inter> owned (ctx_txn ctx') = {}"
    if d: "d \<noteq> c" "impl (handles y d) = Some ctx" and n: "impl h' = Some ctx'" for d ctx ctx'
  proof -
    have "l < next_row ?s" if "l \<in> owned (ctx_txn ctx)" for l
      using owned_below [OF wf_sysD(1) [OF wf] wf_sysD(2) [OF wf d(2)] that] .
    then show ?thesis using own_of_other [OF wf d] new [rule_format, OF n] by fastforce
  qed
  have impl: "impl (handles y' d) = (if d = c then impl h' else impl (handles y d))" for d
    by (simp add: y')
  have apart': "owned (ctx_txn ctx) \<inter> owned (ctx_txn ctx') = {}"
    if "d \<noteq> d'" "impl (handles y' d) = Some ctx" "impl (handles y' d') = Some ctx'" for d d' ctx ctx'
  proof -
    consider "d = c" "d' \<noteq> c" | "d \<noteq> c" "d' = c" | "d \<noteq> c" "d' \<noteq> c" using \<open>d \<noteq> d'\<close> by blast
    then show ?thesis
    proof cases
      case 1
      then show ?thesis using apart [of d' ctx' ctx] that impl by auto
    next
      case 2
      then show ?thesis using apart [of d ctx ctx'] that impl by auto
    next
      case 3
      then show ?thesis using wf_sysD(3) [OF wf that(1), of ctx ctx'] that impl by simp
    qed
  qed
  have "wf_txn s' (ctx_txn ctx)" if "impl (handles y' d) = Some ctx" for d ctx
    using that new kept by (cases "d = c") (auto simp: impl)
  then show "wf_sys y'"
    unfolding wf_sys_def using apart' ws' by (simp add: y')
  show "abs_sys y' = \<lparr>a_db = db_view s', a_time = timestamp s', a_next = g,
      a_txns = (a_txns (abs_sys y))(c := map_option (\<lambda>ctx. abs_txn s' (ctx_txn ctx)) (impl h'))\<rparr>"
  proof (rule asys_eqI)
    fix d
    show "a_txns (abs_sys y') d = a_txns \<lparr>a_db = db_view s', a_time = timestamp s', a_next = g,
      a_txns = (a_txns (abs_sys y))(c := map_option (\<lambda>ctx. abs_txn s' (ctx_txn ctx)) (impl h'))\<rparr> d"
    proof (cases "d = c")
      case True
      then show ?thesis by (simp add: y')
    next
      case False
      then show ?thesis
        using kept(2) [OF False] by (cases "impl (handles y d)") (simp_all add: y' abs_txn_def)
    qed
  qed (simp_all add: y')
qed

section \<open>Each call refines the abstract step\<close>

definition refines :: "(string \<Rightarrow> u64) \<Rightarrow> sys \<Rightarrow> nat \<Rightarrow> api_call \<Rightarrow> bool" where
  "refines h y c call \<longleftrightarrow> (\<exists>rc v y'. api_step h y c call = Inr (rc, v, y') \<and> wf_sys y' \<and>
     a_step h (abs_sys y) c call = (rc, v, abs_sys y'))"

lemma refinesI:
  "api_step h y c call = Inr (rc, v, y') \<Longrightarrow> wf_sys y' \<Longrightarrow>
   a_step h (abs_sys y) c call = (rc, v, abs_sys y') \<Longrightarrow> refines h y c call"
  unfolding refines_def by blast

lemma sys_eta [simp]: "\<lparr>eng = eng y, handles = (handles y)(c := handles y c)\<rparr> = (y :: sys)"
  by (cases y) simp

lemma set_txn_same: "a_txns a c = x \<Longrightarrow> set_txn a c x = (a :: asys)"
  by (cases a) auto

text \<open>Calls without an active transaction change nothing.\<close>

lemma refines_inactive:
  assumes "wf_sys y" and "impl (handles y c) = None" and "call \<noteq> Begin_txn"
  shows "refines h y c call"
proof -
  have "api_step h y c call = Inr (Rc_ERROR, [], y) \<and> a_step h (abs_sys y) c call = (Rc_ERROR, [], abs_sys y)"
    using assms by (cases call) (simp_all add: get_def put_def commit_def abort_txn_def)
  then show ?thesis using assms(1) unfolding refines_def by blast
qed

lemma refines_begin:
  assumes wf: "wf_sys y" and nowrap: "timestamp (st (eng y)) + 1 \<noteq> 0"
  shows "refines h y c Begin_txn"
proof -
  let ?s = "st (eng y)"
  let ?s' = "?s\<lparr>timestamp := timestamp ?s + 1\<rparr>"
  let ?ctx = "\<lparr>ctx_txn = txn_init\<lparr>start_ts := timestamp ?s\<rparr>, thd_id = 0\<rparr>"
  let ?h = "(handles y c)\<lparr>h_id := g_txn_id (eng y), impl := Some ?ctx\<rparr>"
  have less: "timestamp ?s < timestamp ?s + 1" by (rule u64_less_Suc [OF nowrap])
  note ws = wf_sysD(1) [OF wf]
  have view: "db_view ?s' = db_view ?s"
    by (simp add: db_view_def fun_eq_iff row_view_def [abs_def])
  have sh: "shared_row ?s' r pk k v w = shared_row ?s r pk k v w" for r pk k v w
    by (simp add: shared_row_def)
  have ws': "wf_store ?s'"
  proof -
    have "\<exists>k v w. shared_row ?s r pk k v w \<and> w < timestamp ?s + 1" if "idx_row ?s pk = Some r" for pk r
      using wf_storeD(2) [OF ws that] less less_trans by blast
    then show ?thesis
      using ws less less_trans [OF wf_storeD(4) [OF ws] less] sh
      by (simp add: wf_store_def)
  qed
  have fr: "frame own ?s ?s'" for own using less by (simp add: frame_def less_imp_le)
  have empty: "owned (txn_init\<lparr>start_ts := x\<rparr>) = {}" "acc_view ?s' (txn_init\<lparr>start_ts := x\<rparr>) = Map.empty" for x
    by (simp_all add: owned_def txn_init_def acc_view_def fun_eq_iff)
  have abs: "abs_txn ?s' (ctx_txn ?ctx) = \<lparr>at_acc = Map.empty, at_start = timestamp ?s, at_ins = 0\<rparr>"
    by (simp add: abs_txn_def empty(2)) (simp add: txn_init_def)
  have wt: "wf_txn ?s' (ctx_txn ?ctx)" using less by (simp add: wf_txn_def txn_init_def)
  have new: "\<forall>ctx. impl ?h = Some ctx \<longrightarrow> wf_txn ?s' (ctx_txn ctx) \<and>
      owned (ctx_txn ctx) \<subseteq> own_of (handles y c) \<union> {r. next_row ?s \<le> r}"
    using wt empty(1) by auto
  note ch = sys_change [OF wf ws' fr new refl, where g = "g_txn_id (eng y) + 1"]
  show ?thesis
  proof (rule refinesI [OF _ ch(1)])
    show "api_step h y c Begin_txn = Inr (Rc_OK, [], \<lparr>eng = \<lparr>st = ?s', g_txn_id = g_txn_id (eng y) + 1\<rparr>,
        handles = (handles y)(c := ?h)\<rparr>)"
      by (simp add: begin_txn_def get_ts_def Let_def)
    show "a_step h (abs_sys y) c Begin_txn = (Rc_OK, [], abs_sys \<lparr>eng = \<lparr>st = ?s', g_txn_id = g_txn_id (eng y) + 1\<rparr>,
        handles = (handles y)(c := ?h)\<rparr>)"
      unfolding ch(2) using abs by (simp add: view abs_sys_def)
  qed
qed

lemma room_row_cnt:
  assumes "wf_store s" and "wf_txn s t" and "a_room (acc_view s t) pk"
    and "acc_view s t pk = None"
  shows "row_cnt t < MAX_ROW_PER_TXN"
  using assms(3,4) row_cnt_card [OF assms(1,2)] by (auto simp: a_room_def)

lemma active_change:
  assumes wf: "wf_sys y" and c: "impl (handles y c) = Some ctx"
    and eff: "effect (st (eng y)) (ctx_txn ctx) s' t'"
    and y': "y' = \<lparr>eng = (eng y)\<lparr>st := s'\<rparr>,
      handles = (handles y)(c := (handles y c)\<lparr>impl := Some (ctx\<lparr>ctx_txn := t'\<rparr>)\<rparr>)\<rparr>"
  shows "wf_sys y'" and "abs_sys y' = (abs_sys y)\<lparr>a_db := db_view s', a_time := timestamp s',
      a_txns := (a_txns (abs_sys y))(c := Some (abs_txn s' t'))\<rparr>"
proof -
  let ?h' = "(handles y c)\<lparr>impl := Some (ctx\<lparr>ctx_txn := t'\<rparr>)\<rparr>"
  have own: "own_of (handles y c) = owned (ctx_txn ctx)" by (simp add: own_of_def c)
  have ws': "wf_store s'" and wt': "wf_txn s' t'"
    and fr: "frame (own_of (handles y c)) (st (eng y)) s'"
    and o: "owned t' \<subseteq> own_of (handles y c) \<union> {r. next_row (st (eng y)) \<le> r}"
    using eff by (simp_all add: effect_def own)
  have new: "\<forall>ctx'. impl ?h' = Some ctx' \<longrightarrow> wf_txn s' (ctx_txn ctx') \<and> owned (ctx_txn ctx') \<subseteq> own_of (handles y c) \<union> {r. next_row (st (eng y)) \<le> r}"
    using wt' o by auto
  have y2: "y' = \<lparr>eng = \<lparr>st = s', g_txn_id = g_txn_id (eng y)\<rparr>, handles = (handles y)(c := ?h')\<rparr>"
    unfolding y' by (cases "eng y") simp
  note ch = sys_change [OF wf ws' fr new y2]
  show "wf_sys y'" by (rule ch(1))
  show "abs_sys y' = (abs_sys y)\<lparr>a_db := db_view s', a_time := timestamp s',
      a_txns := (a_txns (abs_sys y))(c := Some (abs_txn s' t'))\<rparr>"
    unfolding ch(2) by (simp add: abs_sys_def)
qed

lemma ended_change:
  assumes wf: "wf_sys y" and c: "impl (handles y c) = Some ctx"
    and ws': "wf_store s'" and fr: "frame (owned (ctx_txn ctx)) (st (eng y)) s'"
    and y': "y' = \<lparr>eng = (eng y)\<lparr>st := s'\<rparr>, handles = (handles y)(c := (handles y c)\<lparr>impl := None\<rparr>)\<rparr>"
  shows "wf_sys y'" and "abs_sys y' = (abs_sys y)\<lparr>a_db := db_view s', a_time := timestamp s',
      a_txns := (a_txns (abs_sys y))(c := None)\<rparr>"
proof -
  let ?h' = "(handles y c)\<lparr>impl := None\<rparr>"
  have fr': "frame (own_of (handles y c)) (st (eng y)) s'" using fr by (simp add: own_of_def c)
  have new: "\<forall>ctx'. impl ?h' = Some ctx' \<longrightarrow> wf_txn s' (ctx_txn ctx') \<and> owned (ctx_txn ctx') \<subseteq> own_of (handles y c) \<union> {r. next_row (st (eng y)) \<le> r}"
    by simp
  have y2: "y' = \<lparr>eng = \<lparr>st = s', g_txn_id = g_txn_id (eng y)\<rparr>, handles = (handles y)(c := ?h')\<rparr>"
    unfolding y' by (cases "eng y") simp
  note ch = sys_change [OF wf ws' fr' new y2]
  show "wf_sys y'" by (rule ch(1))
  show "abs_sys y' = (abs_sys y)\<lparr>a_db := db_view s', a_time := timestamp s',
      a_txns := (a_txns (abs_sys y))(c := None)\<rparr>"
    unfolding ch(2) by (simp add: abs_sys_def)
qed

lemma refines_get:
  assumes wf: "wf_sys y" and c: "impl (handles y c) = Some ctx"
    and room: "a_room (acc_view (st (eng y)) (ctx_txn ctx)) (h key)"
  shows "refines h y c (Get key)"
proof -
  let ?s = "st (eng y)" and ?t = "ctx_txn ctx"
  note ws = wf_sysD(1) [OF wf] and wt = wf_sysD(2) [OF wf c]
  obtain rc v s' t' where r: "txn_Read h ?s ?t key [] = Inr (rc, v, s', t')" "effect ?s ?t s' t'"
    "quiet ?s s'" "insert_rows t' = insert_rows ?t"
    "a_read (db_view ?s) (acc_view ?s ?t) (start_ts ?t) (h key) key [] = (rc, v, acc_view s' t')"
    using txn_Read_spec [OF ws wt, of h key "[]"] room_row_cnt [OF ws wt room] by blast
  note ch = active_change [OF wf c r(2) refl]
  have st: "start_ts t' = start_ts ?t" using r(2) by (simp add: effect_def)
  show ?thesis
  proof (rule refinesI [OF _ ch(1)])
    show "api_step h y c (Get key) = Inr (if rc = RCOK then Rc_OK else Rc_NOT_FOUND, v,
        \<lparr>eng = (eng y)\<lparr>st := s'\<rparr>, handles = (handles y)(c := (handles y c)\<lparr>impl := Some (ctx\<lparr>ctx_txn := t'\<rparr>)\<rparr>)\<rparr>)"
      by (simp add: get_def c r(1))
    show "a_step h (abs_sys y) c (Get key) = (if rc = RCOK then Rc_OK else Rc_NOT_FOUND, v, abs_sys
        \<lparr>eng = (eng y)\<lparr>st := s'\<rparr>, handles = (handles y)(c := (handles y c)\<lparr>impl := Some (ctx\<lparr>ctx_txn := t'\<rparr>)\<rparr>)\<rparr>)"
      unfolding ch(2) using r(3,4,5) st c by (simp add: abs_txn_def quiet_def abs_sys_def)
  qed
qed

lemma txn_Write_spec:
  assumes ws: "wf_store s" and wt: "wf_txn s t"
    and room: "acc_view s t (h key) = None \<Longrightarrow> row_cnt t < MAX_ROW_PER_TXN"
  shows "db_view s (h key) \<noteq> None \<Longrightarrow>
      \<exists>rc s' t'. txn_Write h s t key val = Inr (rc, s', t') \<and> effect s t s' t' \<and> quiet s s' \<and>
        insert_rows t' = insert_rows t \<and>
        a_update (db_view s) (acc_view s t) (start_ts t) (h key) key val = (rc, acc_view s' t')"
    and "db_view s (h key) = None \<Longrightarrow> length (insert_rows t) < MAX_ROW_PER_TXN \<Longrightarrow>
      \<exists>s' t'. txn_Write h s t key val = Inr (RCOK, s', t') \<and> effect s t s' t' \<and>
        timestamp s' = timestamp s \<and> idx_row s' (h key) = Some (next_row s) \<and>
        insert_rows t' = insert_rows t @ [next_row s] \<and>
        (db_view s', acc_view s' t') = a_insert (db_view s) (acc_view s t) (h key) key val"
proof -
  let ?pk = "h key"
  obtain ix where ix: "indexes s ''Data_INDEX'' = Some ix" "deref_index s ''Data_INDEX'' = Inr ix"
    "\<forall>pk. \<exists>it. index_read ix pk 0 = Inr it \<and> idx_row s pk = Option.bind it location \<and>
       (it = None \<longleftrightarrow> idx_row s pk = None)"
    by (rule wf_store_index [OF ws])
  obtain it where it: "index_read ix ?pk 0 = Inr it" "idx_row s ?pk = Option.bind it location"
    "it = None \<longleftrightarrow> idx_row s ?pk = None"
    using ix(3) by blast
  show "\<exists>rc s' t'. txn_Write h s t key val = Inr (rc, s', t') \<and> effect s t s' t' \<and> quiet s s' \<and>
        insert_rows t' = insert_rows t \<and>
        a_update (db_view s) (acc_view s t) (start_ts t) ?pk key val = (rc, acc_view s' t')"
    if "db_view s ?pk \<noteq> None"
  proof -
    have "idx_row s ?pk \<noteq> None" using that db_view_None_iff [OF ws] by simp
    then obtain m r where m: "it = Some m" "location m = Some r" "idx_row s ?pk = Some r"
      using it(2,3) by (cases it) auto
    then have "txn_Write h s t key val = txn_update s t m key val"
      using ix(2) it(1) by (simp add: txn_Write_def hash_key_def txn_index_read_def)
    then show ?thesis using txn_update_spec [OF ws wt m(2,3) room] by simp
  qed
  show "\<exists>s' t'. txn_Write h s t key val = Inr (RCOK, s', t') \<and> effect s t s' t' \<and>
        timestamp s' = timestamp s \<and> idx_row s' (h key) = Some (next_row s) \<and>
        insert_rows t' = insert_rows t @ [next_row s] \<and>
        (db_view s', acc_view s' t') = a_insert (db_view s) (acc_view s t) ?pk key val"
    if "db_view s ?pk = None" "length (insert_rows t) < MAX_ROW_PER_TXN"
  proof -
    note room2 = that(2)
    have no: "idx_row s ?pk = None" using that(1) db_view_None_iff [OF ws] by simp
    then have "it = None" using it(3) by simp
    then have eq: "txn_Write h s t key val = txn_insert s t ix ?pk key val"
      using ix(2) it(1) by (simp add: txn_Write_def hash_key_def txn_index_read_def)
    have "record_pos t ?pk = None"
      using no by (cases "record_pos t ?pk") (auto elim: wf_txn_record [OF wt])
    then have "row_cnt t < MAX_ROW_PER_TXN" using room acc_view_None_iff [OF wt] by simp
    then obtain s' t' where "txn_insert s t ix ?pk key val = Inr (RCOK, s', t')" "effect s t s' t'"
      "timestamp s' = timestamp s" "idx_row s' = (idx_row s)(?pk \<mapsto> next_row s)"
      "insert_rows t' = insert_rows t @ [next_row s]"
      "(db_view s', acc_view s' t') = a_insert (db_view s) (acc_view s t) ?pk key val"
      using txn_insert_spec [OF ws wt no ix(1) _ room2] by blast
    then show ?thesis using eq by (intro exI [of _ s'] exI [of _ t']) simp
  qed
qed

lemma refines_put:
  assumes wf: "wf_sys y" and c: "impl (handles y c) = Some ctx"
    and room: "a_room (acc_view (st (eng y)) (ctx_txn ctx)) (h key)"
    and ins: "db_view (st (eng y)) (h key) = None \<Longrightarrow> length (insert_rows (ctx_txn ctx)) < MAX_ROW_PER_TXN"
  shows "refines h y c (Put key val)"
proof -
  let ?s = "st (eng y)" and ?t = "ctx_txn ctx"
  note ws = wf_sysD(1) [OF wf] and wt = wf_sysD(2) [OF wf c]
  note wr = txn_Write_spec [OF ws wt room_row_cnt [OF ws wt room], where val = val]
  show ?thesis
  proof (cases "db_view ?s (h key)")
    case None
    then obtain s' t' where r: "txn_Write h ?s ?t key val = Inr (RCOK, s', t')" "effect ?s ?t s' t'"
      "timestamp s' = timestamp ?s" "insert_rows t' = insert_rows ?t @ [next_row ?s]"
      "(db_view s', acc_view s' t') = a_insert (db_view ?s) (acc_view ?s ?t) (h key) key val"
      using wr(2) ins by blast
    note ch = active_change [OF wf c r(2) refl]
    have st: "start_ts t' = start_ts ?t" using r(2) by (simp add: effect_def)
    show ?thesis
    proof (rule refinesI [OF _ ch(1)])
      show "api_step h y c (Put key val) = Inr (Rc_OK, [],
          \<lparr>eng = (eng y)\<lparr>st := s'\<rparr>, handles = (handles y)(c := (handles y c)\<lparr>impl := Some (ctx\<lparr>ctx_txn := t'\<rparr>)\<rparr>)\<rparr>)"
        by (simp add: put_def c r(1))
      show "a_step h (abs_sys y) c (Put key val) = (Rc_OK, [], abs_sys
          \<lparr>eng = (eng y)\<lparr>st := s'\<rparr>, handles = (handles y)(c := (handles y c)\<lparr>impl := Some (ctx\<lparr>ctx_txn := t'\<rparr>)\<rparr>)\<rparr>)"
        unfolding ch(2) using r(3,4) r(5) [symmetric] st c None
        by (simp add: abs_txn_def abs_sys_def)
    qed
  next
    case (Some row)
    then obtain rc s' t' where r: "txn_Write h ?s ?t key val = Inr (rc, s', t')" "effect ?s ?t s' t'"
      "quiet ?s s'" "insert_rows t' = insert_rows ?t"
      "a_update (db_view ?s) (acc_view ?s ?t) (start_ts ?t) (h key) key val = (rc, acc_view s' t')"
      using wr(1) by blast
    note ch = active_change [OF wf c r(2) refl]
    have st: "start_ts t' = start_ts ?t" using r(2) by (simp add: effect_def)
    show ?thesis
    proof (rule refinesI [OF _ ch(1)])
      show "api_step h y c (Put key val) = Inr (if rc = RCOK then Rc_OK else Rc_ERROR, [],
          \<lparr>eng = (eng y)\<lparr>st := s'\<rparr>, handles = (handles y)(c := (handles y c)\<lparr>impl := Some (ctx\<lparr>ctx_txn := t'\<rparr>)\<rparr>)\<rparr>)"
        by (simp add: put_def c r(1))
      show "a_step h (abs_sys y) c (Put key val) = (if rc = RCOK then Rc_OK else Rc_ERROR, [], abs_sys
          \<lparr>eng = (eng y)\<lparr>st := s'\<rparr>, handles = (handles y)(c := (handles y c)\<lparr>impl := Some (ctx\<lparr>ctx_txn := t'\<rparr>)\<rparr>)\<rparr>)"
        unfolding ch(2) using r(3,4,5) st c Some
        by (simp add: abs_txn_def quiet_def abs_sys_def)
    qed
  qed
qed

lemma refines_commit:
  assumes wf: "wf_sys y" and c: "impl (handles y c) = Some ctx"
    and nowrap: "timestamp (st (eng y)) + 1 \<noteq> 0"
    and ins: "insert_rows (ctx_txn ctx) = [] \<or>
      a_valid (db_view (st (eng y))) (acc_view (st (eng y)) (ctx_txn ctx)) (start_ts (ctx_txn ctx))"
  shows "refines h y c Commit_txn"
proof -
  let ?s = "st (eng y)" and ?t = "ctx_txn ctx"
  note ws = wf_sysD(1) [OF wf] and wt = wf_sysD(2) [OF wf c]
  show ?thesis
  proof (cases "a_valid (db_view ?s) (acc_view ?s ?t) (start_ts ?t)")
    case True
    obtain s' t' where f: "finish ?s ?t RCOK = Inr (RCOK, s', t')" "committed ?s ?t s'"
      using finish_commit_ok [OF ws wt nowrap True] by blast
    then have cs: "wf_store s'" "db_view s' = a_write_back (db_view ?s) (acc_view ?s ?t) (timestamp ?s)"
      "frame (owned ?t) ?s s'" "timestamp s' = timestamp ?s + 1"
      by (simp_all add: committed_def)
    note ch = ended_change [OF wf c cs(1,3) refl]
    show ?thesis
    proof (rule refinesI [OF _ ch(1)])
      show "api_step h y c Commit_txn = Inr (Rc_OK, [], \<lparr>eng = (eng y)\<lparr>st := s'\<rparr>,
          handles = (handles y)(c := (handles y c)\<lparr>impl := None\<rparr>)\<rparr>)"
        by (simp add: commit_def c f(1))
      show "a_step h (abs_sys y) c Commit_txn = (Rc_OK, [], abs_sys \<lparr>eng = (eng y)\<lparr>st := s'\<rparr>,
          handles = (handles y)(c := (handles y c)\<lparr>impl := None\<rparr>)\<rparr>)"
        unfolding ch(2) using True cs c by (simp add: abs_txn_def abs_sys_def)
    qed
  next
    case False
    then have no: "insert_rows ?t = []" using ins by blast
    obtain s' t' where f: "finish ?s ?t RCOK = Inr (Abort, s', t')" "undone ?s ?t s'"
      using finish_invalid_ok [OF ws wt no False] by blast
    then have cs: "wf_store s'" "db_view s' = db_view ?s" "frame (owned ?t) ?s s'" "timestamp s' = timestamp ?s"
      by (simp_all add: undone_def)
    note ch = ended_change [OF wf c cs(1,3) refl]
    show ?thesis
    proof (rule refinesI [OF _ ch(1)])
      show "api_step h y c Commit_txn = Inr (Rc_ABORT, [], \<lparr>eng = (eng y)\<lparr>st := s'\<rparr>,
          handles = (handles y)(c := (handles y c)\<lparr>impl := None\<rparr>)\<rparr>)"
        by (simp add: commit_def c f(1))
      show "a_step h (abs_sys y) c Commit_txn = (Rc_ABORT, [], abs_sys \<lparr>eng = (eng y)\<lparr>st := s'\<rparr>,
          handles = (handles y)(c := (handles y c)\<lparr>impl := None\<rparr>)\<rparr>)"
        unfolding ch(2) using False cs c by (simp add: abs_txn_def abs_sys_def)
    qed
  qed
qed

lemma refines_abort:
  assumes wf: "wf_sys y" and c: "impl (handles y c) = Some ctx"
    and no: "insert_rows (ctx_txn ctx) = []"
  shows "refines h y c Abort_txn"
proof -
  let ?s = "st (eng y)" and ?t = "ctx_txn ctx"
  note ws = wf_sysD(1) [OF wf] and wt = wf_sysD(2) [OF wf c]
  obtain s' t' where f: "finish ?s ?t Abort = Inr (Abort, s', t')" "undone ?s ?t s'"
    using finish_abort_ok [OF ws wt no] by blast
  then have cs: "wf_store s'" "db_view s' = db_view ?s" "frame (owned ?t) ?s s'" "timestamp s' = timestamp ?s"
    by (simp_all add: undone_def)
  note ch = ended_change [OF wf c cs(1,3) refl]
  show ?thesis
  proof (rule refinesI [OF _ ch(1)])
    show "api_step h y c Abort_txn = Inr (Rc_OK, [], \<lparr>eng = (eng y)\<lparr>st := s'\<rparr>,
        handles = (handles y)(c := (handles y c)\<lparr>impl := None\<rparr>)\<rparr>)"
      by (simp add: abort_txn_def c f(1))
    show "a_step h (abs_sys y) c Abort_txn = (Rc_OK, [], abs_sys \<lparr>eng = (eng y)\<lparr>st := s'\<rparr>,
        handles = (handles y)(c := (handles y c)\<lparr>impl := None\<rparr>)\<rparr>)"
      unfolding ch(2) using cs c by (simp add: abs_txn_def abs_sys_def)
  qed
qed

section \<open>Refinement\<close>

lemma api_step_ok:
  assumes wf: "wf_sys y" and ok: "a_ok h (abs_sys y) c call"
  shows "refines h y c call"
proof (cases "impl (handles y c)")
  case None
  then show ?thesis
    using refines_inactive [OF wf None] refines_begin [OF wf] ok by (cases call) auto
next
  case (Some ctx)
  note ops = refines_begin [OF wf] refines_get [OF wf Some] refines_put [OF wf Some]
    refines_commit [OF wf Some] refines_abort [OF wf Some]
  show ?thesis
    using ok ops Some by (cases call) (auto simp: abs_txn_def)
qed

lemma run_ok:
  assumes "wf_sys y" and "a_oks h (abs_sys y) cs"
  shows "\<exists>evs y'. run h y cs = Inr (evs, y') \<and> wf_sys y' \<and> a_run h (abs_sys y) cs = (evs, abs_sys y')"
  using assms
proof (induction cs arbitrary: y)
  case Nil
  then show ?case by simp
next
  case (Cons x cs)
  obtain c call where x: "x = (c, call)" by (cases x)
  with Cons.prems have "a_ok h (abs_sys y) c call" by simp
  then obtain rc v y1 where s: "api_step h y c call = Inr (rc, v, y1)" "wf_sys y1"
    "a_step h (abs_sys y) c call = (rc, v, abs_sys y1)"
    using api_step_ok [OF Cons.prems(1)] unfolding refines_def by blast
  then have "a_oks h (abs_sys y1) cs" using Cons.prems(2) x by simp
  from Cons.IH [OF s(2) this] show ?case using s x by auto
qed

end
