(* ===== verification/Serializability.thy ===== *)
theory Serializability
  imports System
begin

text \<open>
  What the interleaved execution means for the clients. A history records the successful reads and
  writes of every transaction; replaying the committed ones one after the other, in the order of
  their commits, gives every read the value it returned and ends in the committed database. This
  holds for histories of reads and updates of existing keys; an insert is visible before its
  transaction commits.
\<close>

section \<open>Serial executions\<close>

datatype op = Rd string string | Wr string string

type_synonym content = "u64 \<Rightarrow> (string \<times> string) option"

definition content :: "adb \<Rightarrow> content" where
  "content db pk = map_option (\<lambda>row. (a_key row, a_val row)) (db pk)"

fun serial_op :: "(string \<Rightarrow> u64) \<Rightarrow> op \<Rightarrow> content \<Rightarrow> content option" where
  "serial_op h (Rd key v) d =
     (case d (h key) of
        None \<Rightarrow> None
      | Some (k, v') \<Rightarrow> if k = c_str key \<and> v' = v then Some d else None)"
| "serial_op h (Wr key val) d =
     (case d (h key) of
        None \<Rightarrow> None
      | Some (k, v') \<Rightarrow> if k = c_str key then Some (d(h key \<mapsto> (k, trunc_val val))) else None)"

fun serial_run :: "(string \<Rightarrow> u64) \<Rightarrow> op list \<Rightarrow> content \<Rightarrow> content option" where
  "serial_run h [] d = Some d"
| "serial_run h (x # xs) d = Option.bind (serial_op h x d) (serial_run h xs)"

lemma serial_run_append:
  "serial_run h (xs @ ys) d = Option.bind (serial_run h xs d) (serial_run h ys)"
proof (induction xs arbitrary: d)
  case (Cons x xs)
  then show ?case by (cases "serial_op h x d") simp_all
qed simp

section \<open>Histories\<close>

text \<open>The successful operations of each running transaction, and those of the committed ones.\<close>

record hist =
  opened :: "nat \<Rightarrow> op list"
  closed :: "op list list"

definition hist_init :: hist where
  "hist_init = \<lparr>opened = (\<lambda>_. []), closed = []\<rparr>"

fun observe :: "hist \<Rightarrow> event \<Rightarrow> hist" where
  "observe H (c, Begin_txn, rc, v) = H\<lparr>opened := (opened H)(c := [])\<rparr>"
| "observe H (c, Get key, rc, v) =
     (if rc = Rc_OK then H\<lparr>opened := (opened H)(c := opened H c @ [Rd key v])\<rparr> else H)"
| "observe H (c, Put key val, rc, v) =
     (if rc = Rc_OK then H\<lparr>opened := (opened H)(c := opened H c @ [Wr key val])\<rparr> else H)"
| "observe H (c, Commit_txn, rc, v) =
     (if rc = Rc_OK then H\<lparr>opened := (opened H)(c := []), closed := closed H @ [opened H c]\<rparr>
      else H\<lparr>opened := (opened H)(c := [])\<rparr>)"
| "observe H (c, Abort_txn, rc, v) = H\<lparr>opened := (opened H)(c := [])\<rparr>"

definition committed_ops :: "event list \<Rightarrow> op list" where
  "committed_ops evs = concat (closed (foldl observe hist_init evs))"

section \<open>The invariant\<close>

definition overlay :: "content \<Rightarrow> aset \<Rightarrow> content" where
  "overlay d acc = (\<lambda>pk. case acc pk of Some l \<Rightarrow> if aw l then Some (ak l, av l) else d pk | None \<Rightarrow> d pk)"

text \<open>
  A local copy agrees with the committed row it was taken from as long as that row is no newer
  than the transaction, except for the value of a write.
\<close>

definition copies_ok :: "adb \<Rightarrow> atxn \<Rightarrow> bool" where
  "copies_ok db x \<longleftrightarrow> (\<forall>pk l. at_acc x pk = Some l \<longrightarrow> (\<exists>row. db pk = Some row \<and>
     (a_wts row \<le> at_start x \<longrightarrow> ak l = a_key row \<and> (\<not> aw l \<longrightarrow> av l = a_val row))))"

text \<open>
  As long as a transaction is valid, its operations so far can be replayed on every database that
  agrees with the committed one on the keys it has accessed, and lead to its local copies.
\<close>

definition replays :: "(string \<Rightarrow> u64) \<Rightarrow> adb \<Rightarrow> op list \<Rightarrow> atxn \<Rightarrow> bool" where
  "replays h db ops x \<longleftrightarrow> (a_valid db (at_acc x) (at_start x) \<longrightarrow>
     (\<forall>d. (\<forall>pk \<in> dom (at_acc x). d pk = content db pk) \<longrightarrow>
        serial_run h ops d = Some (overlay d (at_acc x))))"

definition good_txn :: "(string \<Rightarrow> u64) \<Rightarrow> asys \<Rightarrow> op list \<Rightarrow> atxn \<Rightarrow> bool" where
  "good_txn h a ops x \<longleftrightarrow> at_start x < a_time a \<and> copies_ok (a_db a) x \<and> replays h (a_db a) ops x"

definition good :: "(string \<Rightarrow> u64) \<Rightarrow> asys \<Rightarrow> hist \<Rightarrow> bool" where
  "good h a H \<longleftrightarrow> (\<forall>c x. a_txns a c = Some x \<longrightarrow> good_txn h a (opened H c) x)"

lemma overlay_empty [simp]: "overlay d Map.empty = d"
  by (simp add: overlay_def)

text \<open>One more access, by a read or by a write, keeps the copies and what can be replayed.\<close>

lemma a_access_good:
  assumes good: "copies_ok db x" "replays h db ops x"
    and acc: "a_access db (at_acc x) (at_start x) pk wr = Some acc'"
  shows "copies_ok db (x\<lparr>at_acc := acc'\<rparr>)" and "replays h db ops (x\<lparr>at_acc := acc'\<rparr>)"
    and "dom acc' = insert pk (dom (at_acc x))"
proof -
  show dom: "dom acc' = insert pk (dom (at_acc x))"
    using acc by (auto simp: a_access_def split: option.splits if_splits)
  have other: "acc' q = at_acc x q" if "q \<noteq> pk" for q
    using acc that by (auto simp: a_access_def split: option.splits if_splits)
  have at: "\<exists>l row. acc' pk = Some l \<and> db pk = Some row \<and>
      (a_wts row \<le> at_start x \<longrightarrow> ak l = a_key row \<and>
        ((\<not> aw l \<or> (\<forall>l0. at_acc x pk = Some l0 \<longrightarrow> \<not> aw l0)) \<longrightarrow> av l = a_val row) \<and>
        (\<forall>l0. at_acc x pk = Some l0 \<longrightarrow> av l = av l0 \<and> (aw l0 \<longrightarrow> aw l)))"
  proof (cases "at_acc x pk")
    case None
    then show ?thesis
      using acc by (auto simp: a_access_def split: option.splits if_splits)
  next
    case (Some l0)
    then obtain row where "db pk = Some row"
      "a_wts row \<le> at_start x \<longrightarrow> ak l0 = a_key row \<and> (\<not> aw l0 \<longrightarrow> av l0 = a_val row)"
      using good(1) unfolding copies_ok_def by blast
    then show ?thesis using acc Some by (auto simp: a_access_def)
  qed
  show "copies_ok db (x\<lparr>at_acc := acc'\<rparr>)"
    unfolding copies_ok_def
  proof (intro allI impI)
    fix q l assume l: "at_acc (x\<lparr>at_acc := acc'\<rparr>) q = Some l"
    show "\<exists>row. db q = Some row \<and> (a_wts row \<le> at_start (x\<lparr>at_acc := acc'\<rparr>) \<longrightarrow>
        ak l = a_key row \<and> (\<not> aw l \<longrightarrow> av l = a_val row))"
    proof (cases "q = pk")
      case True
      then show ?thesis using at l by auto
    next
      case False
      then have "at_acc x q = Some l" using l other by simp
      then show ?thesis using good(1) unfolding copies_ok_def by simp
    qed
  qed
  show "replays h db ops (x\<lparr>at_acc := acc'\<rparr>)"
    unfolding replays_def
  proof (intro impI allI)
    fix d
    assume v: "a_valid db (at_acc (x\<lparr>at_acc := acc'\<rparr>)) (at_start (x\<lparr>at_acc := acc'\<rparr>))"
      and d: "\<forall>q \<in> dom (at_acc (x\<lparr>at_acc := acc'\<rparr>)). d q = content db q"
    have v0: "a_valid db (at_acc x) (at_start x)" using v dom by (simp add: a_valid_def)
    have "serial_run h ops d = Some (overlay d (at_acc x))"
      using good(2) v0 d dom by (simp add: replays_def)
    moreover have "overlay d (at_acc x) = overlay d acc'"
    proof
      fix q
      show "overlay d (at_acc x) q = overlay d acc' q"
      proof (cases "q = pk")
        case False
        then show ?thesis using other by (simp add: overlay_def)
      next
        case True
        obtain l row where l: "acc' pk = Some l" "db pk = Some row"
          "a_wts row \<le> at_start x \<longrightarrow> ak l = a_key row \<and>
            ((\<not> aw l \<or> (\<forall>l0. at_acc x pk = Some l0 \<longrightarrow> \<not> aw l0)) \<longrightarrow> av l = a_val row) \<and>
            (\<forall>l0. at_acc x pk = Some l0 \<longrightarrow> av l = av l0 \<and> (aw l0 \<longrightarrow> aw l))"
          using at by blast
        have "a_wts row \<le> at_start x" using v dom l(2) by (simp add: a_valid_def)
        moreover have "d pk = Some (a_key row, a_val row)" using d dom l(2) by (simp add: content_def)
        moreover have "ak l0 = a_key row" if "at_acc x pk = Some l0" for l0
          using good(1) that l(2) calculation(1) unfolding copies_ok_def by force
        ultimately show ?thesis
          using l True by (auto simp: overlay_def split: option.splits)
      qed
    qed
    ultimately show "serial_run h ops d = Some (overlay d (at_acc (x\<lparr>at_acc := acc'\<rparr>)))" by simp
  qed
qed

section \<open>The steps\<close>

lemma read_good:
  assumes good: "copies_ok db x" "replays h db ops x"
    and rd: "a_read db (at_acc x) (at_start x) (h key) key [] = (rc, v, acc')"
  shows "copies_ok db (x\<lparr>at_acc := acc'\<rparr>)"
    and "replays h db (if rc = RCOK then ops @ [Rd key v] else ops) (x\<lparr>at_acc := acc'\<rparr>)"
proof -
  let ?pk = "h key"
  have "copies_ok db (x\<lparr>at_acc := acc'\<rparr>) \<and>
    replays h db (if rc = RCOK then ops @ [Rd key v] else ops) (x\<lparr>at_acc := acc'\<rparr>)"
  proof (cases "a_access db (at_acc x) (at_start x) ?pk False")
    case None
    then have "acc' = at_acc x" "rc \<noteq> RCOK"
      using rd by (auto simp: a_read_def split: option.splits)
    then show ?thesis using good by simp
  next
    case (Some acc1)
    note ga = a_access_good [OF good Some]
    have dom: "?pk \<in> dom acc1" using ga(3) by simp
    then obtain l where l: "acc1 ?pk = Some l" by auto
    have "db ?pk \<noteq> None"
      using ga(1) l unfolding copies_ok_def by force
    then have rd': "acc' = acc1" "rc = RCOK \<longleftrightarrow> ak l = c_str key" "rc = RCOK \<longrightarrow> v = av l"
      using rd Some l by (auto simp: a_read_def split: if_splits)
    show ?thesis
    proof (cases "rc = RCOK")
      case False
      then show ?thesis using ga rd'(1) by simp
    next
      case True
      have "serial_run h (ops @ [Rd key v]) d = Some (overlay d acc1)"
        if v: "a_valid db acc1 (at_start x)" and d: "\<forall>q \<in> dom acc1. d q = content db q" for d
      proof -
        have r: "serial_run h ops d = Some (overlay d acc1)"
          using ga(2) v d by (simp add: replays_def)
        obtain row where row: "db ?pk = Some row" "a_wts row \<le> at_start x \<longrightarrow> ak l = a_key row \<and> (\<not> aw l \<longrightarrow> av l = a_val row)"
          using ga(1) l unfolding copies_ok_def by force
        have "a_wts row \<le> at_start x" using v dom row(1) by (simp add: a_valid_def)
        moreover have "d ?pk = Some (a_key row, a_val row)" using d dom row(1) by (simp add: content_def)
        ultimately have "overlay d acc1 ?pk = Some (ak l, av l)"
          using l row(2) by (simp add: overlay_def)
        then show ?thesis using r True rd'(2,3) by (simp add: serial_run_append)
      qed
      then show ?thesis using ga(1) True rd'(1) by (simp add: replays_def)
    qed
  qed
  then show "copies_ok db (x\<lparr>at_acc := acc'\<rparr>)"
    and "replays h db (if rc = RCOK then ops @ [Rd key v] else ops) (x\<lparr>at_acc := acc'\<rparr>)" by blast+
qed

lemma update_good:
  assumes good: "copies_ok db x" "replays h db ops x"
    and up: "a_update db (at_acc x) (at_start x) (h key) key val = (rc, acc')"
  shows "copies_ok db (x\<lparr>at_acc := acc'\<rparr>)"
    and "replays h db (if rc = RCOK then ops @ [Wr key val] else ops) (x\<lparr>at_acc := acc'\<rparr>)"
proof -
  let ?pk = "h key"
  have "copies_ok db (x\<lparr>at_acc := acc'\<rparr>) \<and>
    replays h db (if rc = RCOK then ops @ [Wr key val] else ops) (x\<lparr>at_acc := acc'\<rparr>)"
  proof (cases "a_access db (at_acc x) (at_start x) ?pk True")
    case None
    then have "acc' = at_acc x" "rc \<noteq> RCOK"
      using up by (auto simp: a_update_def)
    then show ?thesis using good by simp
  next
    case (Some acc1)
    note ga = a_access_good [OF good Some]
    have dom: "?pk \<in> dom acc1" using ga(3) by simp
    then obtain l where l: "acc1 ?pk = Some l" by auto
    have aw: "aw l" using Some l by (auto simp: a_access_def split: option.splits if_splits)
    show ?thesis
    proof (cases "ak l = c_str key")
      case False
      then show ?thesis using ga up Some l by (simp add: a_update_def)
    next
      case True
      then have up': "rc = RCOK" "acc' = acc1(?pk \<mapsto> l\<lparr>av := trunc_val val\<rparr>)"
        using up Some l by (auto simp: a_update_def)
      have "copies_ok db (x\<lparr>at_acc := acc'\<rparr>)"
        using ga(1) l aw unfolding copies_ok_def up'(2) by auto
      moreover have "serial_run h (ops @ [Wr key val]) d = Some (overlay d acc')"
        if v: "a_valid db acc' (at_start x)" and d: "\<forall>q \<in> dom acc'. d q = content db q" for d
      proof -
        have "dom acc' = dom acc1" using dom up'(2) by auto
        then have r: "serial_run h ops d = Some (overlay d acc1)"
          using ga(2) v d by (simp add: replays_def a_valid_def)
        have "overlay d acc1 ?pk = Some (ak l, av l)" using l aw by (simp add: overlay_def)
        moreover have "(overlay d acc1)(?pk \<mapsto> (ak l, trunc_val val)) = overlay d acc'"
          using aw by (auto simp: overlay_def up'(2))
        ultimately show ?thesis using r True by (simp add: serial_run_append)
      qed
      ultimately show ?thesis using up'(1) by (simp add: replays_def)
    qed
  qed
  then show "copies_ok db (x\<lparr>at_acc := acc'\<rparr>)"
    and "replays h db (if rc = RCOK then ops @ [Wr key val] else ops) (x\<lparr>at_acc := acc'\<rparr>)" by blast+
qed

text \<open>A commit of another transaction either leaves what this one accessed alone or makes it invalid.\<close>

lemma commit_good_other:
  assumes good: "copies_ok db x" "replays h db ops x" and ts: "at_start x < ts"
  shows "copies_ok (a_write_back db acc ts) x" and "replays h (a_write_back db acc ts) ops x"
proof -
  let ?db = "a_write_back db acc ts"
  have wb: "?db pk = db pk \<or> (\<exists>row. ?db pk = Some row \<and> a_wts row = ts)" for pk
    by (auto simp: a_write_back_def split: option.splits)
  have not: "\<not> ts \<le> at_start x" using ts by simp
  show "copies_ok ?db x"
    unfolding copies_ok_def
  proof (intro allI impI)
    fix pk l assume l: "at_acc x pk = Some l"
    show "\<exists>row. ?db pk = Some row \<and> (a_wts row \<le> at_start x \<longrightarrow> ak l = a_key row \<and> (\<not> aw l \<longrightarrow> av l = a_val row))"
      using wb [of pk]
    proof
      assume "?db pk = db pk"
      then show ?thesis using good(1) l unfolding copies_ok_def by simp
    qed (use not in auto)
  qed
  show "replays h ?db ops x"
    unfolding replays_def
  proof (intro impI allI)
    fix d assume v: "a_valid ?db (at_acc x) (at_start x)" and d: "\<forall>pk \<in> dom (at_acc x). d pk = content ?db pk"
    have same: "?db pk = db pk" if "pk \<in> dom (at_acc x)" for pk
      using wb [of pk] v that not by (auto simp: a_valid_def)
    have "a_valid db (at_acc x) (at_start x)" using v same by (simp add: a_valid_def)
    moreover have "\<forall>pk \<in> dom (at_acc x). d pk = content db pk" using d same by (simp add: content_def)
    ultimately show "serial_run h ops d = Some (overlay d (at_acc x))"
      using good(2) by (simp add: replays_def)
  qed
qed

lemma commit_content:
  assumes good: "copies_ok db x" "replays h db ops x" and v: "a_valid db (at_acc x) (at_start x)"
  shows "serial_run h ops (content db) = Some (content (a_write_back db (at_acc x) ts))"
proof -
  have "overlay (content db) (at_acc x) = content (a_write_back db (at_acc x) ts)"
    by (auto simp: overlay_def content_def a_write_back_def split: option.splits)
  then show ?thesis using good(2) v by (simp add: replays_def)
qed

lemma goodI:
  "(\<And>c x. a_txns a c = Some x \<Longrightarrow> good_txn h a (opened H c) x) \<Longrightarrow> good h a H"
  unfolding good_def by blast

lemma good_set_other:
  assumes "good h a H" and "\<And>x. y = Some x \<Longrightarrow> good_txn h a ops x"
  shows "good h (set_txn a c y) (H\<lparr>opened := (opened H)(c := ops)\<rparr>)"
  using assms by (auto simp: good_def good_txn_def)

definition explained :: "(string \<Rightarrow> u64) \<Rightarrow> content \<Rightarrow> asys \<Rightarrow> hist \<Rightarrow> bool" where
  "explained h d0 a H \<longleftrightarrow> good h a H \<and> serial_run h (concat (closed H)) d0 = Some (content (a_db a))"

lemma explained_active:
  assumes ex: "explained h d0 a H" and x: "a_txns a c = Some x"
    and new: "copies_ok (a_db a) (x\<lparr>at_acc := acc\<rparr>)" "replays h (a_db a) ops (x\<lparr>at_acc := acc\<rparr>)"
  shows "explained h d0 (set_txn a c (Some (x\<lparr>at_acc := acc\<rparr>))) (H\<lparr>opened := (opened H)(c := ops)\<rparr>)"
proof -
  have "at_start x < a_time a" using ex x by (simp add: explained_def good_def good_txn_def)
  then show ?thesis
    using ex new good_set_other [of h a H "Some (x\<lparr>at_acc := acc\<rparr>)" ops c]
    by (simp add: explained_def good_txn_def)
qed

lemma explained_ended:
  assumes "explained h d0 a H"
  shows "explained h d0 (set_txn a c None) (H\<lparr>opened := (opened H)(c := ops)\<rparr>)"
  using assms good_set_other [of h a H None ops c] by (simp add: explained_def)

lemma opened_same [simp]: "H\<lparr>opened := (opened H)(c := opened H c)\<rparr> = (H :: hist)"
  by simp

lemma explained_begin:
  assumes ex: "explained h d0 a H" and nowrap: "a_time a + 1 \<noteq> 0"
    and st: "a_step h a c Begin_txn = (rc, v, a')"
  shows "explained h d0 a' (observe H (c, Begin_txn, rc, v))" and "dom (a_db a') = dom (a_db a)"
proof -
  have less: "a_time a < a_time a + 1" by (rule u64_less_Suc [OF nowrap])
  have a': "a_db a' = a_db a" "a_time a' = a_time a + 1"
    "a_txns a' = (a_txns a)(c \<mapsto> \<lparr>at_acc = Map.empty, at_start = a_time a, at_ins = 0\<rparr>)"
    using st by auto
  have "good_txn h a' (opened (observe H (c, Begin_txn, rc, v)) d) x" if "a_txns a' d = Some x" for d x
  proof (cases "d = c")
    case True
    then show ?thesis
      using that a' less by (auto simp: good_txn_def copies_ok_def replays_def)
  next
    case False
    then have "good_txn h a (opened H d) x" using that a' ex by (simp add: explained_def good_def)
    then show ?thesis using a' less False by (auto simp: good_txn_def intro: less_trans)
  qed
  then show "explained h d0 a' (observe H (c, Begin_txn, rc, v))"
    using ex a' by (simp add: explained_def good_def)
  show "dom (a_db a') = dom (a_db a)" by (simp add: a')
qed

lemma dom_write_back:
  assumes "copies_ok db x"
  shows "dom (a_write_back db (at_acc x) ts) = dom db"
  using assms by (fastforce simp: a_write_back_def copies_ok_def split: option.splits if_splits)

lemma explained_commit:
  assumes ex: "explained h d0 a H" and nowrap: "a_time a + 1 \<noteq> 0"
    and x: "a_txns a c = Some x" and v: "a_valid (a_db a) (at_acc x) (at_start x)"
    and a': "a' = set_txn (a\<lparr>a_db := a_write_back (a_db a) (at_acc x) (a_time a), a_time := a_time a + 1\<rparr>) c None"
    and H': "H' = H\<lparr>opened := (opened H)(c := []), closed := closed H @ [opened H c]\<rparr>"
  shows "explained h d0 a' H'" and "dom (a_db a') = dom (a_db a)"
proof -
  have less: "a_time a < a_time a + 1" by (rule u64_less_Suc [OF nowrap])
  have g: "good_txn h a (opened H d) y" if "a_txns a d = Some y" for d y
    using ex that by (simp add: explained_def good_def)
  have gx: "copies_ok (a_db a) x" "replays h (a_db a) (opened H c) x"
    using g [OF x] by (simp_all add: good_txn_def)
  have "good_txn h a' (opened H' d) y" if y: "a_txns a' d = Some y" for d y
  proof -
    have d: "d \<noteq> c" "a_txns a d = Some y" using y by (auto simp: a' split: if_splits)
    have gy: "at_start y < a_time a" "copies_ok (a_db a) y" "replays h (a_db a) (opened H d) y"
      using g [OF d(2)] by (simp_all add: good_txn_def)
    show ?thesis
      using commit_good_other [OF gy(2,3,1)] gy(1) less d(1)
      by (auto simp: good_txn_def a' H' intro: less_trans)
  qed
  moreover have "serial_run h (concat (closed H')) d0 = Some (content (a_db a'))"
    using ex commit_content [OF gx v, of "a_time a"]
    by (simp add: explained_def serial_run_append a' H')
  ultimately show "explained h d0 a' H'" by (simp add: explained_def good_def)
  show "dom (a_db a') = dom (a_db a)" using dom_write_back [OF gx(1)] by (simp add: a')
qed

lemma explained_step:
  assumes ex: "explained h d0 a H" and ok: "a_ok h a c call"
    and upd: "\<And>key val. call = Put key val \<Longrightarrow> a_db a (h key) \<noteq> None"
    and st: "a_step h a c call = (rc, v, a')"
  shows "explained h d0 a' (observe H (c, call, rc, v)) \<and> dom (a_db a') = dom (a_db a)"
proof (cases "call = Begin_txn")
  case True
  then show ?thesis using explained_begin [OF ex, of c rc v a'] ok st by simp
next
  case nb: False
  show ?thesis
  proof (cases "a_txns a c")
    case None
    then have "rc = Rc_ERROR" "a' = a" using st nb by (cases call; auto)+
    moreover have "explained h d0 a (H\<lparr>opened := (opened H)(c := [])\<rparr>)"
      using explained_ended [OF ex, of c "[]"] set_txn_same [OF None] by simp
    ultimately show ?thesis using ex nb by (cases call) auto
  next
    case (Some x)
    have gx: "copies_ok (a_db a) x" "replays h (a_db a) (opened H c) x"
      using ex Some by (simp_all add: explained_def good_def good_txn_def)
    show ?thesis
    proof (cases call)
      case Begin_txn
      then show ?thesis using nb by simp
    next
      case (Get key)
      obtain rc0 v0 acc where rd: "a_read (a_db a) (at_acc x) (at_start x) (h key) key [] = (rc0, v0, acc)"
        by (cases "a_read (a_db a) (at_acc x) (at_start x) (h key) key []") auto
      have eqs: "rc = (if rc0 = RCOK then Rc_OK else Rc_NOT_FOUND)" "v = v0"
        "a' = set_txn a c (Some (x\<lparr>at_acc := acc\<rparr>))"
        using st Some rd by (auto simp: Get)
      show ?thesis
        using explained_active [OF ex Some read_good [OF gx rd]] eqs
        by (cases "rc0 = RCOK") (auto simp: Get)
    next
      case (Put key val)
      obtain rc0 acc where up: "a_update (a_db a) (at_acc x) (at_start x) (h key) key val = (rc0, acc)"
        by (cases "a_update (a_db a) (at_acc x) (at_start x) (h key) key val") auto
      have eqs: "rc = (if rc0 = RCOK then Rc_OK else Rc_ERROR)"
        "a' = set_txn a c (Some (x\<lparr>at_acc := acc\<rparr>))"
        using st Some up upd [OF Put] by (auto simp: Put)
      show ?thesis
        using explained_active [OF ex Some update_good [OF gx up]] eqs
        by (cases "rc0 = RCOK") (auto simp: Put)
    next
      case Commit_txn
      show ?thesis
      proof (cases "a_valid (a_db a) (at_acc x) (at_start x)")
        case True
        have nowrap: "a_time a + 1 \<noteq> 0" using ok by (simp add: Commit_txn)
        have eqs: "rc = Rc_OK" "a' = set_txn (a\<lparr>a_db := a_write_back (a_db a) (at_acc x) (a_time a),
            a_time := a_time a + 1\<rparr>) c None"
          using st Some True by (simp_all add: Commit_txn)
        show ?thesis
          using explained_commit [OF ex nowrap Some True eqs(2) refl] eqs(1) by (simp add: Commit_txn)
      next
        case False
        then show ?thesis
          using explained_ended [OF ex, of c "[]"] st Some by (auto simp: Commit_txn)
      qed
    next
      case Abort_txn
      then show ?thesis
        using explained_ended [OF ex, of c "[]"] st Some by auto
    qed
  qed
qed

lemma explained_run:
  assumes "explained h d0 a H" and "a_oks h a cs"
    and "\<forall>c key val. (c, Put key val) \<in> set cs \<longrightarrow> a_db a (h key) \<noteq> None"
    and "a_run h a cs = (evs, a')"
  shows "explained h d0 a' (foldl observe H evs)"
  using assms
proof (induction cs arbitrary: a H evs)
  case Nil
  then show ?case by simp
next
  case (Cons e cs)
  obtain c call where e: "e = (c, call)" by (cases e)
  obtain rc v a1 where st: "a_step h a c call = (rc, v, a1)" by (cases "a_step h a c call") auto
  obtain evs1 where r: "a_run h a1 cs = (evs1, a')" "evs = (c, call, rc, v) # evs1"
    using Cons.prems(4) e st by (auto simp: Let_def split: prod.splits)
  have ok: "a_ok h a c call" "a_oks h a1 cs" using Cons.prems(2) e st by simp_all
  have upd: "a_db a (h key) \<noteq> None" if "call = Put key val" for key val
    using Cons.prems(3) e that by auto
  have ex: "explained h d0 a1 (observe H (c, call, rc, v))" "dom (a_db a1) = dom (a_db a)"
    using explained_step [OF Cons.prems(1) ok(1) _ st] upd by blast+
  have "a_db a1 (h key) \<noteq> None" if "(d, Put key val) \<in> set cs" for d key val
  proof -
    have "h key \<in> dom (a_db a)" using Cons.prems(3) that by (auto simp: domIff)
    then have "h key \<in> dom (a_db a1)" using ex(2) by simp
    then show ?thesis by (simp add: domIff)
  qed
  then show ?case using Cons.IH [of a1 _ evs1] ex ok(2) r by auto
qed

lemma explained_init:
  "\<forall>c. a_txns a c = None \<Longrightarrow> explained h (content (a_db a)) a hist_init"
  by (simp add: explained_def good_def hist_init_def)

section \<open>Bounds that keep an execution within the refinement\<close>

text \<open>
  At most \<open>MAX_ROW_PER_TXN\<close> reads and writes per transaction, counted per client since its last
  \<open>Begin_txn\<close>.
\<close>

fun calls_bounded :: "(nat \<Rightarrow> nat) \<Rightarrow> (nat \<times> api_call) list \<Rightarrow> bool" where
  "calls_bounded n [] \<longleftrightarrow> True"
| "calls_bounded n ((c, Begin_txn) # cs) \<longleftrightarrow> calls_bounded (n(c := 0)) cs"
| "calls_bounded n ((c, Get key) # cs) \<longleftrightarrow>
     n c < MAX_ROW_PER_TXN \<and> calls_bounded (n(c := Suc (n c))) cs"
| "calls_bounded n ((c, Put key val) # cs) \<longleftrightarrow>
     n c < MAX_ROW_PER_TXN \<and> calls_bounded (n(c := Suc (n c))) cs"
| "calls_bounded n ((c, Commit_txn) # cs) \<longleftrightarrow> calls_bounded n cs"
| "calls_bounded n ((c, Abort_txn) # cs) \<longleftrightarrow> calls_bounded n cs"

definition within :: "asys \<Rightarrow> (nat \<Rightarrow> nat) \<Rightarrow> bool" where
  "within a n \<longleftrightarrow> (\<forall>c x. a_txns a c = Some x \<longrightarrow> card (dom (at_acc x)) \<le> n c \<and> at_ins x = 0)"

definition updates_only :: "(string \<Rightarrow> u64) \<Rightarrow> adb \<Rightarrow> (nat \<times> api_call) list \<Rightarrow> bool" where
  "updates_only h db cs \<longleftrightarrow> (\<forall>c key val. (c, Put key val) \<in> set cs \<longrightarrow> db (h key) \<noteq> None)"

lemma a_access_card:
  "a_access db acc start pk wr = Some acc' \<Longrightarrow> card (dom acc') \<le> Suc (card (dom acc))"
  by (auto simp: a_access_def card_insert_if card_insert_le_m1 split: option.splits if_splits)

lemma a_read_card:
  assumes "a_read db acc start pk key vo = (rc, v, acc')"
  shows "card (dom acc') \<le> Suc (card (dom acc))"
  using assms a_access_card [of db acc start pk False] by (auto simp: a_read_def split: option.splits if_splits)

lemma a_update_card:
  assumes "a_update db acc start pk key val = (rc, acc')"
  shows "card (dom acc') \<le> Suc (card (dom acc))"
proof (cases "a_access db acc start pk True")
  case None
  then show ?thesis using assms by (simp add: a_update_def)
next
  case (Some acc1)
  then have "card (dom acc1) \<le> Suc (card (dom acc))" by (rule a_access_card)
  moreover have "dom acc' = dom acc1"
    using assms Some by (auto simp: a_update_def split: option.splits if_splits)
  ultimately show ?thesis by simp
qed

lemma within_set:
  assumes "within a n" and "\<And>x. y = Some x \<Longrightarrow> card (dom (at_acc x)) \<le> m \<and> at_ins x = 0"
  shows "within (set_txn a c y) (n(c := m))"
  using assms by (auto simp: within_def)

lemma within_None: "within a n \<Longrightarrow> within (set_txn a c None) n"
  by (auto simp: within_def split: if_splits)

lemma within_more: "within a n \<Longrightarrow> within a (n(c := Suc (n c)))"
  by (auto simp: within_def le_SucI)

lemma bounded_step:
  assumes wi: "within a n" and bd: "calls_bounded n ((c, call) # cs)"
    and upd: "updates_only h (a_db a) ((c, call) # cs)"
    and st: "a_step h a c call = (rc, v, a')" and nowrap: "a_time a + 1 \<noteq> 0"
  shows "a_ok h a c call \<and> (\<exists>n'. within a' n' \<and> calls_bounded n' cs)"
proof (cases call)
  case Begin_txn
  then have "within a' (n(c := 0))" using st wi by (auto simp: within_def)
  then show ?thesis using Begin_txn bd nowrap by auto
next
  case (Get key)
  show ?thesis
  proof (cases "a_txns a c")
    case None
    then show ?thesis using Get st bd within_more [OF wi] by auto
  next
    case (Some x)
    obtain rc0 v0 acc where rd: "a_read (a_db a) (at_acc x) (at_start x) (h key) key [] = (rc0, v0, acc)"
      by (cases "a_read (a_db a) (at_acc x) (at_start x) (h key) key []") auto
    have x: "card (dom (at_acc x)) \<le> n c" "at_ins x = 0" using wi Some by (auto simp: within_def)
    have "card (dom acc) \<le> Suc (n c)" using a_read_card [OF rd] x(1) by simp
    then have "within a' (n(c := Suc (n c)))"
      using within_set [OF wi, of "Some (x\<lparr>at_acc := acc\<rparr>)"] st Some rd x by (auto simp: Get)
    then show ?thesis using Get bd Some x by (auto simp: a_room_def)
  qed
next
  case (Put key val)
  show ?thesis
  proof (cases "a_txns a c")
    case None
    then show ?thesis using Put st bd within_more [OF wi] by auto
  next
    case (Some x)
    obtain rc0 acc where up: "a_update (a_db a) (at_acc x) (at_start x) (h key) key val = (rc0, acc)"
      by (cases "a_update (a_db a) (at_acc x) (at_start x) (h key) key val") auto
    have x: "card (dom (at_acc x)) \<le> n c" "at_ins x = 0" using wi Some by (auto simp: within_def)
    have old: "a_db a (h key) \<noteq> None" using upd by (auto simp: updates_only_def Put)
    have "card (dom acc) \<le> Suc (n c)" using a_update_card [OF up] x(1) by simp
    then have "within a' (n(c := Suc (n c)))"
      using within_set [OF wi, of "Some (x\<lparr>at_acc := acc\<rparr>)"] st Some up x old by (auto simp: Put)
    then show ?thesis using Put bd Some x old by (auto simp: a_room_def)
  qed
next
  case Commit_txn
  show ?thesis
  proof (cases "a_txns a c")
    case None
    then show ?thesis using Commit_txn st bd wi nowrap by auto
  next
    case (Some x)
    have "within (set_txn (a\<lparr>a_db := d, a_time := u\<rparr>) c None) n" for d u
      using wi by (auto simp: within_def split: if_splits)
    then have "within a' n" using st Some within_None [OF wi] by (auto simp: Commit_txn split: if_splits)
    then show ?thesis using Commit_txn bd Some wi nowrap by (auto simp: within_def)
  qed
next
  case Abort_txn
  show ?thesis
  proof (cases "a_txns a c")
    case None
    then show ?thesis using Abort_txn st bd wi by auto
  next
    case (Some x)
    then have "within a' n" using st within_None [OF wi] by (auto simp: Abort_txn)
    then show ?thesis using Abort_txn bd Some wi by (auto simp: within_def)
  qed
qed

lemma a_step_time:
  assumes "a_step h a c call = (rc, v, a')"
  shows "a_time a' = a_time a \<or> a_time a' = a_time a + 1"
  using assms by (cases call; cases "a_txns a c") (auto simp: Let_def split: prod.splits if_splits)

lemma bounded_oks:
  assumes "explained h d0 a H" and "within a n" and "calls_bounded n cs"
    and "updates_only h (a_db a) cs" and "unat (a_time a) + length cs < 2 ^ 64"
  shows "a_oks h a cs"
  using assms
proof (induction cs arbitrary: a H n)
  case Nil
  then show ?case by simp
next
  case (Cons e cs)
  obtain c call where e: "e = (c, call)" by (cases e)
  obtain rc v a1 where st: "a_step h a c call = (rc, v, a1)" by (cases "a_step h a c call") auto
  have time: "a_time a + 1 \<noteq> 0" "unat (a_time a + 1) + length cs < 2 ^ 64" "unat (a_time a) + length cs < 2 ^ 64"
    using unat_Suc_bound Cons.prems(5) by simp_all
  obtain n' where n': "a_ok h a c call" "within a1 n'" "calls_bounded n' cs"
    using bounded_step [OF Cons.prems(2) Cons.prems(3,4) [unfolded e] st time(1)] by blast
  have upd: "a_db a (h key) \<noteq> None" if "call = Put key val" for key val
    using Cons.prems(4) e that by (auto simp: updates_only_def)
  have ex: "explained h d0 a1 (observe H (c, call, rc, v))" "dom (a_db a1) = dom (a_db a)"
    using explained_step [OF Cons.prems(1) n'(1) _ st] upd by blast+
  have "updates_only h (a_db a) cs" using Cons.prems(4) by (auto simp: updates_only_def e)
  then have "updates_only h (a_db a1) cs" unfolding updates_only_def using ex(2) by (metis domIff)
  moreover have "unat (a_time a1) + length cs < 2 ^ 64" using a_step_time [OF st] time by auto
  ultimately have "a_oks h a1 cs" using Cons.IH [OF ex(1) n'(2,3)] by blast
  then show ?case using n'(1) st e by simp
qed

section \<open>Serializability\<close>

lemma serial_oks:
  assumes "\<forall>c. a_txns a c = None" and "updates_only h (a_db a) cs" and "calls_bounded (\<lambda>_. 0) cs"
    and "unat (a_time a) + length cs < 2 ^ 64"
  shows "a_oks h a cs"
proof -
  have "within a (\<lambda>_. 0)" using assms(1) by (simp add: within_def)
  from bounded_oks [OF explained_init [OF assms(1)] this assms(3,2,4)] show ?thesis .
qed

lemma serial_result:
  assumes "\<forall>c. a_txns a c = None" and "updates_only h (a_db a) cs" and "a_oks h a cs"
    and "a_run h a cs = (evs, a')"
  shows "serial_run h (committed_ops evs) (content (a_db a)) = Some (content (a_db a'))"
proof -
  have "explained h (content (a_db a)) a' (foldl observe hist_init evs)"
    by (rule explained_run [OF explained_init [OF assms(1)] assms(3) _ assms(4)])
      (use assms(2) in \<open>auto simp: updates_only_def\<close>)
  then show ?thesis by (simp add: explained_def committed_ops_def)
qed

lemma run_serializable:
  assumes "wf_sys y" and "\<forall>c. impl (handles y c) = None"
    and "updates_only h (db_view (st (eng y))) cs" and "calls_bounded (\<lambda>_. 0) cs"
    and "unat (timestamp (st (eng y))) + length cs < 2 ^ 64"
  shows "\<exists>evs y'. run h y cs = Inr (evs, y') \<and>
    serial_run h (committed_ops evs) (content (db_view (st (eng y)))) =
      Some (content (db_view (st (eng y'))))"
proof -
  have none: "\<forall>c. a_txns (abs_sys y) c = None" using assms(2) by simp
  have oks: "a_oks h (abs_sys y) cs" by (rule serial_oks [OF none]) (use assms(3-5) in simp_all)
  obtain evs y' where r: "run h y cs = Inr (evs, y')" "a_run h (abs_sys y) cs = (evs, abs_sys y')"
    using run_ok [OF assms(1) oks] by blast
  then show ?thesis using serial_result [OF none _ oks r(2)] assms(3) by auto
qed

end
