(* ===== verification/Isolation.thy ===== *)
theory Isolation
  imports Serializability
begin

text \<open>
  What one client can rely on while others run: the committed rows change by commits only, a
  transaction keeps seeing its own copies whatever others do, and once another transaction has
  committed a write to a row it accessed it can no longer commit. The last section states where
  the isolation ends: rows inserted by a transaction that is still running.
\<close>

section \<open>Steps of other clients\<close>

definition others_only :: "nat \<Rightarrow> (nat \<times> api_call) list \<Rightarrow> bool" where
  "others_only c cs \<longleftrightarrow> (\<forall>d call. (d, call) \<in> set cs \<longrightarrow> d \<noteq> c)"

lemma a_step_other:
  assumes "a_step h a d call = (rc, v, a')" and "d \<noteq> c"
  shows "a_txns a' c = a_txns a c"
  using assms by (cases call; cases "a_txns a d") (auto simp: Let_def split: prod.splits if_splits)

lemma write_back_keeps_row: "db pk \<noteq> None \<Longrightarrow> a_write_back db acc ts pk \<noteq> None"
  by (simp add: a_write_back_def split: option.splits)

lemma a_step_keeps_rows:
  assumes "a_step h a d call = (rc, v, a')" and "a_db a pk \<noteq> None"
  shows "a_db a' pk \<noteq> None"
proof (cases "a_txns a d")
  case None
  then show ?thesis using assms by (cases call) auto
next
  case (Some x)
  show ?thesis
  proof (cases call)
    case (Put key val)
    then show ?thesis
      using assms Some by (auto simp: a_insert_def Let_def split: prod.splits if_splits)
  next
    case Commit_txn
    then show ?thesis
      using assms Some write_back_keeps_row [of "a_db a" pk, OF assms(2)] by (auto split: if_splits)
  qed (use assms Some in \<open>auto simp: Let_def split: prod.splits\<close>)
qed

lemma a_run_other_both:
  assumes "a_run h a cs = (evs, a')" and "others_only c cs"
  shows "a_txns a' c = a_txns a c \<and> (a_db a pk \<noteq> None \<longrightarrow> a_db a' pk \<noteq> None)"
  using assms
proof (induction cs arbitrary: a evs)
  case (Cons e cs)
  obtain d call where e: "e = (d, call)" by (cases e)
  obtain rc v a1 where st: "a_step h a d call = (rc, v, a1)" by (cases "a_step h a d call") auto
  obtain evs1 where r: "a_run h a1 cs = (evs1, a')"
    using Cons.prems(1) e st by (cases "a_run h a1 cs") auto
  have d: "d \<noteq> c" "others_only c cs" using Cons.prems(2) e by (auto simp: others_only_def)
  show ?case
    using Cons.IH [OF r d(2)] a_step_other [OF st d(1)] a_step_keeps_rows [OF st] by simp
qed simp

lemma a_run_other:
  assumes "a_run h a cs = (evs, a')" and "others_only c cs"
  shows "a_txns a' c = a_txns a c" and "a_db a pk \<noteq> None \<Longrightarrow> a_db a' pk \<noteq> None"
  using a_run_other_both [OF assms] by simp_all

section \<open>Committed rows change by commits only\<close>

lemma a_step_quiet:
  assumes "a_step h a c call = (rc, v, a')"
    and "call = Commit_txn \<Longrightarrow> rc \<noteq> Rc_OK" and "\<And>key val. call = Put key val \<Longrightarrow> a_db a (h key) \<noteq> None"
  shows "a_db a' = a_db a"
  using assms by (cases call; cases "a_txns a c") (auto simp: Let_def split: prod.splits if_splits)

section \<open>A transaction sees its own copies\<close>

lemma get_own_copy:
  assumes x: "a_txns a c = Some x" and l: "at_acc x (h key) = Some l" "ak l = c_str key"
    and db: "a_db a (h key) \<noteq> None"
  shows "\<exists>a'. a_step h a c (Get key) = (Rc_OK, av l, a')"
proof -
  have "a_read (a_db a) (at_acc x) (at_start x) (h key) key [] =
      (RCOK, av l, (at_acc x)(h key \<mapsto> l\<lparr>aw := aw l \<or> False\<rparr>))"
    using l db by (auto simp: a_read_def a_access_def split: option.splits)
  then show ?thesis using x by simp
qed

text \<open>After a successful \<open>put\<close> or \<open>get\<close> there is a local copy with the key and the value.\<close>

lemma put_copy:
  assumes "a_step h a c (Put key val) = (Rc_OK, v, a')" and "length (c_str key) < 128"
  obtains x l where "a_txns a' c = Some x" "at_acc x (h key) = Some l" "ak l = c_str key"
    "av l = trunc_val val" "a_db a' (h key) \<noteq> None"
proof -
  obtain x0 where x0: "a_txns a c = Some x0" using assms(1) by (cases "a_txns a c") auto
  show ?thesis
  proof (cases "a_db a (h key)")
    case None
    have "trunc_key key = c_str key" using assms(2) by (simp add: trunc_key_def)
    then show ?thesis
      using assms(1) x0 None by (intro that) (auto simp: a_insert_def)
  next
    case (Some row)
    obtain rc acc where up: "a_update (a_db a) (at_acc x0) (at_start x0) (h key) key val = (rc, acc)"
      by (cases "a_update (a_db a) (at_acc x0) (at_start x0) (h key) key val") auto
    then have a': "rc = RCOK" "a' = set_txn a c (Some (x0\<lparr>at_acc := acc\<rparr>))"
      using assms(1) x0 Some by (auto split: if_splits)
    obtain l where l: "ak l = c_str key" "acc (h key) = Some (l\<lparr>av := trunc_val val\<rparr>)"
      using up a'(1) by (auto simp: a_update_def split: option.splits if_splits)
    show ?thesis
      by (rule that [of "x0\<lparr>at_acc := acc\<rparr>" "l\<lparr>av := trunc_val val\<rparr>"]) (simp_all add: a' l Some)
  qed
qed

lemma get_copy:
  assumes "a_step h a c (Get key) = (Rc_OK, v, a')"
  obtains x l where "a_txns a' c = Some x" "at_acc x (h key) = Some l" "ak l = c_str key"
    "av l = v" "a_db a' (h key) \<noteq> None"
proof -
  obtain x0 where x0: "a_txns a c = Some x0" using assms(1) by (cases "a_txns a c") auto
  obtain rc v0 acc where rd: "a_read (a_db a) (at_acc x0) (at_start x0) (h key) key [] = (rc, v0, acc)"
    by (cases "a_read (a_db a) (at_acc x0) (at_start x0) (h key) key []") auto
  then have a': "rc = RCOK" "v0 = v" "a' = set_txn a c (Some (x0\<lparr>at_acc := acc\<rparr>))"
    using assms(1) x0 by (auto split: if_splits)
  obtain l where l: "ak l = c_str key" "acc (h key) = Some l" "av l = v" "a_db a (h key) \<noteq> None"
    using rd a'(1,2) by (auto simp: a_read_def split: option.splits if_splits)
  show ?thesis
    by (rule that [of "x0\<lparr>at_acc := acc\<rparr>" l]) (simp_all add: a' l)
qed

lemma later_get:
  assumes x: "a_txns a c = Some x" "at_acc x (h key) = Some l" "ak l = c_str key" "a_db a (h key) \<noteq> None"
    and run: "a_run h a cs = (evs, a')" "others_only c cs"
  shows "\<exists>a2. a_step h a' c (Get key) = (Rc_OK, av l, a2)"
  using get_own_copy [of a' c x h key l] a_run_other [OF run] x by simp

section \<open>First committer wins\<close>

text \<open>A transaction is doomed when a row it accessed is newer than its start.\<close>

definition doomed :: "asys \<Rightarrow> nat \<Rightarrow> bool" where
  "doomed a d \<longleftrightarrow> (\<exists>x pk row. a_txns a d = Some x \<and> at_start x < a_time a \<and> pk \<in> dom (at_acc x) \<and>
     a_db a pk = Some row \<and> at_start x < a_wts row)"

lemma doomed_commit: "doomed a d \<Longrightarrow> \<exists>a'. a_step h a d Commit_txn = (Rc_ABORT, [], a')"
  by (fastforce simp: doomed_def a_valid_def)

lemma newer_row:
  assumes "db pk = Some row" and "start < a_wts row" and "start < ts"
  shows "\<exists>row'. a_write_back db acc ts pk = Some row' \<and> start < a_wts row'"
  using assms by (auto simp: a_write_back_def split: option.splits)

definition keeps_open :: "nat \<Rightarrow> (nat \<times> api_call) list \<Rightarrow> bool" where
  "keeps_open d cs \<longleftrightarrow> (\<forall>call. (d, call) \<in> set cs \<longrightarrow> (\<exists>key. call = Get key) \<or> (\<exists>key val. call = Put key val))"

lemma a_step_mono:
  assumes "a_step h a c call = (rc, v, a')" and ok: "a_ok h a c call"
    and pk: "a_db a pk = Some row" "start < a_wts row" and time: "start < a_time a"
  shows "start < a_time a'" and "\<exists>row'. a_db a' pk = Some row' \<and> start < a_wts row'"
proof -
  have less: "a_time a + 1 \<noteq> 0 \<Longrightarrow> start < a_time a + 1"
    using time u64_less_Suc less_trans by blast
  show "start < a_time a'"
    using assms(1) ok less time
    by (cases call; cases "a_txns a c") (auto simp: Let_def split: prod.splits if_splits)
  show "\<exists>row'. a_db a' pk = Some row' \<and> start < a_wts row'"
  proof (cases "a_txns a c")
    case None
    then show ?thesis using assms(1) pk by (cases call) auto
  next
    case (Some x)
    show ?thesis
    proof (cases call)
      case (Put key val)
      then show ?thesis
        using assms(1) Some pk by (auto simp: a_insert_def Let_def split: prod.splits if_splits)
    next
      case Commit_txn
      then show ?thesis
        using assms(1) Some pk newer_row [of "a_db a" pk, OF pk time] by (auto split: if_splits)
    qed (use assms(1) Some pk in \<open>auto simp: Let_def split: prod.splits\<close>)
  qed
qed

lemma own_step_grows:
  assumes "a_step h a d call = (rc, v, a')" and "a_txns a d = Some x"
    and "(\<exists>key. call = Get key) \<or> (\<exists>key val. call = Put key val)"
  shows "\<exists>x'. a_txns a' d = Some x' \<and> at_start x' = at_start x \<and> dom (at_acc x) \<subseteq> dom (at_acc x')"
proof -
  have acc: "dom acc \<subseteq> dom acc'" if "a_access db acc start pk wr = Some acc'" for db acc start pk wr acc'
    using that by (auto simp: a_access_def split: option.splits if_splits)
  have rd: "dom acc \<subseteq> dom acc'" if "a_read db acc start pk key vo = (r, w, acc')" for db acc start pk key vo r w acc'
    using that acc [of db acc start pk False] by (auto simp: a_read_def split: option.splits if_splits)
  have up: "dom acc \<subseteq> dom acc'" if "a_update db acc start pk key val = (r, acc')" for db acc start pk key val r acc'
  proof (cases "a_access db acc start pk True")
    case None
    then show ?thesis using that by (simp add: a_update_def)
  next
    case (Some acc1)
    then have "dom acc1 \<subseteq> dom acc'"
      using that by (auto simp: a_update_def split: option.splits if_splits)
    then show ?thesis using acc [OF Some] by blast
  qed
  from assms(3) show ?thesis
  proof
    assume "\<exists>key. call = Get key"
    then obtain key where "call = Get key" by blast
    then show ?thesis
      using assms(1,2) rd by (cases "a_read (a_db a) (at_acc x) (at_start x) (h key) key []") auto
  next
    assume "\<exists>key val. call = Put key val"
    then obtain key val where call: "call = Put key val" by blast
    show ?thesis
    proof (cases "a_db a (h key)")
      case None
      then show ?thesis using assms(1,2) call by (auto simp: a_insert_def)
    next
      case (Some row)
      then show ?thesis
        using assms(1,2) call up
        by (cases "a_update (a_db a) (at_acc x) (at_start x) (h key) key val") auto
    qed
  qed
qed

lemma doomed_step:
  assumes dm: "doomed a d" and st: "a_step h a c call = (rc, v, a')" and ok: "a_ok h a c call"
    and op: "c = d \<Longrightarrow> (\<exists>key. call = Get key) \<or> (\<exists>key val. call = Put key val)"
  shows "doomed a' d"
proof -
  obtain x pk row where x: "a_txns a d = Some x" "at_start x < a_time a" "pk \<in> dom (at_acc x)"
    "a_db a pk = Some row" "at_start x < a_wts row"
    using dm by (auto simp: doomed_def)
  note mono = a_step_mono [OF st ok x(4,5,2)]
  obtain x' where x': "a_txns a' d = Some x'" "at_start x' = at_start x" "dom (at_acc x) \<subseteq> dom (at_acc x')"
  proof (cases "c = d")
    case True
    then show ?thesis using own_step_grows [OF st [unfolded True] x(1) op] that by blast
  next
    case False
    then show ?thesis using a_step_other [OF st False] x(1) that by simp
  qed
  then show ?thesis using mono x(3) unfolding doomed_def by fastforce
qed

lemma doomed_run:
  assumes "doomed a d" and "a_oks h a cs" and "keeps_open d cs" and "a_run h a cs = (evs, a')"
  shows "doomed a' d"
  using assms
proof (induction cs arbitrary: a evs)
  case (Cons e cs)
  obtain c call where e: "e = (c, call)" by (cases e)
  obtain rc v a1 where st: "a_step h a c call = (rc, v, a1)" by (cases "a_step h a c call") auto
  obtain evs1 where r: "a_run h a1 cs = (evs1, a')"
    using Cons.prems(4) e st by (cases "a_run h a1 cs") auto
  have op: "c = d \<Longrightarrow> (\<exists>key. call = Get key) \<or> (\<exists>key val. call = Put key val)"
    using Cons.prems(3) e by (auto simp: keeps_open_def)
  have "doomed a1 d"
    using doomed_step [OF Cons.prems(1) st _ op] Cons.prems(2) e by simp
  moreover have "a_oks h a1 cs" "keeps_open d cs"
    using Cons.prems(2,3) e st by (auto simp: keeps_open_def)
  ultimately show ?case using Cons.IH r by blast
qed simp

lemma commit_dooms:
  assumes c: "a_txns a c = Some x" and d: "a_txns a d = Some z" "d \<noteq> c"
    and w: "at_acc x pk = Some l" "aw l" and r: "pk \<in> dom (at_acc z)"
    and st: "a_step h a c Commit_txn = (Rc_OK, v, a')" and nowrap: "a_time a + 1 \<noteq> 0"
    and start: "at_start z < a_time a"
  shows "doomed a' d"
proof -
  have valid: "a_valid (a_db a) (at_acc x) (at_start x)"
    using st c by (auto split: if_splits)
  then have a': "a' = set_txn (a\<lparr>a_db := a_write_back (a_db a) (at_acc x) (a_time a), a_time := a_time a + 1\<rparr>) c None"
    using st c by simp
  have "at_start z < a_time a + 1" using start u64_less_Suc [OF nowrap] by (rule less_trans)
  then show ?thesis
    unfolding doomed_def using d w r start by (intro exI [of _ z] exI [of _ pk]) (auto simp: a' a_write_back_def)
qed

section \<open>Sequences of calls\<close>

lemma a_run_append:
  "a_run h a (cs @ ds) = (let (evs, a1) = a_run h a cs; (evs2, a2) = a_run h a1 ds in (evs @ evs2, a2))"
proof (induction cs arbitrary: a)
  case Nil
  then show ?case by (simp add: Let_def split: prod.splits)
next
  case (Cons e cs)
  obtain c call where e: "e = (c, call)" by (cases e)
  show ?case by (simp add: e Cons.IH Let_def split: prod.splits)
qed

lemma a_oks_append: "a_oks h a (cs @ ds) \<longleftrightarrow> a_oks h a cs \<and> a_oks h (snd (a_run h a cs)) ds"
proof (induction cs arbitrary: a)
  case Nil
  then show ?case by simp
next
  case (Cons e cs)
  obtain c call where e: "e = (c, call)" by (cases e)
  show ?case by (auto simp: e Cons.IH Let_def split: prod.splits)
qed

lemma run_last:
  assumes wf: "wf_sys y" and ok: "a_oks h (abs_sys y) (cs @ [(c, call)])"
    and last: "\<And>a evs. a_run h (abs_sys y) cs = (evs, a) \<Longrightarrow> \<exists>a'. a_step h a c call = (rc, v, a')"
  shows "\<exists>evs y'. run h y (cs @ [(c, call)]) = Inr (evs @ [(c, call, rc, v)], y')"
proof -
  obtain evs0 y' where r: "run h y (cs @ [(c, call)]) = Inr (evs0, y')"
    "a_run h (abs_sys y) (cs @ [(c, call)]) = (evs0, abs_sys y')"
    using run_ok [OF wf ok] by blast
  obtain evs a where e: "a_run h (abs_sys y) cs = (evs, a)" by (cases "a_run h (abs_sys y) cs")
  obtain a' where "a_step h a c call = (rc, v, a')" using last [OF e] by blast
  then have "evs0 = evs @ [(c, call, rc, v)]"
    using r(2) e by (simp add: a_run_append)
  then show ?thesis using r(1) by blast
qed

lemma step_abs:
  assumes "wf_sys y" and "a_ok h (abs_sys y) c call" and "api_step h y c call = Inr (rc, v, y1)"
  shows "wf_sys y1" and "a_step h (abs_sys y) c call = (rc, v, abs_sys y1)"
  using api_step_ok [OF assms(1,2)] assms(3) unfolding refines_def by auto

end
