(* ===== verification/Text.thy ===== *)
theory Text
  imports Prelude
begin

text \<open>
  The routines of the C++ standard library on text that the program calls: \<open>std::isspace\<close>,
  \<open>operator>>\<close> into strings, \<open>std::getline\<close> on a file, \<open>find\<close>, \<open>substr\<close> and \<open>erase\<close> as the
  program combines them, \<open>atoi\<close>, \<open>std::toupper\<close> and \<open>std::to_string\<close>, all in the "C" locale.
\<close>

section \<open>White space\<close>

definition isspace :: "char \<Rightarrow> bool" where
  "isspace c \<longleftrightarrow> c = CHR '' '' \<or> (9 \<le> (of_char c :: nat) \<and> (of_char c :: nat) \<le> 13)"

text \<open>The words a loop of \<open>operator>>\<close> extracts: maximal runs without white space.\<close>

function split_ws :: "string \<Rightarrow> string list" where
  "split_ws s =
     (case dropWhile isspace s of
        [] \<Rightarrow> []
      | c # cs \<Rightarrow> (c # takeWhile (\<lambda>x. \<not> isspace x) cs) # split_ws (dropWhile (\<lambda>x. \<not> isspace x) cs))"
  by pat_completeness auto
termination
proof (relation "measure length")
  fix s c cs assume "dropWhile isspace s = c # cs"
  then have "length (c # cs) \<le> length s" by (metis length_dropWhile_le)
  moreover have "length (dropWhile (\<lambda>x. \<not> isspace x) cs) \<le> length cs" by (rule length_dropWhile_le)
  ultimately show "(dropWhile (\<lambda>x. \<not> isspace x) cs, s) \<in> measure length" by simp
qed simp

declare split_ws.simps [simp del]

lemma split_ws_Nil: "dropWhile isspace s = [] \<Longrightarrow> split_ws s = []"
  by (subst split_ws.simps) (simp only: list.case)

lemma split_ws_Cons:
  "dropWhile isspace s = c # cs \<Longrightarrow>
   split_ws s = (c # takeWhile (\<lambda>x. \<not> isspace x) cs) # split_ws (dropWhile (\<lambda>x. \<not> isspace x) cs)"
  by (subst split_ws.simps) (simp only: list.case)

definition is_word :: "string \<Rightarrow> bool" where
  "is_word w \<longleftrightarrow> w \<noteq> [] \<and> (\<forall>c \<in> set w. \<not> isspace c)"

lemma split_ws_words: "w \<in> set (split_ws s) \<Longrightarrow> is_word w"
proof (induction s rule: split_ws.induct)
  case (1 s)
  show ?case
  proof (cases "dropWhile isspace s")
    case Nil
    then show ?thesis using 1(2) split_ws_Nil by simp
  next
    case (Cons c cs)
    have "\<not> isspace c" using Cons by (metis hd_dropWhile list.distinct(1) list.sel(1))
    then have "is_word (c # takeWhile (\<lambda>x. \<not> isspace x) cs)"
      by (auto simp: is_word_def dest: set_takeWhileD)
    then show ?thesis using 1(1) [OF Cons] 1(2) split_ws_Cons [OF Cons] by auto
  qed
qed

lemma split_ws_space: "isspace c \<Longrightarrow> split_ws (c # s) = split_ws s"
  by (simp add: split_ws.simps [of "c # s"] split_ws.simps [of s])

lemma takeWhile_not_space: "is_word w \<Longrightarrow> takeWhile (\<lambda>x. \<not> isspace x) (w @ s) = w @ takeWhile (\<lambda>x. \<not> isspace x) s"
  by (simp add: is_word_def)

lemma split_ws_word:
  assumes "is_word w" and "s = [] \<or> isspace (hd s)"
  shows "split_ws (w @ s) = w # split_ws s"
proof -
  obtain c cs where w: "w = c # cs" "\<not> isspace c" "\<forall>x \<in> set cs. \<not> isspace x"
    using assms(1) by (cases w) (auto simp: is_word_def)
  have "takeWhile (\<lambda>x. \<not> isspace x) (cs @ s) = cs" "dropWhile (\<lambda>x. \<not> isspace x) (cs @ s) = s"
    using assms(2) w(3) by (cases s; simp add: takeWhile_append dropWhile_append)+
  then show ?thesis using w by (simp add: split_ws.simps [of "c # (cs @ s)"])
qed

text \<open>The pairs that \<open>while (infile >> k >> v)\<close> reads; a last word without a partner is dropped.\<close>

fun word_pairs :: "string list \<Rightarrow> (string \<times> string) list" where
  "word_pairs (k # v # ws) = (k, v) # word_pairs ws"
| "word_pairs ws = []"

section \<open>Files read by lines\<close>

text \<open>What is left of the file, and whether the stream is still good (neither eof nor fail set).\<close>

record ifstream =
  rest :: string
  good :: bool

definition open_file :: "string option \<Rightarrow> ifstream" where
  "open_file f = (case f of None \<Rightarrow> \<lparr>rest = [], good = False\<rparr> | Some s \<Rightarrow> \<lparr>rest = s, good = True\<rparr>)"

text \<open>
  \<open>std::getline(in, line)\<close>: the result, the line and the stream. On a stream that is not good the
  line keeps its old value; a line that ends at the end of the file sets the eof bit.
\<close>

definition getline :: "ifstream \<Rightarrow> string \<Rightarrow> bool \<times> string \<times> ifstream" where
  "getline f line =
     (if \<not> good f then (False, line, f)
      else let l = takeWhile (\<lambda>c. c \<noteq> CHR 0x0A) (rest f); r = dropWhile (\<lambda>c. c \<noteq> CHR 0x0A) (rest f)
           in (case r of
                 [] \<Rightarrow> (l \<noteq> [], l, \<lparr>rest = [], good = False\<rparr>)
               | _ # r' \<Rightarrow> (True, l, \<lparr>rest = r', good = True\<rparr>)))"

definition stream_size :: "ifstream \<Rightarrow> nat" where
  "stream_size f = (if good f then Suc (length (rest f)) else 0)"

lemma getline_smaller:
  assumes "good f" and "getline f line = (ok, line', f')"
  shows "stream_size f' < stream_size f"
proof -
  define l where "l = takeWhile (\<lambda>c. c \<noteq> CHR 0x0A) (rest f)"
  define r where "r = dropWhile (\<lambda>c. c \<noteq> CHR 0x0A) (rest f)"
  have len: "length r \<le> length (rest f)" unfolding r_def by (rule length_dropWhile_le)
  have "getline f line = (case r of [] \<Rightarrow> (l \<noteq> [], l, \<lparr>rest = [], good = False\<rparr>)
      | _ # r' \<Rightarrow> (True, l, \<lparr>rest = r', good = True\<rparr>))"
    using assms(1) by (simp only: getline_def Let_def l_def r_def not_True_eq_False if_False)
  then show ?thesis
    using assms len by (cases r) (auto simp: stream_size_def)
qed

lemma getline_le: "getline f line = (ok, line', f') \<Longrightarrow> stream_size f' \<le> stream_size f"
  using getline_smaller [of f line ok line' f'] by (cases "good f") (auto simp: getline_def)

lemma getline_True: "getline f line = (True, line', f') \<Longrightarrow> good f"
  by (auto simp: getline_def split: if_splits)

section \<open>Tokens and numbers\<close>

text \<open>
  The loop that cuts a line at its commas: \<open>token = line.substr(0, pos); line.erase(0, pos + 1)\<close>
  while the line is not empty.
\<close>

function comma_tokens :: "string \<Rightarrow> string list" where
  "comma_tokens line =
     (if line = [] then []
      else let t = takeWhile (\<lambda>c. c \<noteq> CHR '','') line
           in t # comma_tokens (drop (length t + 1) line))"
  by pat_completeness auto
termination by (relation "measure length") (auto simp: length_greater_0_conv)

declare comma_tokens.simps [simp del]

definition isdigit :: "char \<Rightarrow> bool" where
  "isdigit c \<longleftrightarrow> 48 \<le> (of_char c :: nat) \<and> (of_char c :: nat) \<le> 57"

definition dec_value :: "string \<Rightarrow> int" where
  "dec_value ds = foldl (\<lambda>n c. 10 * n + (of_char c - 48)) 0 ds"

text \<open>\<open>atoi\<close>; a value outside the range of \<open>int\<close> is undefined behaviour.\<close>

definition atoi :: "string \<Rightarrow> int res" where
  "atoi s =
     (let t = dropWhile isspace (c_str s);
          neg = (case t of c # _ \<Rightarrow> c = CHR ''-'' | [] \<Rightarrow> False);
          signed = (case t of c # _ \<Rightarrow> c = CHR ''-'' \<or> c = CHR ''+'' | [] \<Rightarrow> False);
          n = dec_value (takeWhile isdigit (if signed then tl t else t));
          v = (if neg then - n else n)
      in if - (2 ^ 31) \<le> v \<and> v < 2 ^ 31 then Inr v else Inl Int_Overflow)"

text \<open>\<open>std::to_string\<close> of an unsigned number.\<close>

fun to_string :: "nat \<Rightarrow> string" where
  "to_string n = (if n < 10 then [char_of (48 + n)] else to_string (n div 10) @ [char_of (48 + n mod 10)])"

declare to_string.simps [simp del]

definition toupper :: "char \<Rightarrow> char" where
  "toupper c = (if 97 \<le> (of_char c :: nat) \<and> (of_char c :: nat) \<le> 122
                then char_of ((of_char c :: nat) - 32) else c)"

definition upper :: "string \<Rightarrow> string" where
  "upper s = map toupper s"

text \<open>\<open>s.find(c, pos)\<close>: the first position from \<open>pos\<close> on, \<open>None\<close> for \<open>npos\<close>.\<close>

fun find_char :: "char \<Rightarrow> string \<Rightarrow> nat option" where
  "find_char c [] = None"
| "find_char c (x # xs) = (if x = c then Some 0 else map_option Suc (find_char c xs))"

definition str_find :: "string \<Rightarrow> char \<Rightarrow> nat \<Rightarrow> nat option" where
  "str_find s c pos = map_option (\<lambda>i. pos + i) (find_char c (drop pos s))"

end
