(* ===== verification/Workload.thy ===== *)
theory Workload
  imports Store Text
begin

text \<open>
  The workload (\<open>Storage/test/wl.cpp\<close>, \<open>test_wl.cpp\<close>): the parser of the schema file, which fills the
  maps of tables and indexes, and the ten rows of \<open>TestWorkload::init_table\<close>. Both maps are part of
  the store.
\<close>

section \<open>The schema file\<close>

text \<open>
  The memory the workload finds: what the allocator left in the place of \<open>cur_tab_size\<close> of each table,
  and how many bytes can be read behind a temporary on the stack.
\<close>

record mem_env =
  tab_garbage :: "string \<Rightarrow> u64"
  stack_room :: nat

text \<open>
  The lines of a table section: \<open>while (line.length() > 1) { lines.push_back(line); getline(fin, line); }\<close>.
  The loop does not look at the result of \<open>getline\<close>, so that it need not end; \<open>None\<close> is not ending.
\<close>

partial_function (option) read_lines :: "ifstream \<Rightarrow> string \<Rightarrow> (string list \<times> string \<times> ifstream) option" where
  "read_lines f line =
     (if length line > 1
      then let (ok, line1, f1) = getline f line
           in Option.bind (read_lines f1 line1) (\<lambda>(ls, line2, f2). Some (line # ls, line2, f2))
      else Some ([], line, f))"

declare read_lines.simps [code]

text \<open>
  On a stream that has reached the end of the file \<open>getline\<close> changes neither the line nor the stream:
  the loop goes round for ever.
\<close>

lemma read_lines_bad:
  assumes "\<not> good f" and "length line > 1"
  shows "read_lines f line = None"
proof (rule ccontr)
  assume "read_lines f line \<noteq> None"
  then obtain y where y: "read_lines f line = Some y" by blast
  have "good f \<or> length line \<le> 1"
  proof (rule read_lines.raw_induct [where P = "\<lambda>f line y. good f \<or> length line \<le> 1", OF _ y])
    fix loop :: "ifstream \<Rightarrow> string \<Rightarrow> (string list \<times> string \<times> ifstream) option" and f line y
    assume IH: "\<And>f line y. loop f line = Some y \<Longrightarrow> good f \<or> length line \<le> 1"
      and body: "(if length line > 1
        then let (ok, line1, f1) = getline f line
             in Option.bind (loop f1 line1) (\<lambda>(ls, line2, f2). Some (line # ls, line2, f2))
        else Some ([], line, f)) = Some y"
    show "good f \<or> length line \<le> 1"
    proof (rule ccontr)
      assume no: "\<not> (good f \<or> length line \<le> 1)"
      then have "loop f line \<noteq> None" using body by (cases "loop f line") (auto simp: getline_def)
      then show False using IH [of f line] no by blast
    qed
  qed
  with assms show False by simp
qed

lemma read_lines_size:
  assumes "read_lines f line = Some (ls, line', f')"
  shows "stream_size f' \<le> stream_size f"
proof -
  have "stream_size (snd (snd (ls, line', f'))) \<le> stream_size f"
  proof (rule read_lines.raw_induct [where P = "\<lambda>f line y. stream_size (snd (snd y)) \<le> stream_size f", OF _ assms])
    fix loop :: "ifstream \<Rightarrow> string \<Rightarrow> (string list \<times> string \<times> ifstream) option" and f line y
    assume IH: "\<And>f line y. loop f line = Some y \<Longrightarrow> stream_size (snd (snd y)) \<le> stream_size f"
      and body: "(if length line > 1
        then let (ok, line1, f1) = getline f line
             in Option.bind (loop f1 line1) (\<lambda>(ls, line2, f2). Some (line # ls, line2, f2))
        else Some ([], line, f)) = Some y"
    obtain ok line1 f1 where g: "getline f line = (ok, line1, f1)" by (rule prod_cases3)
    show "stream_size (snd (snd y)) \<le> stream_size f"
    proof (cases "length line > 1")
      case True
      then obtain z where "loop f1 line1 = Some z" "snd (snd y) = snd (snd z)"
        using body g by (cases "loop f1 line1") (auto split: prod.splits)
      then show ?thesis using IH [of f1 line1 z] getline_le [OF g] by simp
    qed (use body in auto)
  qed
  then show ?thesis by simp
qed

text \<open>
  One column line, cut at the commas: the first token goes through \<open>atoi\<close>, the second is the type, the
  third the name. The \<open>default\<close> of the switch and the assertion after the loop both stop the program
  unless there are exactly three tokens.
\<close>

definition parse_col :: "Catalog \<Rightarrow> string \<Rightarrow> Catalog res" where
  "parse_col c line =
     (case comma_tokens line of
        [] \<Rightarrow> Inl Assert_Failed
      | sz # toks \<Rightarrow> R_bind (atoi sz) (\<lambda>n.
          case toks of
            [ty, nm] \<Rightarrow> add_col c (c_str nm) (word_of_int n) (c_str ty)
          | _ \<Rightarrow> Inl Assert_Failed))"

fun parse_cols :: "Catalog \<Rightarrow> string list \<Rightarrow> Catalog res" where
  "parse_cols c [] = Inr c"
| "parse_cols c (l # ls) = R_bind (parse_col c l) (\<lambda>c1. parse_cols c1 ls)"

text \<open>\<open>table_t::init\<close>; \<open>cur_tab_size\<close> keeps what the allocator left there.\<close>

definition table_init :: "u64 \<Rightarrow> Catalog \<Rightarrow> table_t" where
  "table_init garbage c = \<lparr>schema = c, table_name = cat_table_name c, cur_tab_size = garbage\<rparr>"

text \<open>
  \<open>workload::init_schema\<close>; the constants are the prefixes it compares the first six characters of a
  line with. \<open>tables[tname]\<close> of an index section is null for an unknown table.
\<close>

function schema_loop :: "mem_env \<Rightarrow> ifstream \<Rightarrow> string \<Rightarrow> store \<Rightarrow> store res" where
  "schema_loop m f line s =
     (let (ok, line1, f1) = getline f line
      in if \<not> ok then Inr s
         else if take 6 line1 = ''TABLE=''
         then let tname = c_str (drop 6 line1); (ok2, line2, f2) = getline f1 line1
              in R_bind (R_loop (read_lines f2 line2)) (\<lambda>(ls, line3, f3).
                 R_bind (parse_cols (catalog_init tname (length ls)) ls) (\<lambda>c.
                   schema_loop m f3 line3
                     (s\<lparr>tables := (tables s)(tname \<mapsto> table_init (tab_garbage m tname) c)\<rparr>)))
         else if take 6 line1 = ''INDEX=''
         then let iname = c_str (drop 6 line1); (ok2, line2, f2) = getline f1 line1
              in R_bind (R_nth (comma_tokens line2) 0) (\<lambda>item.
                 let tname = item
                 in R_bind (index_init_table (if tables s tname = None then None else Some tname)) (\<lambda>ix.
                   schema_loop m f2 [] (s\<lparr>indexes := (indexes s)(iname \<mapsto> ix)\<rparr>)))
         else schema_loop m f1 line1 s)"
  by pat_completeness auto
termination
proof (relation "measure (\<lambda>(g, f, line, s). stream_size f)", goal_cases)
  case 1
  show ?case by simp
next
  case (2 m f line s x ok xa line1 f1 tname x2 ok2 xa2 line2 f2 x3 ls xa3 line3 f3 c)
  then have g: "getline f line = (True, line1, f1)" and g2: "getline f1 line1 = (ok2, line2, f2)"
    and r: "read_lines f2 line2 = Some (ls, line3, f3)" by (simp_all add: R_loop_Inr_iff)
  have "stream_size f1 < stream_size f" by (rule getline_smaller [OF getline_True [OF g] g])
  moreover have "stream_size f3 \<le> stream_size f2" by (rule read_lines_size [OF r])
  moreover have "stream_size f2 \<le> stream_size f1" by (rule getline_le [OF g2])
  ultimately show ?case by simp
next
  case (3 m f line s x ok xa line1 f1 iname x2 ok2 xa2 line2 f2)
  then have g: "getline f line = (True, line1, f1)" and g2: "getline f1 line1 = (ok2, line2, f2)"
    by simp_all
  have "stream_size f1 < stream_size f" by (rule getline_smaller [OF getline_True [OF g] g])
  moreover have "stream_size f2 \<le> stream_size f1" by (rule getline_le [OF g2])
  ultimately show ?case by simp
next
  case (4 m f line s x ok xa line1 f1)
  then have g: "getline f line = (True, line1, f1)" by simp
  then have "stream_size f1 < stream_size f" by (rule getline_smaller [OF getline_True [OF g]])
  then show ?case by simp
qed

declare schema_loop.simps [simp del]

text \<open>The workload object starts with empty maps; a file that cannot be opened reads as none.\<close>

definition workload_new :: store where
  "workload_new = \<lparr>tables = Map.empty, indexes = Map.empty, rows = Map.empty, next_row = 0, timestamp = 0\<rparr>"

definition init_schema :: "mem_env \<Rightarrow> string option \<Rightarrow> store \<Rightarrow> store res" where
  "init_schema m schema_file s = schema_loop m (open_file schema_file) [] s"

section \<open>The initial rows\<close>

text \<open>
  \<open>(void*) std::to_string(rid).c_str()\<close>: the characters of a temporary string and a NUL, in the string
  object itself because they are few. \<open>set_value\<close> copies a whole column from there, far beyond the end
  of the object, which goes well if the stack goes on long enough behind it (\<open>stack_room\<close>).
\<close>

definition c_str_bytes :: "string \<Rightarrow> byte list" where
  "c_str_bytes s = map Byte s @ [Byte NUL]"

definition init_row :: "mem_env \<Rightarrow> store \<Rightarrow> nat \<Rightarrow> store res" where
  "init_row m s rid =
     R_bind (get_new_row s ''Data_TABLE'' 0) (\<lambda>(s1, new_row, row_id).
     R_bind (set_primary_key s1 new_row (of_nat rid)) (\<lambda>s2.
     R_bind (set_value s2 new_row 0 (on_stack (stack_room m) (c_str_bytes (to_string rid)))) (\<lambda>s3.
     R_bind (set_value s3 new_row 1 (on_stack (stack_room m) (c_str_bytes (to_string rid)))) (\<lambda>s4.
     R_bind (deref_index s4 ''Data_INDEX'') (\<lambda>ix.
     R_bind (index_insert ix (of_nat rid) \<lparr>item_type = DT_row, location = Some new_row, valid = True\<rparr> 0)
       (\<lambda>ix'. Inr (s4\<lparr>indexes := (indexes s4)(''Data_INDEX'' \<mapsto> ix')\<rparr>)))))))"

fun init_rows :: "mem_env \<Rightarrow> store \<Rightarrow> nat \<Rightarrow> nat \<Rightarrow> store res" where
  "init_rows m s rid 0 = Inr s"
| "init_rows m s rid (Suc n) = R_bind (init_row m s rid) (\<lambda>s1. init_rows m s1 (Suc rid) n)"

definition init_table :: "mem_env \<Rightarrow> store \<Rightarrow> store res" where
  "init_table m s = init_rows m s 0 10"

text \<open>\<open>TestWorkload::init\<close>.\<close>

definition test_workload_init :: "mem_env \<Rightarrow> string option \<Rightarrow> store res" where
  "test_workload_init m schema_file =
     R_bind (init_schema m schema_file workload_new) (\<lambda>s.
     R_bind (R_assert (tables s ''Data_TABLE'' \<noteq> None \<and> indexes s ''Data_INDEX'' \<noteq> None)) (\<lambda>_.
       init_table m s))"

end
