(* ===== verification/Engine.thy ===== *)
theory Engine
  imports Workload Kv_Api
begin

text \<open>
  The start of the engine (\<open>init_engine\<close> of \<open>Server/kv_api.cpp\<close>): the workload's schema and rows,
  the clock, and the records of the data file, each loaded by a transaction of its own.
\<close>

section \<open>Loading one record\<close>

text \<open>
  The body of the loading loop. \<open>get_new_row\<close> and \<open>index_insert\<close> always return \<open>RCOK\<close>, so the two
  branches that abort are not taken. The transaction has no accesses; finishing it validates and
  takes a timestamp. The result says whether the record counts as loaded.
\<close>

definition load_record :: "(string \<Rightarrow> u64) \<Rightarrow> store \<Rightarrow> string \<times> string \<Rightarrow> (bool \<times> store) res" where
  "load_record hasher s kv =
     (let (key, val) = kv; pk = hash_key hasher key
      in R_bind (get_new_row s ''Data_TABLE'' 0) (\<lambda>(s1, new_row, row_id).
         R_bind (set_primary_key s1 new_row pk) (\<lambda>s2.
         R_bind (set_value s2 new_row 0 (strncpy_buf 128 key)) (\<lambda>s3.
         R_bind (set_value s3 new_row 1 (strncpy_buf 1024 val)) (\<lambda>s4.
         R_bind (deref_index s4 ''Data_INDEX'') (\<lambda>ix.
         R_bind (index_insert ix pk \<lparr>item_type = DT_row, location = Some new_row, valid = True\<rparr> 0) (\<lambda>ix'.
         R_bind (finish (s4\<lparr>indexes := (indexes s4)(''Data_INDEX'' \<mapsto> ix')\<rparr>) txn_init RCOK)
           (\<lambda>(rc, s5, t5). Inr (rc = RCOK \<or> rc = Commit, s5)))))))))"

fun load_records :: "(string \<Rightarrow> u64) \<Rightarrow> store \<Rightarrow> nat \<Rightarrow> (string \<times> string) list \<Rightarrow> (nat \<times> store) res" where
  "load_records hasher s cnt [] = Inr (cnt, s)"
| "load_records hasher s cnt (kv # kvs) =
     R_bind (load_record hasher s kv) (\<lambda>(loaded, s1).
       load_records hasher s1 (if loaded then Suc cnt else cnt) kvs)"

section \<open>Start\<close>

text \<open>
  The result, the number of records reported as loaded, and the engine. \<open>data_file\<close> is \<open>None\<close> when
  the file cannot be opened.
\<close>

definition init_engine ::
    "(string \<Rightarrow> u64) \<Rightarrow> mem_env \<Rightarrow> string option \<Rightarrow> string option \<Rightarrow> (bool \<times> nat \<times> engine) res" where
  "init_engine hasher m schema_file data_file =
     R_bind (test_workload_init m schema_file) (\<lambda>s.
       let s1 = manager_init s
       in if tables s1 ''Data_TABLE'' = None \<or> indexes s1 ''Data_INDEX'' = None
          then Inr (False, 0, \<lparr>st = s1, g_txn_id = 1\<rparr>)
          else (case data_file of
                  None \<Rightarrow> Inr (True, 0, \<lparr>st = s1, g_txn_id = 1\<rparr>)
                | Some text \<Rightarrow>
                    R_bind (load_records hasher s1 0 (word_pairs (split_ws text))) (\<lambda>(cnt, s2).
                      Inr (True, cnt, \<lparr>st = s2, g_txn_id = 1\<rparr>))))"

end
