(* ===== verification/Init_Ok.thy ===== *)
theory Init_Ok
  imports Engine Serializability
begin

text \<open>
  The engine starts well-formed: the repository's schema file yields the schema the storage layer
  works with, and for every data file \<open>init_engine\<close> returns a well-formed engine whose contents are
  the ten initial rows overwritten by the records of the file in order.
\<close>

section \<open>Inserting rows before any transaction runs\<close>

definition fresh_store :: "store \<Rightarrow> bool" where
  "fresh_store s \<longleftrightarrow> has_table s \<and>
     (\<exists>ix. indexes s ''Data_INDEX'' = Some ix \<and> wf_index ix \<and>
        (\<forall>pk it. index_read ix pk 0 = Inr (Some it) \<longrightarrow> location it \<noteq> None)) \<and>
     (\<forall>pk r. idx_row s pk = Some r \<longrightarrow> (\<exists>k v. shared_row s r pk k v 0)) \<and>
     (\<forall>r \<ge> next_row s. rows s r = None)"

lemma fresh_store_wf: "fresh_store s \<Longrightarrow> 0 < timestamp s \<Longrightarrow> wf_store s"
  unfolding fresh_store_def wf_store_def by blast

text \<open>One more row in the index, replacing an older one with the same primary key if there is one.\<close>

lemma fresh_add_row:
  assumes fs: "fresh_store s" and ix: "indexes s ''Data_INDEX'' = Some ix"
      "index_insert ix pk \<lparr>item_type = DT_row, location = Some (next_row s), valid = True\<rparr> 0 = Inr ix'"
    and s1: "has_table s1" "rows s1 = rows s" "indexes s1 = indexes s" "next_row s1 = next_row s"
      "timestamp s1 = timestamp s"
    and row: "row_table row = ''Data_TABLE''" "primary_key row = Some pk"
      "manager row = Some \<lparr>wts = 0, latched = False\<rparr>" "data row = Some d" "tuple_ok d k v"
    and s': "s' = (add_row s1 row)\<lparr>indexes := (indexes s)(''Data_INDEX'' \<mapsto> ix')\<rparr>"
  shows "fresh_store s'" and "timestamp s' = timestamp s"
    and "db_view s' = (db_view s)(pk \<mapsto> \<lparr>a_key = k, a_val = v, a_wts = 0\<rparr>)"
proof -
  have wix: "wf_index ix" using fs ix(1) by (simp add: fresh_store_def)
  have read: "index_read ix' q 0 = (if q = pk
      then Inr (Some \<lparr>item_type = DT_row, location = Some (next_row s), valid = True\<rparr>)
      else index_read ix q 0)" for q
    by (rule hash_ix.read_insert [OF wix ix(2)])
  have idx: "idx_row s' = (idx_row s)(pk \<mapsto> next_row s)"
    by (rule ext) (simp add: idx_row_def s' ix(1) read)
  have rows: "rows s' q = (if q = next_row s then Some row else rows s q)" for q
    by (simp add: s' s1)
  have none: "rows s (next_row s) = None" using fs by (simp add: fresh_store_def)
  have new: "shared_row s' (next_row s) pk k v 0"
    using row by (simp add: shared_row_def rows)
  have old: "\<exists>k v. shared_row s' r q k v 0 \<and> rows s' r = rows s r" if r: "idx_row s q = Some r" for r q
  proof -
    obtain k v where sh: "shared_row s r q k v 0" using fs r unfolding fresh_store_def by blast
    then have "rows s r \<noteq> None" by (auto simp: shared_row_def)
    then have "rows s' r = rows s r" using none by (auto simp: rows)
    then show ?thesis using sh shared_row_cong [of s' r s] by metis
  qed
  have "\<exists>k v. shared_row s' r q k v 0" if "idx_row s' q = Some r" for q r
    using that new old [of q r] by (auto simp: idx split: if_splits)
  moreover have "has_table s'" using s1(1) by (simp add: s' has_table_def)
  moreover have "wf_index ix'" by (rule hash_ix.insert_inv [OF wix ix(2)])
  moreover have "location it \<noteq> None" if "index_read ix' q 0 = Inr (Some it)" for q it
    using that fs ix(1) unfolding read fresh_store_def by (auto split: if_splits)
  moreover have "rows s' r = None" if "next_row s' \<le> r" for r
  proof -
    have "next_row s' = Suc (next_row s)" by (simp add: s' s1)
    then show ?thesis using that fs unfolding rows fresh_store_def by simp
  qed
  ultimately show "fresh_store s'"
    by (simp add: fresh_store_def) (simp add: s')
  show "timestamp s' = timestamp s" by (simp add: s' s1)
  show "db_view s' = (db_view s)(pk \<mapsto> \<lparr>a_key = k, a_val = v, a_wts = 0\<rparr>)"
  proof
    fix q
    show "db_view s' q = ((db_view s)(pk \<mapsto> \<lparr>a_key = k, a_val = v, a_wts = 0\<rparr>)) q"
    proof (cases "q = pk")
      case True
      then show ?thesis using row_view_shared [OF new] by (simp add: db_view_def idx)
    next
      case False
      then show ?thesis
        using old [of q] by (cases "idx_row s q") (auto simp: db_view_def idx row_view_def)
    qed
  qed
qed

lemma fresh_store_index:
  assumes "fresh_store s"
  obtains ix ix' where "indexes s ''Data_INDEX'' = Some ix" "deref_index s ''Data_INDEX'' = Inr ix"
    "index_insert ix pk item 0 = Inr ix'"
proof -
  obtain ix where ix: "indexes s ''Data_INDEX'' = Some ix" "wf_index ix"
    using assms by (auto simp: fresh_store_def)
  obtain ix' where "index_insert ix pk item 0 = Inr ix'"
    using hash_ix.insert_ok [OF ix(2), of pk item] by blast
  with ix show ?thesis using that by (simp add: deref_index_def)
qed

lemma deref_index_cong: "indexes s' = indexes s \<Longrightarrow> deref_index s' nm = deref_index s nm"
  by (simp add: deref_index_def)

section \<open>Loading records\<close>

lemma finish_empty: "finish s txn_init RCOK = Inr (RCOK, s\<lparr>timestamp := timestamp s + 1\<rparr>,
    txn_init\<lparr>lock_cnt := 0, end_ts := timestamp s, row_cnt := 0, wr_cnt := 0, insert_rows := [],
      record_pos := Map.empty\<rparr>)"
  by (simp add: finish_def validate_def sort_accesses_def txn_init_def get_ts_def cleanup_def)

definition loaded :: "(string \<Rightarrow> u64) \<Rightarrow> adb \<Rightarrow> string \<times> string \<Rightarrow> adb" where
  "loaded h db kv = db(h (fst kv) \<mapsto> \<lparr>a_key = trunc_key (fst kv), a_val = trunc_val (snd kv), a_wts = 0\<rparr>)"

lemma fresh_store_time [simp]: "fresh_store (s\<lparr>timestamp := x\<rparr>) = fresh_store s"
  by (simp add: fresh_store_def shared_row_def)

lemma db_view_time [simp]: "db_view (s\<lparr>timestamp := x\<rparr>) = db_view s"
  by (simp add: db_view_def fun_eq_iff row_view_def [abs_def])

lemma load_record_ok:
  assumes fs: "fresh_store s"
  shows "\<exists>s'. load_record h s kv = Inr (True, s') \<and> fresh_store s' \<and> timestamp s' = timestamp s + 1 \<and>
    db_view s' = loaded h (db_view s) kv"
proof -
  obtain key val where kv: "kv = (key, val)" by (cases kv)
  let ?pk = "h key" and ?n = "next_row s"
  have ht: "has_table s" using fs by (simp add: fresh_store_def)
  obtain s1 sa sb sc rid where mk: "get_new_row s ''Data_TABLE'' 0 = Inr (sa, ?n, rid)"
    "set_primary_key sa ?n ?pk = Inr sb" "set_value sb ?n 0 (strncpy_buf 128 key) = Inr sc"
    "set_value sc ?n 1 (strncpy_buf 1024 val) = Inr (add_row s1 (new_row ?pk rid key val))"
    and s1: "has_table s1" "rows s1 = rows s" "indexes s1 = indexes s" "next_row s1 = next_row s"
    "timestamp s1 = timestamp s"
    by (rule make_row_ok [OF ht])
  obtain ix ix' where ix: "indexes s ''Data_INDEX'' = Some ix" "deref_index s ''Data_INDEX'' = Inr ix"
    "index_insert ix ?pk \<lparr>item_type = DT_row, location = Some ?n, valid = True\<rparr> 0 = Inr ix'"
    by (rule fresh_store_index [OF fs])
  define s' where "s' = (add_row s1 (new_row ?pk rid key val))\<lparr>indexes := (indexes s)(''Data_INDEX'' \<mapsto> ix')\<rparr>"
  have "fresh_store s'" "timestamp s' = timestamp s"
    "db_view s' = (db_view s)(?pk \<mapsto> \<lparr>a_key = trunc_key key, a_val = trunc_val val, a_wts = 0\<rparr>)"
    using fresh_add_row [OF fs ix(1,3) s1 _ _ _ _ tuple_ok_buffers s'_def] by (simp_all add: new_row_def)
  moreover have "deref_index (add_row s1 (new_row ?pk rid key val)) ''Data_INDEX'' = Inr ix"
    using ix(2) s1(3) deref_index_cong [of "add_row s1 (new_row ?pk rid key val)" s] by simp
  then have "load_record h s kv = Inr (True, s'\<lparr>timestamp := timestamp s' + 1\<rparr>)"
    using mk ix(3) s1(3) finish_empty [of s']
    by (simp add: load_record_def kv hash_key_def s'_def)
  ultimately show ?thesis by (simp add: loaded_def kv)
qed

lemma load_records_ok:
  assumes "fresh_store s"
  shows "\<exists>s'. load_records h s n kvs = Inr (n + length kvs, s') \<and> fresh_store s' \<and>
    timestamp s' = timestamp s + of_nat (length kvs) \<and> db_view s' = foldl (loaded h) (db_view s) kvs"
  using assms
proof (induction kvs arbitrary: s n)
  case Nil
  then show ?case by simp
next
  case (Cons kv kvs)
  obtain s1 where s1: "load_record h s kv = Inr (True, s1)" "fresh_store s1" "timestamp s1 = timestamp s + 1"
    "db_view s1 = loaded h (db_view s) kv"
    using load_record_ok [OF Cons.prems] by blast
  obtain s2 where "load_records h s1 (Suc n) kvs = Inr (Suc n + length kvs, s2)" "fresh_store s2"
    "timestamp s2 = timestamp s1 + of_nat (length kvs)" "db_view s2 = foldl (loaded h) (db_view s1) kvs"
    using Cons.IH [OF s1(2)] by blast
  then show ?case using s1 by (simp add: algebra_simps)
qed

section \<open>The initial rows\<close>

text \<open>The bytes \<open>init_table\<close> copies into a column of \<open>n\<close> bytes: a string and what follows it in memory.\<close>

definition overread :: "nat \<Rightarrow> string \<Rightarrow> byte list" where
  "overread n s = take n (c_str_bytes s @ replicate n Uninit)"

lemma length_overread [simp]: "length (overread n s) = n"
  by (simp add: overread_def)

lemma take_on_stack:
  assumes "n \<le> Suc (length s) + k"
  shows "take n (on_stack k (c_str_bytes s)) = overread n s"
proof -
  have "take (n - length s) (Byte NUL # replicate k Uninit) = take (n - length s) (Byte NUL # replicate n Uninit)"
    using assms by (cases "n - length s") (auto simp: min_def)
  then show ?thesis by (simp add: overread_def on_stack_def c_str_bytes_def)
qed

lemma overread_str: "nul_free s \<Longrightarrow> length s < n \<Longrightarrow> read_cstr (overread n s @ rs) = Inr s"
proof -
  assume a: "nul_free s" "length s < n"
  then have "overread n s = map Byte s @ Byte NUL # take (n - Suc (length s)) (replicate n Uninit)"
    by (simp add: overread_def c_str_bytes_def) (simp add: take_Cons')
  then show ?thesis using read_cstr_append_NUL [OF a(1)] by simp
qed

lemma set_value_overread:
  assumes "has_table s" and "rows s r = Some row" "row_table row = ''Data_TABLE''" "data row = Some d"
    "length d = 1152" and room: "1024 \<le> Suc (length str) + k"
  shows "set_value s r 0 (on_stack k (c_str_bytes str)) =
      Inr (put_row s r (row\<lparr>data := Some (overread 128 str @ drop 128 d)\<rparr>))"
    and "set_value s r 1 (on_stack k (c_str_bytes str)) =
      Inr (put_row s r (row\<lparr>data := Some (take 128 d @ overread 1024 str)\<rparr>))"
proof -
  have "length (on_stack k (c_str_bytes str)) = Suc (length str) + k" by (simp add: on_stack_def c_str_bytes_def)
  then show "set_value s r 0 (on_stack k (c_str_bytes str)) =
      Inr (put_row s r (row\<lparr>data := Some (overread 128 str @ drop 128 d)\<rparr>))"
    and "set_value s r 1 (on_stack k (c_str_bytes str)) =
      Inr (put_row s r (row\<lparr>data := Some (take 128 d @ overread 1024 str)\<rparr>))"
    using assms take_on_stack [of 128 str k] take_on_stack [of 1024 str k]
    by (simp_all add: set_value_def get_schema_ok get_data_def mem_copy_def)
qed

definition initial_row :: "nat \<Rightarrow> arow" where
  "initial_row rid = \<lparr>a_key = to_string rid, a_val = to_string rid, a_wts = 0\<rparr>"

definition with_row :: "adb \<Rightarrow> nat \<Rightarrow> adb" where
  "with_row db rid = db(of_nat rid \<mapsto> initial_row rid)"

lemma init_row_ok:
  assumes fs: "fresh_store s" and rid: "nul_free (to_string rid)" "length (to_string rid) < 128"
    and room: "1023 \<le> length (to_string rid) + stack_room m"
  shows "\<exists>s'. init_row m s rid = Inr s' \<and> fresh_store s' \<and> timestamp s' = timestamp s \<and>
    db_view s' = with_row (db_view s) rid"
proof -
  let ?n = "next_row s" and ?str = "to_string rid" and ?k = "stack_room m"
  have ht: "has_table s" using fs by (simp add: fresh_store_def)
  obtain s1 i row where a: "get_new_row s ''Data_TABLE'' 0 = Inr (add_row s1 row, ?n, i)"
    and s1: "has_table s1" "rows s1 = rows s" "indexes s1 = indexes s" "next_row s1 = next_row s"
    "timestamp s1 = timestamp s"
    and row: "row_table row = ''Data_TABLE''" "data row = Some (replicate 1152 Uninit)"
    "manager row = Some \<lparr>wts = 0, latched = False\<rparr>"
    by (rule get_new_row_ok [OF ht])
  let ?row1 = "row\<lparr>primary_key := Some (of_nat rid)\<rparr>"
  let ?row2 = "?row1\<lparr>data := Some (overread 128 ?str @ drop 128 (replicate 1152 Uninit))\<rparr>"
  let ?row3 = "?row2\<lparr>data := Some (overread 128 ?str @ overread 1024 ?str)\<rparr>"
  have pk: "set_primary_key (add_row s1 row) ?n (of_nat rid) = Inr (add_row s1 ?row1)"
    using s1(4) put_row_add_row [of s1 row ?row1] by (simp add: set_primary_key_def)
  have v0: "set_value (add_row s1 ?row1) ?n 0 (on_stack ?k (c_str_bytes ?str)) = Inr (add_row s1 ?row2)"
    using set_value_overread(1) [of "add_row s1 ?row1" ?n ?row1 "replicate 1152 Uninit" ?str ?k]
      room s1 row put_row_add_row [of s1 ?row1 ?row2] by simp
  have v1: "set_value (add_row s1 ?row2) ?n 1 (on_stack ?k (c_str_bytes ?str)) = Inr (add_row s1 ?row3)"
    using set_value_overread(2) [of "add_row s1 ?row2" ?n ?row2 "overread 128 ?str @ drop 128 (replicate 1152 Uninit)" ?str ?k]
      room s1 row put_row_add_row [of s1 ?row2 ?row3] by simp
  obtain ix ix' where ix: "indexes s ''Data_INDEX'' = Some ix" "deref_index s ''Data_INDEX'' = Inr ix"
    "index_insert ix (of_nat rid) \<lparr>item_type = DT_row, location = Some ?n, valid = True\<rparr> 0 = Inr ix'"
    by (rule fresh_store_index [OF fs])
  define s' where "s' = (add_row s1 ?row3)\<lparr>indexes := (indexes s)(''Data_INDEX'' \<mapsto> ix')\<rparr>"
  have tup: "tuple_ok (overread 128 ?str @ overread 1024 ?str) ?str ?str"
    using overread_str [OF rid(1), of 128 "[]"] overread_str [OF rid(1), of 1024 "[]"] rid(2)
    by (simp add: tuple_ok_def)
  have "fresh_store s'" "timestamp s' = timestamp s"
    "db_view s' = with_row (db_view s) rid"
    using fresh_add_row [OF fs ix(1,3) s1 _ _ _ _ tup s'_def] row by (simp_all add: initial_row_def with_row_def)
  moreover have "deref_index (add_row s1 ?row3) ''Data_INDEX'' = Inr ix"
    using ix(2) s1(3) deref_index_cong [of "add_row s1 ?row3" s] by simp
  then have "init_row m s rid = Inr s'"
    using a pk v0 v1 ix(3) s1(3) by (simp add: init_row_def s'_def)
  ultimately show ?thesis by blast
qed

lemma to_string_pos: "1 \<le> length (to_string n)"
  by (simp add: to_string.simps [of n])

lemma init_rows_ok:
  assumes "fresh_store s" and "\<forall>i < n. nul_free (to_string (rid + i)) \<and> length (to_string (rid + i)) < 128"
    and "1022 \<le> stack_room m"
  shows "\<exists>s'. init_rows m s rid n = Inr s' \<and> fresh_store s' \<and> timestamp s' = timestamp s \<and>
    db_view s' = foldl with_row (db_view s) [rid ..< rid + n]"
  using assms
proof (induction n arbitrary: s rid)
  case 0
  then show ?case by simp
next
  case (Suc n)
  have "nul_free (to_string rid) \<and> length (to_string rid) < 128"
    using Suc.prems(2) [rule_format, of 0] by simp
  then obtain s1 where s1: "init_row m s rid = Inr s1" "fresh_store s1" "timestamp s1 = timestamp s"
    "db_view s1 = with_row (db_view s) rid"
    using init_row_ok [OF Suc.prems(1), of rid m] Suc.prems(3) to_string_pos [of rid] by auto
  have "\<forall>i < n. nul_free (to_string (Suc rid + i)) \<and> length (to_string (Suc rid + i)) < 128"
    using Suc.prems(2) by (metis Suc_less_eq add_Suc_shift)
  then obtain s2 where s2: "init_rows m s1 (Suc rid) n = Inr s2" "fresh_store s2" "timestamp s2 = timestamp s1"
    "db_view s2 = foldl with_row (db_view s1) [Suc rid ..< Suc rid + n]"
    using Suc.IH [OF s1(2) _ Suc.prems(3)] by blast
  have list: "[rid ..< rid + Suc n] = rid # [Suc rid ..< Suc rid + n]"
    using upt_conv_Cons [of rid "rid + Suc n"] by (simp del: upt_Suc)
  show ?case unfolding list using s1 s2 by (simp del: upt_Suc)
qed

lemma to_string_digit: "n < 10 \<Longrightarrow> to_string n = [char_of (48 + n)]"
  by (simp add: to_string.simps)

lemma digits_ok: "n < 10 \<Longrightarrow> nul_free (to_string n) \<and> length (to_string n) < 128"
proof -
  assume n: "n < 10"
  have "(of_char (char_of (48 + n) :: char) :: nat) = 48 + n" using n by (simp add: of_char_of)
  moreover have "(of_char NUL :: nat) = 0" by simp
  ultimately have "char_of (48 + n) \<noteq> NUL" by (metis add_is_0 zero_neq_numeral)
  then show ?thesis using n by (simp add: to_string_digit nul_free_def)
qed

definition initial_db :: adb where
  "initial_db = foldl with_row Map.empty [0 ..< 10]"

lemma init_table_ok:
  assumes "fresh_store s" and "db_view s = Map.empty" and "1022 \<le> stack_room m"
  shows "\<exists>s'. init_table m s = Inr s' \<and> fresh_store s' \<and> timestamp s' = timestamp s \<and> db_view s' = initial_db"
  using init_rows_ok [OF assms(1) _ assms(3), of 10 0] digits_ok assms(2) by (simp add: init_table_def initial_db_def)

text \<open>
  With less readable memory behind the temporaries the first row already faults: \<open>init_table\<close> copies
  1024 bytes from a string object that holds two.
\<close>

lemma init_table_overread:
  assumes fs: "fresh_store s" and room: "stack_room m < 1022"
  shows "init_table m s = Inl Out_Of_Bounds"
proof -
  let ?n = "next_row s" and ?k = "stack_room m"
  have ht: "has_table s" using fs by (simp add: fresh_store_def)
  obtain s1 i row where a: "get_new_row s ''Data_TABLE'' 0 = Inr (add_row s1 row, ?n, i)"
    and s1: "has_table s1" "rows s1 = rows s" "indexes s1 = indexes s" "next_row s1 = next_row s"
    "timestamp s1 = timestamp s"
    and row: "row_table row = ''Data_TABLE''" "data row = Some (replicate 1152 Uninit)"
    "manager row = Some \<lparr>wts = 0, latched = False\<rparr>"
    by (rule get_new_row_ok [OF ht])
  let ?row1 = "row\<lparr>primary_key := Some 0\<rparr>"
  have pk: "set_primary_key (add_row s1 row) ?n 0 = Inr (add_row s1 ?row1)"
    using s1(4) put_row_add_row [of s1 row ?row1] by (simp add: set_primary_key_def)
  have len: "length (on_stack ?k (c_str_bytes (to_string 0))) = 2 + ?k"
    by (simp add: on_stack_def c_str_bytes_def to_string_digit)
  have "R_bind (set_value (add_row s1 ?row1) ?n 0 (on_stack ?k (c_str_bytes (to_string 0)))) (\<lambda>s3.
      set_value s3 ?n 1 (on_stack ?k (c_str_bytes (to_string 0)))) = Inl Out_Of_Bounds"
    using room row s1 len by (auto simp: set_value_def get_schema_ok get_data_def mem_copy_def put_row_def has_table_def
      deref_row_def get_schema_def deref_table_def)
  then have "init_row m s 0 = Inl Out_Of_Bounds"
    using a pk by (auto simp: init_row_def R_bind_Inl_iff)
  moreover have "(10 :: nat) = Suc 9" by simp
  ultimately show ?thesis by (simp only: init_table_def init_rows.simps R_bind.simps)
qed

section \<open>The schema file\<close>

text \<open>The contents of \<open>Storage/test/data_schema.txt\<close>.\<close>

definition data_schema_txt :: string where
  "data_schema_txt = ''//size, type, name'' @ [CHR 0x0A] @ ''TABLE=Data_TABLE'' @ [CHR 0x0A] @
     ''    128,string,KEY'' @ [CHR 0x0A] @ ''    1024,string,VALUE'' @ [CHR 0x0A] @ [CHR 0x0A] @
     ''INDEX=Data_INDEX'' @ [CHR 0x0A] @ ''Data_TABLE,1''"

text \<open>The parser touches the maps of tables and indexes only.\<close>

lemma schema_loop_keeps:
  "schema_loop g f line s = Inr s' \<Longrightarrow> rows s' = rows s \<and> next_row s' = next_row s \<and> timestamp s' = timestamp s"
proof (induction g f line s arbitrary: s' rule: schema_loop.induct)
  case (1 g f line s)
  obtain ok line1 f1 where g: "getline f line = (ok, line1, f1)" by (cases "getline f line") auto
  obtain ok2 line2 f2 where g2: "getline f1 line1 = (ok2, line2, f2)" by (cases "getline f1 line1") auto
  show ?case
  proof (cases "ok")
    case False
    then show ?thesis using "1.prems" g by (simp add: schema_loop.simps [of g f line s])
  next
    case True
    then have ok: "\<not> \<not> ok" by simp
    consider "take 6 line1 = ''TABLE=''" | "take 6 line1 \<noteq> ''TABLE=''" "take 6 line1 = ''INDEX=''"
      | "take 6 line1 \<noteq> ''TABLE=''" "take 6 line1 \<noteq> ''INDEX=''"
      by blast
    then show ?thesis
    proof cases
      case 1
      then obtain ls line3 f3 c where r: "read_lines f2 line2 = Some (ls, line3, f3)"
        "parse_cols (catalog_init (c_str (drop 6 line1)) (length ls)) ls = Inr c"
        "schema_loop g f3 line3 (s\<lparr>tables := (tables s)(c_str (drop 6 line1) \<mapsto> table_init (tab_garbage g (c_str (drop 6 line1))) c)\<rparr>) = Inr s'"
        using "1.prems" g g2 ok by (auto simp: schema_loop.simps [of g f line s] Let_def R_bind_Inr_iff R_loop_Inr_iff)
      have r1: "R_loop (read_lines f2 line2) = Inr (ls, line3, f3)" using r(1) by simp
      show ?thesis
        using "1.IH"(1) [OF refl g [symmetric] refl ok 1 refl refl g2 [symmetric] refl r1 refl refl r(2,3)]
        by simp
    next
      case 2
      then obtain item ix where r: "R_nth (comma_tokens line2) 0 = Inr item"
        "index_init_table (if tables s item = None then None else Some item) = Inr ix"
        "schema_loop g f2 [] (s\<lparr>indexes := (indexes s)(c_str (drop 6 line1) \<mapsto> ix)\<rparr>) = Inr s'"
        using "1.prems" g g2 ok by (auto simp: schema_loop.simps [of g f line s] R_bind_Inr_iff)
      show ?thesis
        using "1.IH"(2) [OF refl g [symmetric] refl ok 2 refl refl g2 [symmetric] refl r(1) refl r(2,3)]
        by simp
    next
      case 3
      then have "schema_loop g f1 line1 s = Inr s'"
        using "1.prems" g ok by (simp add: schema_loop.simps [of g f line s])
      then show ?thesis
        using "1.IH"(3) [OF refl g [symmetric] refl ok 3] by simp
    qed
  qed
qed

lemma schema_txt_parsed:
  "case init_schema g (Some data_schema_txt) workload_new of
     Inl _ \<Rightarrow> False
   | Inr s \<Rightarrow> tables s ''Data_TABLE'' = Some (table_init (tab_garbage g ''Data_TABLE'') data_catalog) \<and>
       indexes s ''Data_INDEX'' = Some \<lparr>buckets = [[bucket_init]], bucket_cnt = 1,
         bucket_cnt_per_part = 1, ix_table = Some ''Data_TABLE''\<rparr>"
  by code_simp

lemma init_schema_ok:
  obtains s where "init_schema g (Some data_schema_txt) workload_new = Inr s" "fresh_store s"
    "db_view s = Map.empty" "tables s ''Data_TABLE'' \<noteq> None" "indexes s ''Data_INDEX'' \<noteq> None"
proof -
  let ?ix = "\<lparr>buckets = [[bucket_init]], bucket_cnt = 1, bucket_cnt_per_part = 1, ix_table = Some ''Data_TABLE''\<rparr>"
  obtain s where s: "init_schema g (Some data_schema_txt) workload_new = Inr s"
    "tables s ''Data_TABLE'' = Some (table_init (tab_garbage g ''Data_TABLE'') data_catalog)" "indexes s ''Data_INDEX'' = Some ?ix"
    using schema_txt_parsed [of g]
    by (cases "init_schema g (Some data_schema_txt) workload_new") auto
  have rows: "rows s = Map.empty"
    using schema_loop_keeps s(1) unfolding init_schema_def by (fastforce simp: workload_new_def)
  have ix: "wf_index ?ix" "\<And>k. index_read ?ix k 0 = Inr None"
    using wf_index_init_table [of "Some ''Data_TABLE''"]
    by (simp_all add: index_init_table_def index_init_def R_assert_def)
  then have none: "idx_row s pk = None" for pk by (simp add: idx_row_def s(3))
  have "fresh_store s"
    using s ix none rows by (simp add: fresh_store_def has_table_def table_init_def)
  moreover have "db_view s = Map.empty" by (simp add: db_view_def none fun_eq_iff)
  ultimately show ?thesis using that s by simp
qed

section \<open>The engine\<close>

definition loaded_db :: "(string \<Rightarrow> u64) \<Rightarrow> string option \<Rightarrow> adb" where
  "loaded_db h data_file = foldl (loaded h) initial_db
     (case data_file of None \<Rightarrow> [] | Some contents \<Rightarrow> word_pairs (split_ws contents))"

definition record_count :: "string option \<Rightarrow> nat" where
  "record_count data_file = (case data_file of None \<Rightarrow> 0 | Some contents \<Rightarrow> length (word_pairs (split_ws contents)))"

lemma init_engine_fresh:
  assumes room: "1022 \<le> stack_room g"
  shows "\<exists>e. init_engine h g (Some data_schema_txt) data_file = Inr (True, record_count data_file, e) \<and>
     fresh_store (st e) \<and> db_view (st e) = loaded_db h data_file \<and>
     timestamp (st e) = 1 + of_nat (record_count data_file) \<and> g_txn_id e = 1"
proof -
  obtain s where s: "init_schema g (Some data_schema_txt) workload_new = Inr s" "fresh_store s"
    "db_view s = Map.empty" "tables s ''Data_TABLE'' \<noteq> None" "indexes s ''Data_INDEX'' \<noteq> None"
    by (rule init_schema_ok)
  obtain s1 where s1: "init_table g s = Inr s1" "fresh_store s1" "db_view s1 = initial_db"
    using init_table_ok [OF s(2,3) room] by blast
  then have w: "test_workload_init g (Some data_schema_txt) = Inr s1"
    using s by (simp add: test_workload_init_def R_assert_def)
  have s2: "fresh_store (manager_init s1)" "db_view (manager_init s1) = initial_db"
    "timestamp (manager_init s1) = 1"
    using s1 by (simp_all add: manager_init_def)
  have some: "tables (manager_init s1) ''Data_TABLE'' \<noteq> None" "indexes (manager_init s1) ''Data_INDEX'' \<noteq> None"
    using s2(1) by (auto simp: fresh_store_def has_table_def)
  show ?thesis
  proof (cases data_file)
    case None
    then show ?thesis
      using w s2 some by (simp add: init_engine_def Let_def loaded_db_def record_count_def)
  next
    case (Some contents)
    obtain s3 where "load_records h (manager_init s1) 0 (word_pairs (split_ws contents)) =
        Inr (length (word_pairs (split_ws contents)), s3)" "fresh_store s3"
      "timestamp s3 = 1 + of_nat (length (word_pairs (split_ws contents)))"
      "db_view s3 = foldl (loaded h) initial_db (word_pairs (split_ws contents))"
      using load_records_ok [OF s2(1), of h 0 "word_pairs (split_ws contents)"] s2(2,3) by auto
    then show ?thesis
      using w some by (simp add: init_engine_def Let_def Some loaded_db_def record_count_def)
  qed
qed

lemma init_engine_overread:
  assumes "stack_room g < 1022"
  shows "init_engine h g (Some data_schema_txt) data_file = Inl Out_Of_Bounds"
proof -
  obtain s where s: "init_schema g (Some data_schema_txt) workload_new = Inr s" "fresh_store s"
    "db_view s = Map.empty" "tables s ''Data_TABLE'' \<noteq> None" "indexes s ''Data_INDEX'' \<noteq> None"
    by (rule init_schema_ok)
  then show ?thesis
    using init_table_overread [OF s(2) assms] by (simp add: init_engine_def test_workload_init_def R_assert_def)
qed

text \<open>The system right after the start: no client has a transaction.\<close>

definition start_sys :: "engine \<Rightarrow> sys" where
  "start_sys e = \<lparr>eng = e, handles = (\<lambda>_. handle_init)\<rparr>"

lemma start_sys_simps [simp]: "eng (start_sys e) = e" "impl (handles (start_sys e) c) = None"
  by (simp_all add: start_sys_def handle_init_def)

lemma wf_start_sys: "wf_store (st e) \<Longrightarrow> wf_sys (start_sys e)"
  by (simp add: wf_sys_def)

lemma engine_started:
  assumes "record_count data_file < 2 ^ 64 - 1" and room: "1022 \<le> stack_room g"
  shows "\<exists>e. init_engine h g (Some data_schema_txt) data_file = Inr (True, record_count data_file, e) \<and>
     wf_sys (start_sys e) \<and> db_view (st e) = loaded_db h data_file \<and>
     unat (timestamp (st e)) = Suc (record_count data_file)"
proof -
  obtain e where e: "init_engine h g (Some data_schema_txt) data_file = Inr (True, record_count data_file, e)"
    "fresh_store (st e)" "db_view (st e) = loaded_db h data_file"
    "timestamp (st e) = of_nat (Suc (record_count data_file))"
    using init_engine_fresh [OF room, of h data_file] by auto
  have ts: "unat (timestamp (st e)) = Suc (record_count data_file)"
    unfolding e(4) unat_of_nat using assms(1) by simp
  then have "0 < timestamp (st e)" by (simp add: word_less_nat_alt)
  then have "wf_store (st e)" by (rule fresh_store_wf [OF e(2)])
  then show ?thesis using e ts wf_start_sys by blast
qed

text \<open>
  C17. Start of the engine: with the repository's schema file and a data file of fewer than
  \<open>2 ^ 64 - 1\<close> records (or none), \<open>init_engine\<close> returns without a fault, provided that at least 1022 bytes
  can be read behind the temporary strings from which \<open>init_table\<close> copies whole columns; otherwise it
  reads out of bounds. It then reports every record as loaded and leaves a well-formed engine. Its
  contents are the ten initial rows, overwritten by the records of the file in order (truncated to
  the columns); the clock has counted the records.
\<close>

theorem init_engine_correct:
  assumes "record_count data_file < 2 ^ 64 - 1"
  shows "if stack_room m < 1022 then init_engine h m (Some data_schema_txt) data_file = Inl Out_Of_Bounds
     else \<exists>e. init_engine h m (Some data_schema_txt) data_file = Inr (True, record_count data_file, e) \<and>
       wf_sys (start_sys e) \<and> db_view (st e) = loaded_db h data_file \<and>
       unat (timestamp (st e)) = Suc (record_count data_file)"
  using engine_started [OF assms, of m h] init_engine_overread [of m h data_file] by simp

theorem init_engine_correct_witness:
  "\<exists>e. init_engine (\<lambda>_. 7) \<lparr>tab_garbage = (\<lambda>_. 5), stack_room = 2000\<rparr> (Some data_schema_txt) (Some ''1 2 3 4 5'') =
       Inr (True, 2, e) \<and>
     wf_sys (start_sys e) \<and> db_view (st e) = loaded_db (\<lambda>_. 7) (Some ''1 2 3 4 5'') \<and>
     unat (timestamp (st e)) = 3"
proof -
  have "record_count (Some ''1 2 3 4 5'') = 2" by code_simp
  then show ?thesis
    using init_engine_correct [of "Some ''1 2 3 4 5''" "\<lparr>tab_garbage = (\<lambda>_. 5), stack_room = 2000\<rparr>" "\<lambda>_. 7"] by simp
qed

end
