(* ===== verification/Demo.thy ===== *)
theory Demo
  imports Isolation Init_Ok
begin

text \<open>
  A concrete engine for the witnesses: the one \<open>init_engine\<close> builds from the repository's schema
  file without a data file, with a hash function that sends one-digit keys to their digit, so that
  clients reach the initial rows.
\<close>

definition demo_hash :: "string \<Rightarrow> u64" where
  "demo_hash key = (case key of [c] \<Rightarrow> if isdigit c then of_nat (of_char c - 48) else 100 | _ \<Rightarrow> 100)"

definition demo_env :: mem_env where
  "demo_env = \<lparr>tab_garbage = (\<lambda>_. 0), stack_room = 4096\<rparr>"

lemma demo_env_room: "1022 \<le> stack_room demo_env"
  by (simp add: demo_env_def)

definition demo_start :: sys where
  "demo_start = (case init_engine demo_hash demo_env (Some data_schema_txt) None of
     Inr (_, _, e) \<Rightarrow> start_sys e | Inl _ \<Rightarrow> start_sys \<lparr>st = workload_new, g_txn_id = 0\<rparr>)"

definition demo_abs :: asys where
  "demo_abs = \<lparr>a_db = initial_db, a_time = 1, a_next = 1, a_txns = Map.empty\<rparr>"

lemma demo_start_ok:
  shows "wf_sys demo_start" and "abs_sys demo_start = demo_abs" and "impl (handles demo_start c) = None"
    and "db_view (st (eng demo_start)) = initial_db" and "timestamp (st (eng demo_start)) = 1"
proof -
  obtain e where e: "init_engine demo_hash demo_env (Some data_schema_txt) None = Inr (True, 0, e)"
    "fresh_store (st e)" "db_view (st e) = initial_db" "timestamp (st e) = 1" "g_txn_id e = 1"
    using init_engine_fresh [OF demo_env_room, of demo_hash None] by (auto simp: record_count_def loaded_db_def)
  have d: "demo_start = start_sys e" by (simp add: demo_start_def e(1))
  show "wf_sys demo_start"
    unfolding d by (rule wf_start_sys [OF fresh_store_wf [OF e(2)]]) (simp add: e(4))
  show "abs_sys demo_start = demo_abs"
    by (rule asys_eqI) (simp_all add: d demo_abs_def e)
  show "impl (handles demo_start c) = None" "db_view (st (eng demo_start)) = initial_db"
    "timestamp (st (eng demo_start)) = 1"
    by (simp_all add: d e)
qed

text \<open>The system after some calls.\<close>

definition demo_at :: "(nat \<times> api_call) list \<Rightarrow> sys" where
  "demo_at cs = (case run demo_hash demo_start cs of Inr (_, y) \<Rightarrow> y | Inl _ \<Rightarrow> demo_start)"

definition demo_abs_at :: "(nat \<times> api_call) list \<Rightarrow> asys" where
  "demo_abs_at cs = snd (a_run demo_hash demo_abs cs)"

lemma demo_at_ok:
  assumes "a_oks demo_hash demo_abs cs"
  shows "wf_sys (demo_at cs)" and "abs_sys (demo_at cs) = demo_abs_at cs"
proof -
  obtain evs y where "run demo_hash demo_start cs = Inr (evs, y)" "wf_sys y"
    "a_run demo_hash demo_abs cs = (evs, abs_sys y)"
    using run_ok [OF demo_start_ok(1), of demo_hash cs] assms by (auto simp: demo_start_ok(2))
  then show "wf_sys (demo_at cs)" "abs_sys (demo_at cs) = demo_abs_at cs"
    by (simp_all add: demo_at_def demo_abs_at_def)
qed

lemma ten: "[0 ..< 10] = [0, 1, 2, 3, 4, 5, 6, 7, 8, 9 :: nat]"
  by code_simp

lemma initial_db_eq:
  "initial_db = [0 \<mapsto> initial_row 0, 1 \<mapsto> initial_row 1, 2 \<mapsto> initial_row 2, 3 \<mapsto> initial_row 3,
      4 \<mapsto> initial_row 4, 5 \<mapsto> initial_row 5, 6 \<mapsto> initial_row 6, 7 \<mapsto> initial_row 7,
      8 \<mapsto> initial_row 8, 9 \<mapsto> initial_row 9]"
  unfolding initial_db_def ten by (simp add: with_row_def)

lemma demo_keys: "demo_hash ''3'' = 3" "demo_hash ''4'' = 4" "demo_hash ''k'' = 100"
  by code_simp+

lemma demo_rows:
  "initial_db 3 = Some \<lparr>a_key = ''3'', a_val = ''3'', a_wts = 0\<rparr>"
  "initial_db 4 = Some \<lparr>a_key = ''4'', a_val = ''4'', a_wts = 0\<rparr>"
  "initial_db 100 = None"
proof -
  have "to_string 3 = ''3''" "to_string 4 = ''4''" by code_simp+
  then show "initial_db 3 = Some \<lparr>a_key = ''3'', a_val = ''3'', a_wts = 0\<rparr>"
    "initial_db 4 = Some \<lparr>a_key = ''4'', a_val = ''4'', a_wts = 0\<rparr>"
    by (simp_all add: initial_db_eq initial_row_def)
  show "initial_db 100 = None" by (simp add: initial_db_eq)
qed

lemma demo_strings: "c_str ''3'' = ''3''" "c_str ''4'' = ''4''" "c_str ''k'' = ''k''" "trunc_val ''x'' = ''x''"
  by code_simp+

lemmas demo_simps = demo_keys demo_rows demo_strings

text \<open>Two clients that read and write; the second one loses.\<close>

definition demo_calls :: "(nat \<times> api_call) list" where
  "demo_calls = [(0, Begin_txn), (1, Begin_txn), (0, Get ''3''), (0, Put ''3'' ''x''), (1, Get ''3''),
     (1, Put ''4'' ''x''), (0, Commit_txn), (1, Commit_txn), (1, Begin_txn), (1, Get ''3''), (1, Commit_txn)]"

lemma demo_updates: "updates_only demo_hash initial_db demo_calls"
  by (auto simp: updates_only_def demo_calls_def demo_simps)

lemma demo_bounded: "calls_bounded (\<lambda>_. 0) demo_calls"
  by (simp add: demo_calls_def MAX_ROW_PER_TXN_def)

lemma demo_oks: "a_oks demo_hash demo_abs demo_calls"
proof (rule bounded_oks)
  show "explained demo_hash (content (a_db demo_abs)) demo_abs hist_init"
    by (rule explained_init) (simp add: demo_abs_def)
  show "within demo_abs (\<lambda>_. 0)" by (simp add: within_def demo_abs_def)
  show "calls_bounded (\<lambda>_. 0) demo_calls" by (rule demo_bounded)
  show "updates_only demo_hash (a_db demo_abs) demo_calls" using demo_updates by (simp add: demo_abs_def)
  show "unat (a_time demo_abs) + length demo_calls < 2 ^ 64" by (simp add: demo_abs_def demo_calls_def)
qed

lemma demo_run_value: "fst (a_run demo_hash demo_abs demo_calls) =
   [(0, Begin_txn, Rc_OK, []), (1, Begin_txn, Rc_OK, []), (0, Get ''3'', Rc_OK, ''3''),
    (0, Put ''3'' ''x'', Rc_OK, []), (1, Get ''3'', Rc_OK, ''3''), (1, Put ''4'' ''x'', Rc_OK, []),
    (0, Commit_txn, Rc_OK, []), (1, Commit_txn, Rc_ABORT, []), (1, Begin_txn, Rc_OK, []),
    (1, Get ''3'', Rc_OK, ''x''), (1, Commit_txn, Rc_OK, [])]"
  by (simp add: demo_calls_def demo_abs_def demo_simps a_read_def a_update_def a_access_def a_valid_def
      a_write_back_def Let_def)

lemma demo_ctx:
  assumes "a_oks demo_hash demo_abs cs" and "a_txns (demo_abs_at cs) c = Some x"
  obtains ctx where "impl (handles (demo_at cs) c) = Some ctx"
    "acc_view (st (eng (demo_at cs))) (ctx_txn ctx) = at_acc x" "start_ts (ctx_txn ctx) = at_start x"
    "length (insert_rows (ctx_txn ctx)) = at_ins x"
proof -
  have "a_txns (abs_sys (demo_at cs)) c = Some x" using assms demo_at_ok(2) by simp
  then show ?thesis
    using that by (cases "impl (handles (demo_at cs) c)") (auto simp: abs_txn_def)
qed

lemma demo_abs_view:
  assumes "a_oks demo_hash demo_abs cs"
  shows "db_view (st (eng (demo_at cs))) = a_db (demo_abs_at cs)"
    and "timestamp (st (eng (demo_at cs))) = a_time (demo_abs_at cs)"
  using arg_cong [OF demo_at_ok(2) [OF assms], of a_db] arg_cong [OF demo_at_ok(2) [OF assms], of a_time]
  by simp_all

lemmas demo_eval = demo_abs_at_def demo_abs_def demo_simps a_read_def a_update_def a_insert_def a_access_def
  a_valid_def a_write_back_def Let_def

text \<open>Both clients have read row 3 and the first one has written it.\<close>

definition demo_race :: "(nat \<times> api_call) list" where
  "demo_race = [(0, Begin_txn), (1, Begin_txn), (0, Put ''3'' ''x''), (1, Get ''3'')]"

lemma demo_race_oks: "a_oks demo_hash demo_abs demo_race"
  by (simp add: demo_race_def demo_eval a_room_def MAX_ROW_PER_TXN_def)

lemma demo_race_abs:
  "a_txns (demo_abs_at demo_race) 0 =
     Some \<lparr>at_acc = [3 \<mapsto> \<lparr>aw = True, ak = ''3'', av = ''x''\<rparr>], at_start = 1, at_ins = 0\<rparr>"
  "a_txns (demo_abs_at demo_race) 1 =
     Some \<lparr>at_acc = [3 \<mapsto> \<lparr>aw = False, ak = ''3'', av = ''3''\<rparr>], at_start = 2, at_ins = 0\<rparr>"
  "a_db (demo_abs_at demo_race) = initial_db" "a_time (demo_abs_at demo_race) = 3"
  by (simp_all add: demo_race_def demo_eval)

text \<open>One client that has just started, one that started before a commit of another, two that accessed the same rows.\<close>

lemma demo_one_oks: "a_oks demo_hash demo_abs [(0, Begin_txn)]"
  by (simp add: demo_abs_def)

lemma demo_one_abs:
  "a_txns (demo_abs_at [(0, Begin_txn)]) 0 = Some \<lparr>at_acc = Map.empty, at_start = 1, at_ins = 0\<rparr>"
  "a_db (demo_abs_at [(0, Begin_txn)]) = initial_db"
  by (simp_all add: demo_eval)

definition demo_stale :: "(nat \<times> api_call) list" where
  "demo_stale = [(0, Begin_txn), (1, Begin_txn), (0, Put ''3'' ''x''), (0, Commit_txn)]"

lemma demo_stale_oks: "a_oks demo_hash demo_abs demo_stale"
  by (simp add: demo_stale_def demo_eval a_room_def MAX_ROW_PER_TXN_def)

lemma demo_stale_abs:
  "a_txns (demo_abs_at demo_stale) 1 = Some \<lparr>at_acc = Map.empty, at_start = 2, at_ins = 0\<rparr>"
  "a_db (demo_abs_at demo_stale) 3 = Some \<lparr>a_key = ''3'', a_val = ''x'', a_wts = 3\<rparr>"
  "a_time (demo_abs_at demo_stale) = 4"
  by (simp_all add: demo_stale_def demo_eval)

definition demo_pair :: "(nat \<times> api_call) list" where
  "demo_pair = [(0, Begin_txn), (1, Begin_txn), (0, Get ''3''), (0, Put ''4'' ''x''),
     (1, Get ''4''), (1, Get ''3'')]"

lemma demo_pair_oks: "a_oks demo_hash demo_abs demo_pair"
  by (simp add: demo_pair_def demo_eval a_room_def MAX_ROW_PER_TXN_def)

lemma demo_pair_abs:
  "\<exists>x. a_txns (demo_abs_at demo_pair) 0 = Some x \<and> card (dom (at_acc x)) = 2"
  "\<exists>x. a_txns (demo_abs_at demo_pair) 1 = Some x \<and> card (dom (at_acc x)) = 2"
  by (simp_all add: demo_pair_def demo_eval)

lemma demo_pair_txns:
  obtains t u where "wf_store (st (eng (demo_at demo_pair)))" "wf_txn (st (eng (demo_at demo_pair))) t"
    "wf_txn (st (eng (demo_at demo_pair))) u" "row_cnt t = 2" "row_cnt u = 2"
proof -
  let ?y = "demo_at demo_pair"
  note wf = demo_at_ok(1) [OF demo_pair_oks]
  obtain x0 x1 where x: "a_txns (demo_abs_at demo_pair) 0 = Some x0" "card (dom (at_acc x0)) = 2"
    "a_txns (demo_abs_at demo_pair) 1 = Some x1" "card (dom (at_acc x1)) = 2"
    using demo_pair_abs by blast
  obtain c0 where c0: "impl (handles ?y 0) = Some c0" "acc_view (st (eng ?y)) (ctx_txn c0) = at_acc x0"
    by (rule demo_ctx [OF demo_pair_oks x(1)])
  obtain c1 where c1: "impl (handles ?y 1) = Some c1" "acc_view (st (eng ?y)) (ctx_txn c1) = at_acc x1"
    by (rule demo_ctx [OF demo_pair_oks x(3)])
  note wt = wf_sysD(2) [OF wf c0(1)] wf_sysD(2) [OF wf c1(1)]
  show ?thesis
    using that [OF wf_sysD(1) [OF wf] wt] row_cnt_card [OF wf_sysD(1) [OF wf] wt(1)]
      row_cnt_card [OF wf_sysD(1) [OF wf] wt(2)] c0(2) c1(2) x by simp
qed

end
