(* ===== verification/Server.thy ===== *)
theory Server
  imports Prelude
begin

text \<open>
  Reading and writing lines on a socket (\<open>Server/server.cpp\<close>). What the operating system does is an
  event sequence: the outcomes of the successive \<open>recv\<close> or \<open>send\<close> calls. An exhausted sequence means
  that the call blocks; the functions then return \<open>None\<close>.
\<close>

section \<open>Receiving a line\<close>

datatype recv_event = Recv char | Peer_Closed | Recv_EINTR | Recv_Error

definition MAX_LINE :: nat where "MAX_LINE = 64 * 1024"

text \<open>\<open>read_line\<close>: the flag \<open>ok\<close>, the line and the events left; \<open>out\<close> is what has been collected.\<close>

fun read_line :: "recv_event list \<Rightarrow> string \<Rightarrow> (bool \<times> string \<times> recv_event list) option" where
  "read_line [] out = None"
| "read_line (Peer_Closed # es) out = Some (False, [], es)"
| "read_line (Recv_EINTR # es) out = read_line es out"
| "read_line (Recv_Error # es) out = Some (False, [], es)"
| "read_line (Recv c # es) out =
     (if c = CHR 0x0A then Some (True, out, es)
      else let out1 = (if c \<noteq> CHR 0x0D then out @ [c] else out)
           in if length out1 > MAX_LINE then Some (False, [], es) else read_line es out1)"

section \<open>Sending\<close>

text \<open>\<open>Sent n\<close>: the call accepted \<open>n\<close> bytes, at most as many as were offered.\<close>

datatype send_event = Sent nat | Send_EINTR | Send_Error

text \<open>\<open>send_all\<close>: the result and the bytes handed over; \<open>data\<close> is what is still to be sent.\<close>

function send_all :: "send_event list \<Rightarrow> string \<Rightarrow> (bool \<times> string) option" where
  "send_all es data =
     (if data = [] then Some (True, [])
      else case es of
        [] \<Rightarrow> None
      | Send_EINTR # es1 \<Rightarrow> send_all es1 data
      | Send_Error # es1 \<Rightarrow> Some (False, [])
      | Sent n # es1 \<Rightarrow>
          map_option (\<lambda>(ok, bs). (ok, take n data @ bs)) (send_all es1 (drop n data)))"
  by pat_completeness auto
termination by (relation "measure (\<lambda>(es, data). length es)") auto

declare send_all.simps [simp del]

section \<open>Properties\<close>

text \<open>What a client types: the characters of a line, possibly with \<open>EINTR\<close> in between.\<close>

fun received :: "recv_event list \<Rightarrow> string" where
  "received [] = []"
| "received (Recv c # es) = c # received es"
| "received (e # es) = received es"

definition uninterrupted :: "recv_event list \<Rightarrow> bool" where
  "uninterrupted es \<longleftrightarrow> Peer_Closed \<notin> set es \<and> Recv_Error \<notin> set es"

lemma read_line_shorter: "read_line es out = Some (ok, line, es') \<Longrightarrow> length es' < length es"
  by (induction es out arbitrary: ok line es' rule: read_line.induct)
    (auto simp: Let_def less_SucI split: if_splits)

lemma read_line_prefix:
  assumes "uninterrupted es" and "CHR 0x0A \<notin> set (received es)"
    and "length out + length (filter (\<lambda>c. c \<noteq> CHR 0x0D) (received es)) \<le> MAX_LINE"
  shows "read_line (es @ Recv (CHR 0x0A) # rest) out =
    Some (True, out @ filter (\<lambda>c. c \<noteq> CHR 0x0D) (received es), rest)"
  using assms
proof (induction es arbitrary: out)
  case Nil
  then show ?case by simp
next
  case (Cons e es)
  have u: "uninterrupted es" using Cons.prems(1) by (auto simp: uninterrupted_def)
  show ?case
  proof (cases e)
    case (Recv c)
    then show ?thesis using Cons.IH [OF u] Cons.prems by (auto simp: Let_def)
  next
    case Recv_EINTR
    then show ?thesis using Cons.IH [OF u] Cons.prems by simp
  qed (use Cons.prems in \<open>auto simp: uninterrupted_def\<close>)
qed

text \<open>
  C24. A line sent by the client is received whole: if the characters before the next newline, read
  in any pieces and with any interruptions by signals, contain no newline and, without carriage
  returns, at most \<open>MAX_LINE\<close> characters, then \<open>read_line\<close> succeeds with exactly these characters
  and leaves what follows the newline unread.
\<close>

theorem read_line_whole:
  assumes "uninterrupted es" and "CHR 0x0A \<notin> set (received es)"
    and "length (filter (\<lambda>c. c \<noteq> CHR 0x0D) (received es)) \<le> MAX_LINE"
  shows "read_line (es @ Recv (CHR 0x0A) # rest) [] =
    Some (True, filter (\<lambda>c. c \<noteq> CHR 0x0D) (received es), rest)"
  using read_line_prefix [of es "[]" rest] assms by simp

theorem read_line_whole_witness:
  "read_line ([Recv (CHR ''G''), Recv_EINTR, Recv (CHR ''x''), Recv (CHR 0x0D)] @ Recv (CHR 0x0A) # [Peer_Closed]) [] =
    Some (True, ''Gx'', [Peer_Closed])"
  using read_line_whole [of "[Recv (CHR ''G''), Recv_EINTR, Recv (CHR ''x''), Recv (CHR 0x0D)]" "[Peer_Closed]"]
  by (simp add: uninterrupted_def MAX_LINE_def)

lemma read_line_bounded_acc:
  "length out \<le> MAX_LINE \<Longrightarrow> read_line es out = Some (ok, line, es') \<Longrightarrow>
   length line \<le> MAX_LINE \<and> (\<not> ok \<longrightarrow> line = [])"
  by (induction es out arbitrary: ok line es' rule: read_line.induct) (auto simp: Let_def split: if_splits)

lemma read_line_chars:
  "read_line es out = Some (True, line, es') \<Longrightarrow> CHR 0x0A \<notin> set out \<Longrightarrow> CHR 0x0D \<notin> set out \<Longrightarrow>
   CHR 0x0A \<notin> set line \<and> CHR 0x0D \<notin> set line"
  by (induction es out arbitrary: line es' rule: read_line.induct) (auto simp: Let_def split: if_splits)

text \<open>
  C25. Whatever the peer sends, a line handed to the session has at most \<open>MAX_LINE\<close> characters and
  no newline or carriage return; a failed read hands over the empty string.
\<close>

theorem read_line_bounded:
  assumes "read_line es [] = Some (ok, line, es')"
  shows "length line \<le> MAX_LINE \<and> CHR 0x0A \<notin> set line \<and> CHR 0x0D \<notin> set line \<and> (\<not> ok \<longrightarrow> line = [])"
  using read_line_bounded_acc [of "[]" es ok line es'] read_line_chars [of es "[]" line es'] assms
  by (cases ok) auto

theorem read_line_bounded_witness:
  "read_line [Recv (CHR ''G''), Recv (CHR 0x0D), Recv (CHR ''x''), Recv (CHR 0x0A)] [] = Some (True, ''Gx'', []) \<and>
    length ''Gx'' \<le> MAX_LINE \<and> CHR 0x0A \<notin> set ''Gx'' \<and> CHR 0x0D \<notin> set ''Gx''"
proof -
  have r: "read_line [Recv (CHR ''G''), Recv (CHR 0x0D), Recv (CHR ''x''), Recv (CHR 0x0A)] [] = Some (True, ''Gx'', [])"
    by (simp add: MAX_LINE_def)
  from read_line_bounded [OF r] r show ?thesis by blast
qed

text \<open>
  C26. \<open>send_all\<close> hands the bytes over once, in order: what has been sent is a prefix of the data, and
  it is all of the data exactly if the result is true, however the kernel splits the transfer; a false
  result needs an error other than \<open>EINTR\<close>. (A prefix that is not all of the data is shorter: bytes
  are left over.)
\<close>

theorem send_all_prefix:
  assumes "send_all es data = Some (ok, bs)"
  shows "\<exists>more. data = bs @ more \<and> (ok \<longleftrightarrow> more = []) \<and> (\<not> ok \<longrightarrow> Send_Error \<in> set es)"
  using assms
proof (induction es data arbitrary: ok bs rule: send_all.induct)
  case (1 es data)
  show ?case
  proof (cases "data = []")
    case True
    then show ?thesis using "1.prems" by (simp add: send_all.simps)
  next
    case ne: False
    then obtain e es1 where es: "es = e # es1" using "1.prems" by (cases es) (simp_all add: send_all.simps)
    show ?thesis
    proof (cases e)
      case (Sent n)
      then obtain bs1 where r: "send_all es1 (drop n data) = Some (ok, bs1)" "bs = take n data @ bs1"
        using "1.prems" [unfolded es] ne by (auto simp: send_all.simps [of "Sent n # es1" data])
      then obtain m where m: "drop n data = bs1 @ m" "ok \<longleftrightarrow> m = []" "\<not> ok \<longrightarrow> Send_Error \<in> set es1"
        using "1.IH"(1) [OF ne es Sent r(1)] by blast
      then have "data = bs @ m" using append_take_drop_id [of n data] r(2) by simp
      then show ?thesis using m es by auto
    next
      case Send_EINTR
      then have "send_all es1 data = Some (ok, bs)" using "1.prems" [unfolded es] ne by (simp add: send_all.simps [of "Send_EINTR # es1" data])
      then show ?thesis using "1.IH"(2) [OF ne es Send_EINTR] es by auto
    next
      case Send_Error
      then show ?thesis using "1.prems" [unfolded es] ne es by (auto simp: send_all.simps [of "Send_Error # es1" data])
    qed
  qed
qed

theorem send_all_prefix_witness:
  "\<exists>more. ''OK'' = ''O'' @ more \<and> more \<noteq> [] \<and> Send_Error \<in> set [Sent 1, Send_EINTR, Send_Error]"
proof -
  have s: "send_all [Sent 1, Send_EINTR, Send_Error] ''OK'' = Some (False, ''O'')"
    by (simp add: send_all.simps)
  from send_all_prefix [OF s] show ?thesis by blast
qed

end
