(* ===== verification/Session.thy ===== *)
theory Session
  imports Server Text Kv_Api
begin

text \<open>
  The command loop of a client connection (\<open>Server/session.cpp\<close>). It is written against the
  functions of \<open>Server/kv_api.h\<close>, here the record \<open>kv_ops\<close>; \<open>engine_ops\<close> are the real ones.
  The replies are the bytes passed to \<open>send_all\<close>, whose result the session ignores. What the session
  relies on is the locale \<open>kv_api\<close>, interpreted on the engine at the end.
\<close>

section \<open>The interface\<close>

record ('e, 'h) kv_ops =
  op_begin :: "'e \<Rightarrow> 'h \<Rightarrow> Rc \<times> 'e \<times> 'h"
  op_get :: "'e \<Rightarrow> 'h \<Rightarrow> string \<Rightarrow> string \<Rightarrow> (Rc \<times> string \<times> 'e \<times> 'h) res"
  op_put :: "'e \<Rightarrow> 'h \<Rightarrow> string \<Rightarrow> string \<Rightarrow> (Rc \<times> 'e \<times> 'h) res"
  op_commit :: "'e \<Rightarrow> 'h \<Rightarrow> (Rc \<times> 'e \<times> 'h) res"
  op_abort :: "'e \<Rightarrow> 'h \<Rightarrow> (Rc \<times> 'e \<times> 'h) res"
  op_id :: "'h \<Rightarrow> u64"

definition engine_ops :: "(string \<Rightarrow> u64) \<Rightarrow> (engine, TxnHandle) kv_ops" where
  "engine_ops hasher = \<lparr>op_begin = begin_txn, op_get = get hasher, op_put = put hasher,
     op_commit = commit, op_abort = abort_txn, op_id = h_id\<rparr>"

section \<open>One command\<close>

record 'h session =
  tx :: 'h
  in_txn :: bool

abbreviation nl :: string where
  "nl \<equiv> [CHR 0x0A]"

text \<open>
  The body of the loop for a line that was read: the reply, whether the loop goes on, and the new
  state. The value of a \<open>PUT\<close> is the line after its second space.
\<close>

definition put_value :: "string \<Rightarrow> string" where
  "put_value line =
     (let pos1 = str_find line (CHR '' '') 0;
          pos2 = (case pos1 of None \<Rightarrow> None | Some p \<Rightarrow> str_find line (CHR '' '') (p + 1))
      in case pos2 of None \<Rightarrow> [] | Some p \<Rightarrow> drop (p + 1) line)"

definition session_line ::
    "('e, 'h) kv_ops \<Rightarrow> 'e \<Rightarrow> 'h session \<Rightarrow> string \<Rightarrow> (string \<times> bool \<times> 'e \<times> 'h session) res" where
  "session_line ops e ss line =
     (let parts = split_ws line
      in if parts = [] then Inr (''ERR EMPTY_CMD'' @ nl, True, e, ss)
         else let cmd = upper (parts ! 0)
         in if cmd = ''START''
         then if in_txn ss then Inr (''ERR TXN_ALREADY_STARTED'' @ nl, True, e, ss)
              else let (rc, e1, h1) = op_begin ops e (tx ss)
                   in if rc = Rc_OK
                      then Inr (''OK TXN '' @ to_string (unat (op_id ops h1)) @ nl, True, e1,
                                \<lparr>tx = h1, in_txn = True\<rparr>)
                      else Inr (''ERR START_FAIL'' @ nl, True, e1, ss\<lparr>tx := h1\<rparr>)
         else if cmd = ''GET''
         then if \<not> in_txn ss then Inr (''ERR NO_ACTIVE_TXN'' @ nl, True, e, ss)
              else if length parts \<noteq> 2 then Inr (''ERR USAGE GET <key>'' @ nl, True, e, ss)
              else R_bind (op_get ops e (tx ss) (parts ! 1) []) (\<lambda>(rc, val, e1, h1).
                     if rc = Rc_OK then Inr (''OK VALUE '' @ val @ nl, True, e1, ss\<lparr>tx := h1\<rparr>)
                     else if rc = Rc_NOT_FOUND then Inr (''ERR NOT_FOUND'' @ nl, True, e1, ss\<lparr>tx := h1\<rparr>)
                     else if rc = Rc_ABORT then Inr (''ERR ABORT'' @ nl, True, e1, \<lparr>tx = h1, in_txn = False\<rparr>)
                     else Inr (''ERR GET_FAIL'' @ nl, True, e1, ss\<lparr>tx := h1\<rparr>))
         else if cmd = ''PUT''
         then if \<not> in_txn ss then Inr (''ERR NO_ACTIVE_TXN'' @ nl, True, e, ss)
              else if length parts < 3 then Inr (''ERR USAGE PUT <key> <value>'' @ nl, True, e, ss)
              else R_bind (op_put ops e (tx ss) (parts ! 1) (put_value line)) (\<lambda>(rc, e1, h1).
                     if rc = Rc_OK then Inr (''OK'' @ nl, True, e1, ss\<lparr>tx := h1\<rparr>)
                     else if rc = Rc_ABORT then Inr (''ERR ABORT'' @ nl, True, e1, \<lparr>tx = h1, in_txn = False\<rparr>)
                     else Inr (''ERR PUT_FAIL'' @ nl, True, e1, ss\<lparr>tx := h1\<rparr>))
         else if cmd = ''COMMIT''
         then if \<not> in_txn ss then Inr (''ERR NO_ACTIVE_TXN'' @ nl, True, e, ss)
              else R_bind (op_commit ops e (tx ss)) (\<lambda>(rc, e1, h1).
                     Inr (if rc = Rc_OK then ''OK COMMIT'' @ nl
                          else if rc = Rc_ABORT then ''ERR ABORT'' @ nl
                          else ''ERR COMMIT_FAIL'' @ nl, True, e1, \<lparr>tx = h1, in_txn = False\<rparr>))
         else if cmd = ''ABORT''
         then if \<not> in_txn ss then Inr (''ERR NO_ACTIVE_TXN'' @ nl, True, e, ss)
              else R_bind (op_abort ops e (tx ss)) (\<lambda>(rc, e1, h1).
                     Inr (''OK ABORT'' @ nl, True, e1, \<lparr>tx = h1, in_txn = False\<rparr>))
         else if cmd = ''END'' \<or> cmd = ''QUIT'' \<or> cmd = ''EXIT''
         then R_bind (if in_txn ss then op_abort ops e (tx ss) else Inr (Rc_OK, e, tx ss)) (\<lambda>(rc, e1, h1).
                Inr (''BYE'' @ nl, False, e1, \<lparr>tx = h1, in_txn = False\<rparr>))
         else Inr (''ERR BAD_CMD'' @ nl, True, e, ss))"

section \<open>The connection\<close>

text \<open>
  The loop: the replies sent so far, whether the connection has ended (otherwise it waits for more
  input), and the final state. A failed read rolls back an open transaction.
\<close>

function session_loop ::
    "('e, 'h) kv_ops \<Rightarrow> 'e \<Rightarrow> 'h session \<Rightarrow> recv_event list \<Rightarrow> (string list \<times> bool \<times> 'e \<times> 'h session) res" where
  "session_loop ops e ss evs =
     (case read_line evs [] of
        None \<Rightarrow> Inr ([], False, e, ss)
      | Some (ok, line, evs1) \<Rightarrow>
          if \<not> ok
          then R_bind (if in_txn ss then op_abort ops e (tx ss) else Inr (Rc_OK, e, tx ss)) (\<lambda>(rc, e1, h1).
                 Inr ([], True, e1, \<lparr>tx = h1, in_txn = False\<rparr>))
          else R_bind (session_line ops e ss line) (\<lambda>(reply, go_on, e1, ss1).
                 if go_on
                 then R_bind (session_loop ops e1 ss1 evs1) (\<lambda>(replies, ended, e2, ss2).
                        Inr (reply # replies, ended, e2, ss2))
                 else Inr ([reply], True, e1, ss1)))"
  by pat_completeness auto
termination
  by (relation "measure (\<lambda>(ops, e, ss, evs). length evs)") (auto dest: read_line_shorter)

declare session_loop.simps [simp del]

definition handle_client ::
    "('e, 'h) kv_ops \<Rightarrow> 'h \<Rightarrow> 'e \<Rightarrow> recv_event list \<Rightarrow> (string list \<times> bool \<times> 'e \<times> 'h session) res" where
  "handle_client ops tx0 e evs =
     R_bind (session_loop ops e \<lparr>tx = tx0, in_txn = False\<rparr> evs) (\<lambda>(replies, ended, e1, ss).
       Inr ((''WELCOME DataAgentDB'' @ nl) # replies, ended, e1, ss))"

section \<open>The contract with the engine\<close>

text \<open>
  What the session relies on: \<open>active\<close> handles have a running transaction; beginning always works;
  reads and writes never end a transaction, a commit or a rollback always does; the result codes
  are those the header names for each function.
\<close>

locale kv_api =
  fixes ops :: "('e, 'h) kv_ops" and active :: "'h \<Rightarrow> bool"
  assumes begin_law: "op_begin ops e h = (rc, e', h') \<Longrightarrow> rc = Rc_OK \<and> active h'"
    and get_law: "op_get ops e h k v = Inr (rc, v', e', h') \<Longrightarrow> active h \<Longrightarrow>
      (rc = Rc_OK \<or> rc = Rc_NOT_FOUND) \<and> active h'"
    and put_law: "op_put ops e h k v = Inr (rc, e', h') \<Longrightarrow> active h \<Longrightarrow>
      (rc = Rc_OK \<or> rc = Rc_ERROR) \<and> active h'"
    and commit_law: "op_commit ops e h = Inr (rc, e', h') \<Longrightarrow> active h \<Longrightarrow>
      (rc = Rc_OK \<or> rc = Rc_ABORT) \<and> \<not> active h'"
    and abort_law: "op_abort ops e h = Inr (rc, e', h') \<Longrightarrow> active h \<Longrightarrow> \<not> active h'"
begin

lemma session_line_START:
  assumes "session_line ops e ss line = Inr (reply, go_on, e', ss')" and "split_ws line \<noteq> []"
    and "upper (split_ws line ! 0) = ''START''" and "in_txn ss = active (tx ss)"
  shows "in_txn ss' = active (tx ss') \<and> go_on \<and> reply \<noteq> ''ERR START_FAIL'' @ nl"
proof (cases "op_begin ops e (tx ss)")
  case (fields rc e1 h1)
  then show ?thesis
    using assms begin_law [OF fields] by (auto simp: session_line_def split: if_splits)
qed

lemma session_line_GET:
  assumes "session_line ops e ss line = Inr (reply, go_on, e', ss')" and "split_ws line \<noteq> []"
    and "upper (split_ws line ! 0) = ''GET''" and "in_txn ss = active (tx ss)"
  shows "in_txn ss' = in_txn ss \<and> active (tx ss') = active (tx ss) \<and> go_on \<and>
    reply \<noteq> ''ERR ABORT'' @ nl \<and> reply \<noteq> ''ERR GET_FAIL'' @ nl"
proof (cases "in_txn ss \<and> length (split_ws line) = 2")
  case True
  then obtain rc val e1 h1 where g: "op_get ops e (tx ss) (split_ws line ! 1) [] = Inr (rc, val, e1, h1)"
    "(if rc = Rc_OK then Inr (''OK VALUE '' @ val @ nl, True, e1, ss\<lparr>tx := h1\<rparr>)
      else if rc = Rc_NOT_FOUND then Inr (''ERR NOT_FOUND'' @ nl, True, e1, ss\<lparr>tx := h1\<rparr>)
      else if rc = Rc_ABORT then Inr (''ERR ABORT'' @ nl, True, e1, \<lparr>tx = h1, in_txn = False\<rparr>)
      else Inr (''ERR GET_FAIL'' @ nl, True, e1, ss\<lparr>tx := h1\<rparr>)) =
     (Inr (reply, go_on, e', ss') :: (string \<times> bool \<times> 'e \<times> 'h session) res)"
    using assms(1-3) by (auto simp: session_line_def R_bind_Inr_iff)
  then show ?thesis
    using get_law [OF g(1)] True assms(4) by (auto split: if_splits)
next
  case False
  then show ?thesis using assms by (auto simp: session_line_def split: if_splits)
qed

lemma session_line_PUT:
  assumes "session_line ops e ss line = Inr (reply, go_on, e', ss')" and "split_ws line \<noteq> []"
    and "upper (split_ws line ! 0) = ''PUT''" and "in_txn ss = active (tx ss)"
  shows "in_txn ss' = in_txn ss \<and> active (tx ss') = active (tx ss) \<and> go_on \<and> reply \<noteq> ''ERR ABORT'' @ nl"
proof (cases "in_txn ss \<and> 3 \<le> length (split_ws line)")
  case True
  then obtain rc e1 h1 where g: "op_put ops e (tx ss) (split_ws line ! 1) (put_value line) = Inr (rc, e1, h1)"
    "(if rc = Rc_OK then Inr (''OK'' @ nl, True, e1, ss\<lparr>tx := h1\<rparr>)
      else if rc = Rc_ABORT then Inr (''ERR ABORT'' @ nl, True, e1, \<lparr>tx = h1, in_txn = False\<rparr>)
      else Inr (''ERR PUT_FAIL'' @ nl, True, e1, ss\<lparr>tx := h1\<rparr>)) =
     (Inr (reply, go_on, e', ss') :: (string \<times> bool \<times> 'e \<times> 'h session) res)"
    using assms(1-3) by (auto simp: session_line_def R_bind_Inr_iff)
  then show ?thesis
    using put_law [OF g(1)] True assms(4) by (auto split: if_splits)
next
  case False
  then show ?thesis using assms by (auto simp: session_line_def split: if_splits)
qed

lemma session_line_COMMIT:
  assumes "session_line ops e ss line = Inr (reply, go_on, e', ss')" and "split_ws line \<noteq> []"
    and "upper (split_ws line ! 0) = ''COMMIT''" and "in_txn ss = active (tx ss)"
  shows "\<not> in_txn ss' \<and> \<not> active (tx ss') \<and> go_on \<and> reply \<noteq> ''ERR COMMIT_FAIL'' @ nl"
proof (cases "in_txn ss")
  case True
  then obtain rc e1 h1 where g: "op_commit ops e (tx ss) = Inr (rc, e1, h1)"
    "reply = (if rc = Rc_OK then ''OK COMMIT'' @ nl else if rc = Rc_ABORT then ''ERR ABORT'' @ nl
              else ''ERR COMMIT_FAIL'' @ nl)" "go_on" "ss' = \<lparr>tx = h1, in_txn = False\<rparr>"
    using assms(1-3) by (auto simp: session_line_def R_bind_Inr_iff)
  then show ?thesis
    using commit_law [OF g(1)] True assms(4) by auto
next
  case False
  then show ?thesis using assms by (auto simp: session_line_def)
qed

lemma session_line_other:
  assumes "session_line ops e ss line = Inr (reply, go_on, e', ss')" and "in_txn ss = active (tx ss)"
    and "split_ws line = [] \<or> upper (split_ws line ! 0) \<notin> {''START'', ''GET'', ''PUT'', ''COMMIT''}"
  shows "in_txn ss' = active (tx ss') \<and> (\<not> go_on \<longrightarrow> \<not> in_txn ss')"
proof (cases "split_ws line = []")
  case True
  then show ?thesis using assms by (simp add: session_line_def)
next
  case False
  let ?cmd = "upper (split_ws line ! 0)"
  note ab = abort_law [of e "tx ss"]
  consider "?cmd = ''ABORT''" | "?cmd = ''END'' \<or> ?cmd = ''QUIT'' \<or> ?cmd = ''EXIT''"
    | "?cmd \<notin> {''ABORT'', ''END'', ''QUIT'', ''EXIT''}" by blast
  then show ?thesis
  proof cases
    case 1
    then show ?thesis
      using assms False ab by (cases "in_txn ss") (auto simp: session_line_def R_bind_Inr_iff)
  next
    case 2
    then obtain rc e1 h1 where "(if in_txn ss then op_abort ops e (tx ss) else Inr (Rc_OK, e, tx ss)) = Inr (rc, e1, h1)"
      "ss' = \<lparr>tx = h1, in_txn = False\<rparr>"
      using assms(1,3) False by (auto simp: session_line_def R_bind_Inr_iff)
    then show ?thesis using ab assms(2) by (auto split: if_splits)
  next
    case 3
    then show ?thesis using assms False by (auto simp: session_line_def)
  qed
qed

lemma session_line_inv:
  assumes "session_line ops e ss line = Inr (reply, go_on, e', ss')" and "in_txn ss = active (tx ss)"
  shows "in_txn ss' = active (tx ss') \<and> (\<not> go_on \<longrightarrow> \<not> in_txn ss')"
proof (cases "split_ws line = [] \<or> upper (split_ws line ! 0) \<notin> {''START'', ''GET'', ''PUT'', ''COMMIT''}")
  case True
  then show ?thesis using session_line_other [OF assms] by blast
next
  case False
  then have ne: "split_ws line \<noteq> []" by simp
  from False consider "upper (split_ws line ! 0) = ''START''" | "upper (split_ws line ! 0) = ''GET''"
    | "upper (split_ws line ! 0) = ''PUT''" | "upper (split_ws line ! 0) = ''COMMIT''" by blast
  then show ?thesis
  proof cases
    case 1
    then show ?thesis using session_line_START [OF assms(1) ne 1 assms(2)] by blast
  next
    case 2
    then show ?thesis using session_line_GET [OF assms(1) ne 2 assms(2)] assms(2) by simp
  next
    case 3
    then show ?thesis using session_line_PUT [OF assms(1) ne 3 assms(2)] assms(2) by simp
  next
    case 4
    then show ?thesis using session_line_COMMIT [OF assms(1) ne 4 assms(2)] by simp
  qed
qed

text \<open>Along a whole connection the flag and the handle agree, and a connection that ended holds nothing.\<close>

lemma session_loop_inv:
  "session_loop ops e ss evs = Inr (replies, ended, e', ss') \<Longrightarrow> in_txn ss = active (tx ss) \<Longrightarrow>
   in_txn ss' = active (tx ss') \<and> (ended \<longrightarrow> \<not> in_txn ss')"
proof (induction evs arbitrary: e ss replies ended rule: measure_induct_rule [of length])
  case (less evs)
  show ?case
  proof (cases "read_line evs []")
    case None
    then show ?thesis using less.prems by (simp add: session_loop.simps [of ops e ss evs])
  next
    case (Some r)
    obtain ok line evs1 where r: "read_line evs [] = Some (ok, line, evs1)" using Some by (cases r) auto
    show ?thesis
    proof (cases ok)
      case False
      then obtain rc e1 h1 where "(if in_txn ss then op_abort ops e (tx ss) else Inr (Rc_OK, e, tx ss)) = Inr (rc, e1, h1)"
        "ss' = \<lparr>tx = h1, in_txn = False\<rparr>"
        using less.prems(1) r by (auto simp: session_loop.simps [of ops e ss evs] R_bind_Inr_iff)
      then show ?thesis using abort_law [of e "tx ss"] less.prems(2) by (auto split: if_splits)
    next
      case True
      then obtain reply go_on e1 ss1 where l: "session_line ops e ss line = Inr (reply, go_on, e1, ss1)"
        "(if go_on then R_bind (session_loop ops e1 ss1 evs1) (\<lambda>(replies, ended, e2, ss2).
                          Inr (reply # replies, ended, e2, ss2))
          else Inr ([reply], True, e1, ss1)) = Inr (replies, ended, e', ss')"
        using less.prems(1) r by (auto simp: session_loop.simps [of ops e ss evs] R_bind_Inr_iff)
      note inv = session_line_inv [OF l(1) less.prems(2)]
      show ?thesis
      proof (cases go_on)
        case False
        then show ?thesis using l(2) inv by auto
      next
        case True
        then obtain replies1 where "session_loop ops e1 ss1 evs1 = Inr (replies1, ended, e', ss')"
          using l(2) by (auto simp: R_bind_Inr_iff)
        then show ?thesis using less.IH [OF read_line_shorter [OF r]] inv by blast
      qed
    qed
  qed
qed

end

interpretation engine_api: kv_api "engine_ops hasher" "\<lambda>h. impl h \<noteq> None" for hasher
proof (unfold_locales, goal_cases)
  case 1
  then show ?case by (auto simp: engine_ops_def begin_txn_def Let_def split: prod.splits)
next
  case 2
  then show ?case by (auto simp: engine_ops_def get_def R_bind_Inr_iff split: option.splits if_splits)
next
  case 3
  then show ?case by (auto simp: engine_ops_def put_def R_bind_Inr_iff split: option.splits if_splits)
next
  case 4
  then show ?case by (auto simp: engine_ops_def commit_def R_bind_Inr_iff split: option.splits if_splits)
next
  case 5
  then show ?case by (auto simp: engine_ops_def abort_txn_def R_bind_Inr_iff split: option.splits if_splits)
qed

section \<open>Reading a command\<close>

lemma isspace_toupper: "isspace c \<Longrightarrow> toupper c = c"
  by (auto simp: isspace_def toupper_def)

lemma upper_word: "upper w = cmd \<Longrightarrow> is_word cmd \<Longrightarrow> is_word w"
  by (auto simp: upper_def is_word_def isspace_toupper) (metis imageI isspace_toupper)

lemma no_space_find: "\<forall>x \<in> set w. \<not> isspace x \<Longrightarrow> find_char (CHR '' '') (w @ CHR '' '' # s) = Some (length w)"
  by (induction w) (auto simp: isspace_def)

lemma space_isspace [simp]: "isspace (CHR '' '')"
  by (simp add: isspace_def)

lemma is_wordD: "is_word w \<Longrightarrow> \<forall>x \<in> set w. \<not> isspace x"
  by (simp add: is_word_def)

lemma split_command:
  assumes "is_word w" and "is_word k"
  shows "split_ws (w @ CHR '' '' # k @ CHR '' '' # v) = w # k # split_ws v"
    and "split_ws (w @ CHR '' '' # k) = [w, k]"
proof -
  have "split_ws (k @ CHR '' '' # v) = k # split_ws v"
    using split_ws_word [OF assms(2), of "CHR '' '' # v"] by (simp add: split_ws_space)
  then show "split_ws (w @ CHR '' '' # k @ CHR '' '' # v) = w # k # split_ws v"
    using split_ws_word [OF assms(1), of "CHR '' '' # k @ CHR '' '' # v"] by (simp add: split_ws_space)
  have "split_ws k = [k]" using split_ws_word [OF assms(2), of "[]"] split_ws_Nil [of "[]"] by simp
  then show "split_ws (w @ CHR '' '' # k) = [w, k]"
    using split_ws_word [OF assms(1), of "CHR '' '' # k"] by (simp add: split_ws_space)
qed

lemma put_value_command:
  assumes "is_word w" and "is_word k"
  shows "put_value (w @ CHR '' '' # k @ CHR '' '' # v) = v"
proof -
  have "find_char (CHR '' '') (w @ CHR '' '' # k @ CHR '' '' # v) = Some (length w)"
    by (rule no_space_find [OF is_wordD [OF assms(1)]])
  moreover have "find_char (CHR '' '') (k @ CHR '' '' # v) = Some (length k)"
    by (rule no_space_find [OF is_wordD [OF assms(2)]])
  ultimately show ?thesis by (simp add: put_value_def str_find_def)
qed

text \<open>
  C18. A \<open>PUT\<close> line round-trips: the command in any letter case, one space, a key without white
  space, one space and any value with a visible character, inner and trailing blanks included, is
  taken apart into exactly this key and this value, and the reply is \<open>OK\<close> or \<open>ERR PUT_FAIL\<close> with the
  transaction still open, as the engine says.
\<close>

theorem put_line_roundtrip:
  assumes "upper w = ''PUT''" and "is_word k" and "split_ws v \<noteq> []" and "in_txn ss"
    and "impl (tx ss) \<noteq> None"
  shows "session_line (engine_ops hasher) e ss (w @ '' '' @ k @ '' '' @ v) =
    R_bind (put hasher e (tx ss) k v) (\<lambda>(rc, e1, h1).
      Inr ((if rc = Rc_OK then ''OK'' else ''ERR PUT_FAIL'') @ nl, True, e1, ss\<lparr>tx := h1\<rparr>))"
proof -
  have w: "is_word w" using upper_word [OF assms(1)] by (simp add: is_word_def isspace_def)
  note parts = split_command(1) [OF w assms(2), of v] and val = put_value_command [OF w assms(2), of v]
  have len: "\<not> length (w # k # split_ws v) < 3" using assms(3) by (cases "split_ws v") auto
  show ?thesis
  proof (cases "put hasher e (tx ss) k v")
    case (Inl f)
    then show ?thesis
      using parts val len assms(1,4) by (simp add: session_line_def Let_def engine_ops_def)
  next
    case (Inr r)
    obtain rc e1 h1 where r: "r = (rc, e1, h1)" by (cases r)
    have "rc = Rc_OK \<or> rc = Rc_ERROR"
      using engine_api.put_law [of hasher e "tx ss" k v rc e1 h1] Inr r assms(5) by (simp add: engine_ops_def)
    then show ?thesis
      using Inr r parts val len assms(1,4) by (auto simp: session_line_def Let_def engine_ops_def)
  qed
qed

text \<open>A session with a transaction, for the witnesses.\<close>

definition open_session :: "TxnHandle session" where
  "open_session = \<lparr>tx = \<lparr>impl = Some \<lparr>ctx_txn = txn_init, thd_id = 0\<rparr>, h_id = 1\<rparr>, in_txn = True\<rparr>"

definition bare_engine :: engine where
  "bare_engine = \<lparr>st = \<lparr>tables = Map.empty, indexes = Map.empty, rows = Map.empty, next_row = 0, timestamp = 1\<rparr>,
     g_txn_id = 1\<rparr>"

theorem put_line_roundtrip_witness:
  "session_line (engine_ops (\<lambda>_. 0)) bare_engine open_session ''Put k two words '' =
    R_bind (put (\<lambda>_. 0) bare_engine (tx open_session) ''k'' ''two words '') (\<lambda>(rc, e1, h1).
      Inr ((if rc = Rc_OK then ''OK'' else ''ERR PUT_FAIL'') @ nl, True, e1, open_session\<lparr>tx := h1\<rparr>))"
proof -
  have c: "upper ''Put'' = ''PUT''" "is_word ''k''" "split_ws ''two words '' \<noteq> []" by code_simp+
  have "in_txn open_session" "impl (tx open_session) \<noteq> None" by (simp_all add: open_session_def)
  from put_line_roundtrip [OF c this] show ?thesis by simp
qed

text \<open>\<open>GET\<close> with one key asks the engine for that key and shows its value.\<close>

theorem get_line:
  assumes "upper w = ''GET''" and "is_word k" and "in_txn ss" and "impl (tx ss) \<noteq> None"
  shows "session_line (engine_ops hasher) e ss (w @ '' '' @ k) =
    R_bind (get hasher e (tx ss) k []) (\<lambda>(rc, v, e1, h1).
      Inr ((if rc = Rc_OK then ''OK VALUE '' @ v else ''ERR NOT_FOUND'') @ nl, True, e1, ss\<lparr>tx := h1\<rparr>))"
proof -
  have w: "is_word w" using upper_word [OF assms(1)] by (simp add: is_word_def isspace_def)
  note parts = split_command(2) [OF w assms(2)]
  show ?thesis
  proof (cases "get hasher e (tx ss) k []")
    case (Inl f)
    then show ?thesis
      using parts assms(1,3) by (simp add: session_line_def Let_def engine_ops_def)
  next
    case (Inr r)
    obtain rc v e1 h1 where r: "r = (rc, v, e1, h1)" by (cases r)
    have "rc = Rc_OK \<or> rc = Rc_NOT_FOUND"
      using engine_api.get_law [of hasher e "tx ss" k "[]" rc v e1 h1] Inr r assms(4) by (simp add: engine_ops_def)
    then show ?thesis
      using Inr r parts assms(1,3) by (auto simp: session_line_def Let_def engine_ops_def)
  qed
qed

theorem get_line_witness:
  "session_line (engine_ops (\<lambda>_. 0)) bare_engine open_session ''get k'' =
    R_bind (get (\<lambda>_. 0) bare_engine (tx open_session) ''k'' []) (\<lambda>(rc, v, e1, h1).
      Inr ((if rc = Rc_OK then ''OK VALUE '' @ v else ''ERR NOT_FOUND'') @ nl, True, e1, open_session\<lparr>tx := h1\<rparr>))"
proof -
  have c: "upper ''get'' = ''GET''" "is_word ''k''" by code_simp+
  have "in_txn open_session" "impl (tx open_session) \<noteq> None" by (simp_all add: open_session_def)
  from get_line [OF c this] show ?thesis by simp
qed

text \<open>
  C19. A connection that has ended, by \<open>END\<close>, \<open>QUIT\<close>, \<open>EXIT\<close>, a closed or broken socket or an
  over-long line, whatever was sent before, has left no transaction behind; while it lasts, the
  session's flag says exactly whether its handle has one.
\<close>

theorem session_leaves_nothing:
  assumes "handle_client (engine_ops hasher) handle_init e evs = Inr (replies, ended, e', ss)"
  shows "(in_txn ss \<longleftrightarrow> impl (tx ss) \<noteq> None) \<and> (ended \<longrightarrow> impl (tx ss) = None)"
proof -
  obtain rs where "session_loop (engine_ops hasher) e \<lparr>tx = handle_init, in_txn = False\<rparr> evs = Inr (rs, ended, e', ss)"
    using assms by (auto simp: handle_client_def R_bind_Inr_iff)
  from engine_api.session_loop_inv [OF this] show ?thesis by (auto simp: handle_init_def)
qed

definition demo_events :: "recv_event list" where
  "demo_events = map Recv ''start'' @ [Recv (CHR 0x0A), Peer_Closed]"

lemma demo_connection:
  "case handle_client (engine_ops (\<lambda>_. 0)) handle_init bare_engine demo_events of
     Inl _ \<Rightarrow> False
   | Inr (replies, ended, e', ss) \<Rightarrow> replies = [''WELCOME DataAgentDB'' @ nl, ''OK TXN 1'' @ nl] \<and> ended"
proof -
  have lines: "read_line demo_events [] = Some (True, ''start'', [Peer_Closed])"
    "read_line [Peer_Closed] [] = Some (False, [], [])"
    using read_line_prefix [of "map Recv ''start''" "[]" "[Peer_Closed]"]
    by (simp_all add: demo_events_def uninterrupted_def MAX_LINE_def)
  have words: "split_ws ''start'' = [''start'']" "upper ''start'' = ''START''" "to_string 1 = ''1''"
    by code_simp+
  obtain rc e1 h1 where b0: "begin_txn bare_engine handle_init = (rc, e1, h1)" by (rule prod_cases3)
  have b: "rc = Rc_OK" "h_id h1 = 1" "impl h1 = Some \<lparr>ctx_txn = txn_init\<lparr>start_ts := 1\<rparr>, thd_id = 0\<rparr>"
    using b0 by (auto simp: begin_txn_def handle_init_def bare_engine_def get_ts_def Let_def)
  obtain e2 h2 where a: "abort_txn e1 h1 = Inr (Rc_OK, e2, h2)"
    using b(3) by (simp add: abort_txn_def finish_def cleanup_def txn_init_def)
  have l: "session_line (engine_ops (\<lambda>_. 0)) bare_engine \<lparr>tx = handle_init, in_txn = False\<rparr> ''start'' =
      Inr (''OK TXN 1'' @ nl, True, e1, \<lparr>tx = h1, in_txn = True\<rparr>)"
    using b0 b words by (simp add: session_line_def engine_ops_def Let_def)
  show ?thesis
    unfolding handle_client_def
    apply (subst session_loop.simps)
    apply (simp add: lines l)
    apply (subst session_loop.simps)
    apply (simp add: lines a engine_ops_def)
    done
qed

theorem session_leaves_nothing_witness:
  "\<exists>e' ss. handle_client (engine_ops (\<lambda>_. 0)) handle_init bare_engine demo_events =
     Inr ([''WELCOME DataAgentDB'' @ nl, ''OK TXN 1'' @ nl], True, e', ss) \<and> impl (tx ss) = None"
proof -
  obtain e' ss where h: "handle_client (engine_ops (\<lambda>_. 0)) handle_init bare_engine demo_events =
      Inr ([''WELCOME DataAgentDB'' @ nl, ''OK TXN 1'' @ nl], True, e', ss)"
    using demo_connection
    by (cases "handle_client (engine_ops (\<lambda>_. 0)) handle_init bare_engine demo_events") auto
  from session_leaves_nothing [OF h] h show ?thesis by blast
qed

text \<open>
  Commands that need a transaction are refused without one, and \<open>START\<close> is refused within one:
  the reply says so and neither the engine nor the session changes.
\<close>

lemma session_guards:
  assumes "split_ws line = cmd # args"
  shows "(upper cmd \<in> {''GET'', ''PUT'', ''COMMIT'', ''ABORT''} \<and> \<not> in_txn ss \<longrightarrow>
      session_line ops e ss line = Inr (''ERR NO_ACTIVE_TXN'' @ nl, True, e, ss)) \<and>
    (upper cmd = ''START'' \<and> in_txn ss \<longrightarrow>
      session_line ops e ss line = Inr (''ERR TXN_ALREADY_STARTED'' @ nl, True, e, ss))"
  using assms by (auto simp: session_line_def)

end
