(* ===== verification/Anomalies.thy ===== *)
theory Anomalies
  imports Demo Session
begin

text \<open>
  Where the program departs from what its interface promises, each as a theorem about the code's
  model: rows inserted by a transaction are seen before it commits and dangle after it rolls back,
  reads of rows that were updated meanwhile are reported as absent, long keys are never found again,
  the access array has no bound check, a second space after \<open>PUT\<close> moves the key into the value.
\<close>

section \<open>A rolled back insert\<close>

text \<open>A read that follows an index entry to a freed row.\<close>

lemma read_freed_row:
  assumes "indexes s ''Data_INDEX'' = Some ix" and "wf_index ix"
    and "idx_row s (h key) = Some r" and "rows s r = None"
  shows "txn_Read h s t key vo = Inl Use_After_Free"
proof -
  obtain it where it: "index_read ix (h key) 0 = Inr it" using hash_ix.read_ok [OF assms(2)] by blast
  then obtain m where "it = Some m" "location m = Some r"
    using assms(1,3) by (cases it) (auto simp: idx_row_def)
  then show ?thesis
    using assms it
    by (simp add: txn_Read_def hash_key_def deref_index_def txn_index_read_def txn_get_row_def deref_row_def)
qed

lemma free_inserted_one:
  assumes "rows s r = Some row" and "data row = Some d"
  shows "free_inserted s [r] = Inr (s\<lparr>rows := (rows s)(r := None)\<rparr>)"
  using free_local [OF assms] by (simp add: g_part_alloc_def PART_ALLOC_def R_bind_assoc [symmetric])

text \<open>The rollback of a transaction whose only insert is the row \<open>r\<close>: the row is freed, the index stays.\<close>

lemma abort_inserted:
  assumes ws: "wf_store s" and wt: "wf_txn s t" and ins: "insert_rows t = [r]" and idx: "idx_row s pk = Some r"
  shows "\<exists>s' t'. finish s t Abort = Inr (Abort, s', t') \<and> indexes s' = indexes s \<and> rows s' r = None"
proof -
  let ?as = "acc_list t"
  have len: "length ?as = row_cnt t" "row_cnt t \<le> length (accesses t)"
    using length_acc_list [OF wt] wt by (simp_all add: wf_txn_def)
  have nth: "\<forall>i < row_cnt t. accesses t ! i = Some (?as ! i)" using acc_list_nth [OF wt] by blast
  have ok: "accs_ok s ?as" by (rule accs_ok_acc_list [OF ws wt])
  have ret: "\<forall>a \<in> set ?as. returnable s (end_ts t) Abort a"
    using accs_ok_returnable(1) [OF ws ok] by blast
  obtain s1 where s1: "cleanup_rows s t Abort (row_cnt t) =
      Inr (s1, t\<lparr>accesses := map dropped ?as @ drop (length ?as) (accesses t)\<rparr>)"
    "returned s (end_ts t) Abort ?as s1"
    by (rule cleanup_rows_ok [OF len nth wf_storeD(1) [OF ws] ret accs_ok_sets(3) [OF ok] accs_ok_distinct [OF ok]])
  have "r \<notin> locs ?as" using idx accs_ok_sets(2) [OF ok] by (auto simp: idx_rows_def)
  then have same: "rows s1 r = rows s r" by (rule returned_other [OF s1(2)]) simp
  obtain row d where "rows s r = Some row" "data row = Some d"
    using wf_storeD(2) [OF ws idx] by (auto simp: shared_row_def)
  then have "free_inserted s1 [r] = Inr (s1\<lparr>rows := (rows s1)(r := None)\<rparr>)"
    using free_inserted_one same by simp
  moreover have "indexes s1 = indexes s" using s1(2) by (simp add: returned_def)
  ultimately show ?thesis
    using s1(1) ins by (auto simp: finish_def cleanup_def)
qed

text \<open>
  C27. A rolled back insert leaves a dangling index entry: after a client has put a key that was not
  there and then aborts, both with success, the next read of that key follows a freed row, whether
  the transaction that reads was running already or begins then. (Freed memory is not used again in
  this model.)
\<close>

theorem aborted_insert_dangles:
  assumes wf: "wf_sys y" and c: "impl (handles y c) = Some ctx" and ins: "insert_rows (ctx_txn ctx) = []"
    and new: "db_view (st (eng y)) (h key) = None"
    and room: "a_room (acc_view (st (eng y)) (ctx_txn ctx)) (h key)"
  shows "\<exists>y1 y2. api_step h y c (Put key val) = Inr (Rc_OK, [], y1) \<and>
    api_step h y1 c Abort_txn = Inr (Rc_OK, [], y2) \<and>
    (\<forall>d. impl (handles y2 d) \<noteq> None \<longrightarrow> api_step h y2 d (Get key) = Inl Use_After_Free) \<and>
    (\<forall>d rc v y3. api_step h y2 d Begin_txn = Inr (rc, v, y3) \<longrightarrow>
       api_step h y3 d (Get key) = Inl Use_After_Free)"
proof -
  let ?s = "st (eng y)" and ?t = "ctx_txn ctx"
  note ws = wf_sysD(1) [OF wf] and wt = wf_sysD(2) [OF wf c]
  obtain s1 t1 where w: "txn_Write h ?s ?t key val = Inr (RCOK, s1, t1)" "effect ?s ?t s1 t1"
    "idx_row s1 (h key) = Some (next_row ?s)" "insert_rows t1 = [next_row ?s]"
    using txn_Write_spec(2) [where h = h and key = key and val = val, OF ws wt room_row_cnt [OF ws wt room] new] ins
    by (auto simp: MAX_ROW_PER_TXN_def)
  have wf1: "wf_store s1" "wf_txn s1 t1" using w(2) by (simp_all add: effect_def)
  obtain s2 t2 where f: "finish s1 t1 Abort = Inr (Abort, s2, t2)" "indexes s2 = indexes s1"
    "rows s2 (next_row ?s) = None"
    using abort_inserted [OF wf1 w(4,3)] by blast
  obtain ix where ix: "indexes s1 ''Data_INDEX'' = Some ix" "wf_index ix"
    using wf1(1) by (auto simp: wf_store_def)
  define y1 where "y1 = \<lparr>eng = (eng y)\<lparr>st := s1\<rparr>,
    handles = (handles y)(c := (handles y c)\<lparr>impl := Some (ctx\<lparr>ctx_txn := t1\<rparr>)\<rparr>)\<rparr>"
  define y2 where "y2 = \<lparr>eng = (eng y)\<lparr>st := s2\<rparr>,
    handles = (handles y)(c := (handles y c)\<lparr>impl := None\<rparr>)\<rparr>"
  have put: "api_step h y c (Put key val) = Inr (Rc_OK, [], y1)"
    using c w(1) by (simp add: put_def y1_def)
  have abort: "api_step h y1 c Abort_txn = Inr (Rc_OK, [], y2)"
    using f(1) by (simp add: abort_txn_def y1_def y2_def)
  have "txn_Read h s2 t3 key [] = Inl Use_After_Free" for t3
    by (rule read_freed_row [of _ ix _ _ "next_row ?s"]) (use ix f(2,3) w(3) in \<open>simp_all add: idx_row_def\<close>)
  then have "api_step h y2 d (Get key) = Inl Use_After_Free" if "impl (handles y2 d) \<noteq> None" for d
    using that by (auto simp: get_def y2_def)
  moreover have "api_step h y3 d (Get key) = Inl Use_After_Free" if b: "api_step h y2 d Begin_txn = Inr (rc, v, y3)" for d rc v y3
  proof -
    have s3: "st (eng y3) = s2\<lparr>timestamp := timestamp s2 + 1\<rparr>" "impl (handles y3 d) \<noteq> None"
      using b by (auto simp: begin_txn_def get_ts_def Let_def y2_def)
    have "txn_Read h (st (eng y3)) t3 key [] = Inl Use_After_Free" for t3
      by (rule read_freed_row [of _ ix _ _ "next_row ?s"])
        (use s3(1) ix f(2,3) w(3) in \<open>simp_all add: idx_row_def\<close>)
    then show ?thesis using s3(2) by (auto simp: get_def)
  qed
  ultimately show ?thesis using put abort by blast
qed

theorem aborted_insert_dangles_witness:
  "\<exists>y1 y2. api_step demo_hash (demo_at [(0, Begin_txn)]) 0 (Put ''k'' ''x'') = Inr (Rc_OK, [], y1) \<and>
    api_step demo_hash y1 0 Abort_txn = Inr (Rc_OK, [], y2) \<and>
    (\<forall>rc v y3. api_step demo_hash y2 1 Begin_txn = Inr (rc, v, y3) \<longrightarrow>
       api_step demo_hash y3 1 (Get ''k'') = Inl Use_After_Free)"
proof -
  obtain ctx where ctx: "impl (handles (demo_at [(0, Begin_txn)]) 0) = Some ctx"
    "acc_view (st (eng (demo_at [(0, Begin_txn)]))) (ctx_txn ctx) = Map.empty"
    "length (insert_rows (ctx_txn ctx)) = 0"
    using demo_ctx [OF demo_one_oks demo_one_abs(1)] by auto
  have new: "db_view (st (eng (demo_at [(0, Begin_txn)]))) (demo_hash ''k'') = None"
    by (simp add: demo_abs_view [OF demo_one_oks] demo_one_abs demo_simps)
  have "a_room (acc_view (st (eng (demo_at [(0, Begin_txn)]))) (ctx_txn ctx)) (demo_hash ''k'')"
    by (simp add: ctx(2) a_room_def MAX_ROW_PER_TXN_def)
  moreover have "insert_rows (ctx_txn ctx) = []" using ctx(3) by simp
  ultimately show ?thesis
    using aborted_insert_dangles [where h = demo_hash and key = "''k''" and val = "''x''",
        OF demo_at_ok(1) [OF demo_one_oks] ctx(1) _ new] by blast
qed

section \<open>Uncommitted inserts are visible\<close>

text \<open>
  C29. Inserts are not isolated: as soon as a client has put a new key, and before it commits, any
  other client that begins a transaction reads the value.
\<close>

theorem uncommitted_insert_visible:
  assumes wf: "wf_sys y" and c: "impl (handles y c) = Some ctx" and d: "d \<noteq> c"
    and ok: "a_oks h (abs_sys y) [(c, Put key val), (d, Begin_txn), (d, Get key)]"
    and new: "db_view (st (eng y)) (h key) = None" and key: "length (c_str key) < 128"
  shows "\<exists>y'. run h y [(c, Put key val), (d, Begin_txn), (d, Get key)] =
    Inr ([(c, Put key val, Rc_OK, []), (d, Begin_txn, Rc_OK, []), (d, Get key, Rc_OK, trunc_val val)], y')"
proof -
  obtain evs y' where r: "run h y [(c, Put key val), (d, Begin_txn), (d, Get key)] = Inr (evs, y')"
    "a_run h (abs_sys y) [(c, Put key val), (d, Begin_txn), (d, Get key)] = (evs, abs_sys y')"
    using run_ok [OF wf ok] by blast
  have "trunc_key key = c_str key" using key by (simp add: trunc_key_def)
  then have "evs = [(c, Put key val, Rc_OK, []), (d, Begin_txn, Rc_OK, []), (d, Get key, Rc_OK, trunc_val val)]"
    using r(2) c d new by (auto simp: a_insert_def a_read_def a_access_def Let_def)
  then show ?thesis using r(1) by blast
qed

theorem uncommitted_insert_visible_witness:
  "\<exists>y'. run demo_hash (demo_at [(0, Begin_txn)]) [(0, Put ''k'' ''x''), (1, Begin_txn), (1, Get ''k'')] =
    Inr ([(0, Put ''k'' ''x'', Rc_OK, []), (1, Begin_txn, Rc_OK, []), (1, Get ''k'', Rc_OK, ''x'')], y')"
proof -
  let ?y = "demo_at [(0, Begin_txn)]"
  obtain ctx where ctx: "impl (handles ?y 0) = Some ctx"
    using demo_ctx [OF demo_one_oks demo_one_abs(1)] by auto
  have new: "db_view (st (eng ?y)) (demo_hash ''k'') = None"
    by (simp add: demo_abs_view [OF demo_one_oks] demo_one_abs demo_simps)
  have oks: "a_oks demo_hash (abs_sys ?y) [(0, Put ''k'' ''x''), (1, Begin_txn), (1, Get ''k'')]"
    unfolding demo_at_ok(2) [OF demo_one_oks]
    by (simp add: demo_eval a_room_def MAX_ROW_PER_TXN_def)
  from uncommitted_insert_visible [where h = demo_hash, OF demo_at_ok(1) [OF demo_one_oks] ctx _ oks new]
  show ?thesis by (simp add: demo_strings)
qed

section \<open>Stale reads\<close>

text \<open>
  C28. A key that exists is reported as absent: if the row was updated after the transaction began
  and the transaction has not accessed it yet, \<open>get\<close> answers \<open>NOT_FOUND\<close>. The read leaves no trace: the
  database and every transaction are as before, and whatever calls follow, the commit of the
  transaction included, get the same replies as if there had been no read.
\<close>

theorem stale_read_not_found:
  assumes wf: "wf_sys y" and c: "impl (handles y c) = Some ctx"
    and fresh: "acc_view (st (eng y)) (ctx_txn ctx) (h key) = None"
    and row: "db_view (st (eng y)) (h key) = Some row" and newer: "start_ts (ctx_txn ctx) < a_wts row"
    and room: "a_room (acc_view (st (eng y)) (ctx_txn ctx)) (h key)"
    and later: "a_oks h (abs_sys y) cs"
  shows "\<exists>y1 evs y2 y3. api_step h y c (Get key) = Inr (Rc_NOT_FOUND, [], y1) \<and> abs_sys y1 = abs_sys y \<and>
    run h y1 cs = Inr (evs, y2) \<and> run h y cs = Inr (evs, y3) \<and> abs_sys y2 = abs_sys y3"
proof -
  let ?a = "abs_sys y"
  have x: "a_txns ?a c = Some (abs_txn (st (eng y)) (ctx_txn ctx))" using c by simp
  have okg: "a_ok h ?a c (Get key)" using c room by (simp add: abs_txn_def)
  obtain rc1 v1 y1 where g: "api_step h y c (Get key) = Inr (rc1, v1, y1)" "wf_sys y1"
    "a_step h ?a c (Get key) = (rc1, v1, abs_sys y1)"
    using api_step_ok [OF wf okg] unfolding refines_def by blast
  have g2: "a_step h ?a c (Get key) = (Rc_NOT_FOUND, [], ?a)"
    using c fresh row newer set_txn_same [OF x]
    by (simp add: a_read_def a_access_def abs_txn_def Let_def)
  then have eqs: "rc1 = Rc_NOT_FOUND" "v1 = []" "abs_sys y1 = ?a" using g(3) by auto
  have later1: "a_oks h (abs_sys y1) cs" using later eqs(3) by simp
  show ?thesis
    using run_ok [OF wf later] run_ok [OF g(2) later1] g(1) eqs by auto
qed

theorem stale_read_not_found_witness:
  "\<exists>y1 evs y2 y3. api_step demo_hash (demo_at demo_stale) 1 (Get ''3'') = Inr (Rc_NOT_FOUND, [], y1) \<and>
    run demo_hash y1 [(1, Commit_txn)] = Inr (evs, y2) \<and> run demo_hash (demo_at demo_stale) [(1, Commit_txn)] = Inr (evs, y3)"
proof -
  let ?y = "demo_at demo_stale"
  obtain ctx where ctx: "impl (handles ?y 1) = Some ctx" "acc_view (st (eng ?y)) (ctx_txn ctx) = Map.empty"
    "start_ts (ctx_txn ctx) = 2" "length (insert_rows (ctx_txn ctx)) = 0"
    using demo_ctx [OF demo_stale_oks demo_stale_abs(1)] by auto
  have row: "db_view (st (eng ?y)) (demo_hash ''3'') = Some \<lparr>a_key = ''3'', a_val = ''x'', a_wts = 3\<rparr>"
    by (simp add: demo_abs_view [OF demo_stale_oks] demo_stale_abs demo_simps)
  have time: "timestamp (st (eng ?y)) + 1 \<noteq> 0"
    by (simp add: demo_abs_view [OF demo_stale_oks] demo_stale_abs)
  then have oks: "a_oks demo_hash (abs_sys ?y) [(1, Commit_txn)]"
    using ctx(1,4) by (simp add: abs_txn_def split: prod.splits)
  have fresh: "acc_view (st (eng ?y)) (ctx_txn ctx) (demo_hash ''3'') = None"
    "start_ts (ctx_txn ctx) < a_wts \<lparr>a_key = ''3'', a_val = ''x'', a_wts = 3\<rparr>"
    "a_room (acc_view (st (eng ?y)) (ctx_txn ctx)) (demo_hash ''3'')" "insert_rows (ctx_txn ctx) = []"
    using ctx(2-4) by (simp_all add: a_room_def MAX_ROW_PER_TXN_def)
  from stale_read_not_found [where h = demo_hash and key = "''3''", OF demo_at_ok(1) [OF demo_stale_oks] ctx(1) fresh(1) row fresh(2,3) oks]
  show ?thesis by blast
qed

section \<open>Long keys\<close>

text \<open>The keys in rows and in local copies have less than 128 characters.\<close>

lemma row_view_key_length:
  assumes "row_view s r = Some row"
  shows "length (a_key row) < 128"
proof -
  obtain rw d m where "rows s r = Some rw" "data rw = Some d" "manager rw = Some m"
    using assms by (auto simp: row_view_def split: option.split_asm)
  moreover from this obtain k v where "read_cstr (take 128 d) = Inr k" "read_cstr (drop 128 d) = Inr v"
    using assms by (auto simp: row_view_def split: sum.split_asm)
  ultimately show ?thesis using assms read_cstr_length [of "take 128 d" k] by (auto simp: row_view_def)
qed

lemma db_view_key_length: "db_view s pk = Some row \<Longrightarrow> length (a_key row) < 128"
  by (auto simp: db_view_def bind_eq_Some_conv dest: row_view_key_length)

lemma local_view_key_length:
  assumes "local_view s a = Some l"
  shows "length (ak l) < 128"
proof -
  obtain r rw d where "acc_data a = Some r" "rows s r = Some rw" "data rw = Some d"
    using assms by (auto simp: local_view_def split: option.split_asm)
  moreover from this obtain k v where "read_cstr (take 128 d) = Inr k" "read_cstr (drop 128 d) = Inr v"
    using assms by (auto simp: local_view_def split: sum.split_asm)
  ultimately show ?thesis using assms read_cstr_length [of "take 128 d" k] by (auto simp: local_view_def)
qed

lemma acc_view_key_length: "acc_view s t pk = Some l \<Longrightarrow> length (ak l) < 128"
  by (auto simp: acc_view_def bind_eq_Some_conv dest: local_view_key_length)

lemma get_long_key:
  assumes "128 \<le> length (c_str key)" and "a_step h (abs_sys y) d (Get key) = (rc, v, a')"
  shows "rc \<noteq> Rc_OK"
proof -
  have "fst (a_read (db_view s) (acc_view s t) start pk key []) \<noteq> RCOK" for s t start pk
    using assms(1) db_view_key_length [of s pk] acc_view_key_length [of s t pk]
    by (auto simp: a_read_def a_access_def split: option.splits if_splits)
  then show ?thesis
    using assms(2) by (auto simp: abs_txn_def Let_def split: option.splits prod.splits if_splits) (metis fst_conv)
qed

definition found :: "string \<Rightarrow> event \<Rightarrow> bool" where
  "found key e = (case e of (d, call, rc, v) \<Rightarrow> call = Get key \<and> rc = Rc_OK)"

lemma long_key_not_found:
  assumes "128 \<le> length (c_str key)" and "wf_sys y" and "a_oks h (abs_sys y) cs"
  shows "\<exists>evs y'. run h y cs = Inr (evs, y') \<and> (\<forall>e \<in> set evs. \<not> found key e)"
  using assms(2,3)
proof (induction cs arbitrary: y)
  case (Cons x cs)
  obtain d call where x: "x = (d, call)" by (cases x)
  obtain rc v y1 where 1: "api_step h y d call = Inr (rc, v, y1)" "wf_sys y1" "a_step h (abs_sys y) d call = (rc, v, abs_sys y1)"
    using api_step_ok [of y h d call] Cons.prems x unfolding refines_def by auto
  obtain evs y' where 2: "run h y1 cs = Inr (evs, y')" "\<forall>e \<in> set evs. \<not> found key e"
    using Cons.IH [OF 1(2)] Cons.prems(2) x 1(3) by auto
  have "\<not> found key (d, call, rc, v)"
    using get_long_key [OF assms(1), of h y d rc v] 1(3) by (auto simp: found_def)
  then show ?case using 1(1) 2 x by simp
qed simp

text \<open>
  C31. A key of 128 or more characters is stored cut to 127, so it can be put but is never found
  again: the \<open>put\<close> of a new long key succeeds, and in whatever calls follow, by the same client or by
  others, in the same transaction or after its commit, no \<open>get\<close> of the key succeeds.
\<close>

theorem long_key_lost:
  assumes wf: "wf_sys y" and c: "impl (handles y c) = Some ctx"
    and ok: "a_oks h (abs_sys y) ((c, Put key val) # cs)"
    and new: "db_view (st (eng y)) (h key) = None" and key: "128 \<le> length (c_str key)"
  shows "\<exists>evs y'. run h y ((c, Put key val) # cs) = Inr ((c, Put key val, Rc_OK, []) # evs, y') \<and>
    (\<forall>e \<in> set evs. \<not> found key e)"
proof -
  have okp: "a_ok h (abs_sys y) c (Put key val)" using ok by simp
  obtain rc v y1 where 1: "api_step h y c (Put key val) = Inr (rc, v, y1)" "wf_sys y1"
    "a_step h (abs_sys y) c (Put key val) = (rc, v, abs_sys y1)"
    using api_step_ok [OF wf okp] unfolding refines_def by blast
  then have "rc = Rc_OK" "v = []" using c new by (simp_all add: a_insert_def)
  moreover have "a_oks h (abs_sys y1) cs" using ok 1(3) by simp
  ultimately show ?thesis using long_key_not_found [OF key 1(2)] 1(1) by fastforce
qed

theorem long_key_lost_witness:
  "\<exists>evs y'. run demo_hash (demo_at [(0, Begin_txn)])
      [(0, Put (replicate 130 (CHR ''a'')) ''x''), (0, Commit_txn), (1, Begin_txn), (1, Get (replicate 130 (CHR ''a'')))] =
    Inr ((0, Put (replicate 130 (CHR ''a'')) ''x'', Rc_OK, []) # evs, y') \<and>
    (\<forall>e \<in> set evs. \<not> found (replicate 130 (CHR ''a'')) e)"
proof -
  let ?y = "demo_at [(0, Begin_txn)]" and ?key = "replicate 130 (CHR ''a'')"
  obtain ctx where ctx: "impl (handles ?y 0) = Some ctx"
    using demo_ctx [OF demo_one_oks demo_one_abs(1)] by auto
  have h: "demo_hash ?key = 100" by code_simp
  have new: "db_view (st (eng ?y)) (demo_hash ?key) = None"
    by (simp add: demo_abs_view [OF demo_one_oks] demo_one_abs demo_simps h)
  have len: "128 \<le> length (c_str ?key)" by code_simp
  have oks: "a_oks demo_hash (abs_sys ?y) [(0, Put ?key ''x''), (0, Commit_txn), (1, Begin_txn), (1, Get ?key)]"
    unfolding demo_at_ok(2) [OF demo_one_oks]
    by (simp add: demo_eval h a_room_def MAX_ROW_PER_TXN_def)
  from long_key_lost [OF demo_at_ok(1) [OF demo_one_oks] ctx oks new len] show ?thesis .
qed

section \<open>The access array\<close>

text \<open>
  Nothing checks the bound of the access array: a transaction that has accessed
  \<open>MAX_ROW_PER_TXN\<close> rows and reads one more existing, unchanged or changed row indexes the array
  out of range.
\<close>

lemma access_array_overflow:
  assumes wf: "wf_sys y" and c: "impl (handles y c) = Some ctx"
    and full: "row_cnt (ctx_txn ctx) = MAX_ROW_PER_TXN"
    and fresh: "acc_view (st (eng y)) (ctx_txn ctx) (h key) = None"
    and row: "db_view (st (eng y)) (h key) \<noteq> None"
  shows "api_step h y c (Get key) = Inl Out_Of_Bounds"
proof -
  let ?s = "st (eng y)" and ?t = "ctx_txn ctx"
  note ws = wf_sysD(1) [OF wf] and wt = wf_sysD(2) [OF wf c]
  obtain ix where ix: "deref_index ?s ''Data_INDEX'' = Inr ix"
    "\<forall>pk. \<exists>it. index_read ix pk 0 = Inr it \<and> idx_row ?s pk = Option.bind it location \<and>
       (it = None \<longleftrightarrow> idx_row ?s pk = None)"
    by (rule wf_store_index [OF ws])
  have "idx_row ?s (h key) \<noteq> None" using row db_view_None_iff [OF ws] by simp
  then obtain r where r: "idx_row ?s (h key) = Some r" by auto
  obtain it where it: "index_read ix (h key) 0 = Inr (Some it)" "location it = Some r"
    using ix(2) r by (metis bind.bind_lunit not_Some_eq)
  obtain rw where rw: "rows ?s r = Some rw" "primary_key rw = Some (h key)"
    using wf_storeD(2) [OF ws r] by (auto simp: shared_row_def)
  have "record_pos ?t (h key) = None" using fresh acc_view_None_iff [OF wt] by simp
  moreover have "length (accesses ?t) = MAX_ROW_PER_TXN" using wt by (simp add: wf_txn_def)
  ultimately have "txn_get_row ?s ?t r RD = Inl Out_Of_Bounds"
    using rw full by (simp add: txn_get_row_def get_primary_key_def ensure_access_def R_nth_def)
  then have "txn_Read h ?s ?t key [] = Inl Out_Of_Bounds"
    using ix(1) it by (simp add: txn_Read_def hash_key_def txn_index_read_def)
  then show ?thesis using c by (simp add: get_def)
qed

section \<open>A second space after PUT\<close>

text \<open>
  A second space after \<open>PUT\<close> moves the key into the value: the line is executed exactly as the
  well-formed line that puts the value \<open>key value\<close> instead of \<open>value\<close> under the key.
\<close>

theorem put_double_space:
  assumes "upper w = ''PUT''" and "is_word k" and "split_ws v \<noteq> []"
  shows "session_line ops e ss (w @ ''  '' @ k @ '' '' @ v) =
    session_line ops e ss (w @ '' '' @ k @ '' '' @ (k @ '' '' @ v))"
proof -
  have w: "is_word w" using upper_word [OF assms(1)] by (simp add: is_word_def isspace_def)
  have kv: "split_ws (k @ CHR '' '' # s) = k # split_ws s" for s
    using split_ws_word [OF assms(2), of "CHR '' '' # s"] by (simp add: split_ws_space)
  have parts: "split_ws (w @ CHR '' '' # CHR '' '' # k @ CHR '' '' # v) = w # k # split_ws v"
    using split_ws_word [OF w, of "CHR '' '' # CHR '' '' # k @ CHR '' '' # v"] by (simp add: split_ws_space kv)
  have "find_char (CHR '' '') (w @ CHR '' '' # CHR '' '' # k @ CHR '' '' # v) = Some (length w)"
    by (rule no_space_find [OF is_wordD [OF w]])
  then have val: "put_value (w @ CHR '' '' # CHR '' '' # k @ CHR '' '' # v) = k @ CHR '' '' # v"
    by (simp add: put_value_def str_find_def)
  let ?v = "k @ CHR '' '' # v"
  have parts': "split_ws (w @ CHR '' '' # k @ CHR '' '' # ?v) = w # k # k # split_ws v"
    using split_command(1) [OF w assms(2), of ?v] by (simp add: kv)
  have val': "put_value (w @ CHR '' '' # k @ CHR '' '' # ?v) = ?v"
    using put_value_command [OF w assms(2), of ?v] by simp
  obtain x xs where "split_ws v = x # xs" using assms(3) by (cases "split_ws v") auto
  then show ?thesis
    using parts val parts' val' assms(1) by (simp add: session_line_def Let_def)
qed

theorem put_double_space_witness:
  "session_line (engine_ops demo_hash) (eng demo_start) open_session ''put  3 x'' =
    session_line (engine_ops demo_hash) (eng demo_start) open_session ''put 3 3 x''"
proof -
  have "upper ''put'' = ''PUT''" "is_word ''3''" "split_ws ''x'' \<noteq> []" by code_simp+
  from put_double_space [OF this] show ?thesis by simp
qed

end
