(* ===== verification/Insert_Race.thy ===== *)
theory Insert_Race
  imports Demo
begin

text \<open>
  A put at a finer grain: \<open>txn_man::Write\<close> (\<open>Storage/System/txn.cpp\<close>) looks the key up and then acts on
  the answer, and another thread can run between the two. For a key that exists this does no harm: the
  row is fetched under its latch and validated (\<open>Threads\<close>). For a new key the second half inserts
  without looking again: two transactions insert two rows under the same key, the index shows only
  the later one, and as each validates its own row, both commit.
\<close>

section \<open>The two halves of a put\<close>

definition Write_lookup :: "(string \<Rightarrow> u64) \<Rightarrow> store \<Rightarrow> string \<Rightarrow> itemid_t option res" where
  "Write_lookup hasher s key =
     R_bind (deref_index s ''Data_INDEX'') (\<lambda>ix. txn_index_read ix (hash_key hasher key) 0)"

definition Write_rest ::
    "(string \<Rightarrow> u64) \<Rightarrow> itemid_t option \<Rightarrow> store \<Rightarrow> txn_man \<Rightarrow> string \<Rightarrow> string \<Rightarrow> (RC \<times> store \<times> txn_man) res" where
  "Write_rest hasher item s t key val =
     (case item of
        None \<Rightarrow> R_bind (deref_index s ''Data_INDEX'') (\<lambda>ix. txn_insert s t ix (hash_key hasher key) key val)
      | Some it \<Rightarrow> txn_update s t it key val)"

text \<open>Without another thread in between they are \<open>Write\<close>.\<close>

lemma txn_Write_halves:
  "txn_Write hasher s t key val = R_bind (Write_lookup hasher s key) (\<lambda>item. Write_rest hasher item s t key val)"
proof (cases "deref_index s ''Data_INDEX''")
  case (Inr ix)
  then show ?thesis
    by (cases "txn_index_read ix (hash_key hasher key) 0")
      (auto simp: txn_Write_def Write_lookup_def Write_rest_def Let_def split: option.splits)
qed (simp add: txn_Write_def Write_lookup_def)

lemma Write_lookup_none:
  assumes "wf_store s" and "db_view s (h key) = None"
  shows "Write_lookup h s key = Inr None"
proof -
  obtain ix where ix: "deref_index s ''Data_INDEX'' = Inr ix"
    "\<forall>pk. \<exists>it. index_read ix pk 0 = Inr it \<and> idx_row s pk = Option.bind it location \<and>
       (it = None \<longleftrightarrow> idx_row s pk = None)"
    by (rule wf_store_index [OF assms(1)])
  have "idx_row s (h key) = None" using db_view_None_iff [OF assms(1)] assms(2) by simp
  then have "index_read ix (h key) 0 = Inr None" using ix(2) by metis
  then show ?thesis using ix(1) by (simp add: Write_lookup_def hash_key_def txn_index_read_def)
qed

section \<open>The second insert\<close>

text \<open>
  A transaction that has done nothing yet, inserting a key that may have come into the index since: it
  gets a row of its own, which shadows the other one, and its validation finds nothing wrong.
\<close>

lemma wf_txn_started:
  assumes "ts < timestamp s"
  shows "wf_txn s (txn_init\<lparr>start_ts := ts\<rparr>)" and "acc_view s (txn_init\<lparr>start_ts := ts\<rparr>) = Map.empty"
    and "owned (txn_init\<lparr>start_ts := ts\<rparr>) = {}"
  using assms by (auto simp: wf_txn_def txn_init_def acc_view_def owned_def)

lemma late_insert_commits:
  assumes ws: "wf_store s" and ts: "ts < timestamp s" and time: "timestamp s + 1 \<noteq> 0"
  shows "\<exists>s1 t1 s2 t2. Write_rest h None s (txn_init\<lparr>start_ts := ts\<rparr>) key val = Inr (RCOK, s1, t1) \<and>
    finish s1 t1 RCOK = Inr (RCOK, s2, t2) \<and> wf_store s2 \<and> idx_row s2 = (idx_row s)(h key \<mapsto> next_row s) \<and>
    db_view s2 = (db_view s)(h key \<mapsto> \<lparr>a_key = trunc_key key, a_val = trunc_val val, a_wts = timestamp s\<rparr>)"
proof -
  let ?t = "txn_init\<lparr>start_ts := ts\<rparr>" and ?pk = "h key"
  let ?acc = "[?pk \<mapsto> \<lparr>aw = True, ak = trunc_key key, av = trunc_val val\<rparr>]"
  obtain ix where ix: "indexes s ''Data_INDEX'' = Some ix" "deref_index s ''Data_INDEX'' = Inr ix"
    by (rule wf_store_index [OF ws])
  have t: "length (accesses ?t) = MAX_ROW_PER_TXN" "record_pos ?t ?pk = None" "row_cnt ?t < MAX_ROW_PER_TXN"
    "length (insert_rows ?t) < MAX_ROW_PER_TXN"
    by (simp_all add: txn_init_def MAX_ROW_PER_TXN_def)
  have "wf_txn s4 ?t \<and> acc_view s4 ?t = acc_view s ?t" if "timestamp s4 = timestamp s" for s4
    using wf_txn_started(1,2) [of ts s4] wf_txn_started(2) [of ts s] that ts by simp
  from txn_insert_run [where key = key and val = val, OF ws t(1,2) ix(1) t(3,4) this] obtain s1 t1
    where i: "txn_insert s ?t ix ?pk key val = Inr (RCOK, s1, t1)" "wf_store s1" "wf_txn s1 t1" "start_ts t1 = ts"
      "timestamp s1 = timestamp s" "idx_row s1 = (idx_row s)(?pk \<mapsto> next_row s)"
      "(db_view s1, acc_view s1 t1) = a_insert (db_view s) (acc_view s ?t) ?pk key val"
    by auto
  have v: "db_view s1 = (db_view s)(?pk \<mapsto> \<lparr>a_key = trunc_key key, a_val = trunc_val val, a_wts = 0\<rparr>)"
    "acc_view s1 t1 = ?acc"
    using i(7) wf_txn_started(2) [OF ts] by (simp_all add: a_insert_def)
  have "a_valid (db_view s1) (acc_view s1 t1) (start_ts t1)" by (simp add: v a_valid_def)
  moreover have "timestamp s1 + 1 \<noteq> 0" using time i(5) by simp
  ultimately obtain s2 t2 where f: "finish s1 t1 RCOK = Inr (RCOK, s2, t2)" "committed s1 t1 s2"
    using finish_commit_ok [OF i(2,3)] by blast
  have "db_view s2 = (db_view s)(?pk \<mapsto> \<lparr>a_key = trunc_key key, a_val = trunc_val val, a_wts = timestamp s\<rparr>)"
    using f(2) v i(5) by (auto simp: committed_def a_write_back_def)
  then show ?thesis
    using i(1,6) f ix(2) by (auto simp: Write_rest_def hash_key_def committed_def)
qed

text \<open>The first transaction, call by call.\<close>

lemma a_insert_commit:
  assumes "a_txns a c = Some \<lparr>at_acc = Map.empty, at_start = ts, at_ins = 0\<rparr>" and "a_db a (h key) = None"
    and "a_time a + 1 \<noteq> 0"
  shows "a_oks h a [(c, Put key val), (c, Commit_txn)]"
    and "a_run h a [(c, Put key val), (c, Commit_txn)] = ([(c, Put key val, Rc_OK, []), (c, Commit_txn, Rc_OK, [])],
      a\<lparr>a_db := (a_db a)(h key \<mapsto> \<lparr>a_key = trunc_key key, a_val = trunc_val val, a_wts = a_time a\<rparr>),
        a_time := a_time a + 1, a_txns := (a_txns a)(c := None)\<rparr>)"
  using assms by (auto simp: a_insert_def a_room_def a_valid_def a_write_back_def MAX_ROW_PER_TXN_def Let_def fun_eq_iff)

lemma insert_and_commit:
  assumes wf: "wf_sys y" and c: "impl (handles y c) = Some \<lparr>ctx_txn = txn_init\<lparr>start_ts := ts\<rparr>, thd_id = i\<rparr>"
    and new: "db_view (st (eng y)) (h key) = None" and time: "timestamp (st (eng y)) + 1 \<noteq> 0"
  shows "\<exists>y1. run h y [(c, Put key val), (c, Commit_txn)] = Inr ([(c, Put key val, Rc_OK, []), (c, Commit_txn, Rc_OK, [])], y1) \<and>
    wf_sys y1 \<and> timestamp (st (eng y1)) = timestamp (st (eng y)) + 1 \<and>
    db_view (st (eng y1)) = (db_view (st (eng y)))(h key \<mapsto>
      \<lparr>a_key = trunc_key key, a_val = trunc_val val, a_wts = timestamp (st (eng y))\<rparr>) \<and>
    (\<forall>d. d \<noteq> c \<longrightarrow> a_txns (abs_sys y1) d = a_txns (abs_sys y) d)"
proof -
  have "ts < timestamp (st (eng y))" using wf_sysD(2) [OF wf c] by (simp add: wf_txn_def)
  then have x: "a_txns (abs_sys y) c = Some \<lparr>at_acc = Map.empty, at_start = ts, at_ins = 0\<rparr>"
    using c wf_txn_started(2) by (simp add: abs_txn_def txn_init_def)
  have "a_db (abs_sys y) (h key) = None" "a_time (abs_sys y) + 1 \<noteq> 0" using new time by simp_all
  note a = a_insert_commit [where h = h and key = key and val = val, OF x this]
  obtain evs y1 where r: "run h y [(c, Put key val), (c, Commit_txn)] = Inr (evs, y1)" "wf_sys y1"
    "a_run h (abs_sys y) [(c, Put key val), (c, Commit_txn)] = (evs, abs_sys y1)"
    using run_ok [OF wf a(1)] by blast
  have evs: "evs = [(c, Put key val, Rc_OK, []), (c, Commit_txn, Rc_OK, [])]"
    and y1: "abs_sys y1 = (abs_sys y)\<lparr>a_db := (a_db (abs_sys y))(h key \<mapsto>
        \<lparr>a_key = trunc_key key, a_val = trunc_val val, a_wts = a_time (abs_sys y)\<rparr>),
      a_time := a_time (abs_sys y) + 1, a_txns := (a_txns (abs_sys y))(c := None)\<rparr>"
    using r(3) a(2) by simp_all
  show ?thesis
    using r(1,2) evs arg_cong [OF y1, of a_db] arg_cong [OF y1, of a_time] arg_cong [OF y1, of a_txns]
    by (intro exI [of _ y1]) simp
qed

lemma api_step_other:
  assumes "api_step h y c call = Inr (rc, v, y1)" and "d \<noteq> c"
  shows "handles y1 d = handles y d"
  using assms by (cases call) (auto simp: res_simps Let_def split: prod.splits)

lemma run_other:
  assumes "run h y cs = Inr (evs, y1)" and "\<forall>x \<in> set cs. fst x \<noteq> d"
  shows "handles y1 d = handles y d"
  using assms
proof (induction h y cs arbitrary: evs rule: run.induct)
  case (2 h y c call cs)
  then obtain rc v y2 evs2 where s: "api_step h y c call = Inr (rc, v, y2)" "run h y2 cs = Inr (evs2, y1)"
    by (auto simp: res_simps)
  then have "handles y1 d = handles y2 d" using 2 by auto
  then show ?case using api_step_other [OF s(1), of d] 2(3) by auto
qed simp

text \<open>The same put as one call: the row is newer than the transaction, the put is refused.\<close>

lemma a_late_put:
  assumes "a_txns a d = Some \<lparr>at_acc = Map.empty, at_start = us, at_ins = 0\<rparr>" and "a_db a (h key) = Some row" and "us < a_wts row"
  shows "a_oks h a [(d, Put key val)]" and "fst (a_run h a [(d, Put key val)]) = [(d, Put key val, Rc_ERROR, [])]"
  using assms by (simp_all add: a_update_def a_access_def a_room_def MAX_ROW_PER_TXN_def)

section \<open>The lost commit\<close>

text \<open>
  C30. A race of two puts of a new key loses a committed write: client \<open>d\<close> has begun and its \<open>put\<close> has
  looked the key up and found nothing; before it goes on, client \<open>c\<close> puts the key and commits,
  both acknowledged. Then \<open>d\<close>'s \<open>put\<close> inserts a second row under the key, its commit is acknowledged as
  well, and from then on the key has \<open>d\<close>'s value, although \<open>d\<close> began before \<open>c\<close> committed and never saw
  that value. As an atomic call, the same put of \<open>d\<close> would have been refused.
\<close>

theorem put_race_loses_commit:
  assumes wf: "wf_sys y" and c: "impl (handles y c) = Some \<lparr>ctx_txn = txn_init\<lparr>start_ts := ts\<rparr>, thd_id = i\<rparr>"
    and d: "impl (handles y d) = Some \<lparr>ctx_txn = txn_init\<lparr>start_ts := us\<rparr>, thd_id = j\<rparr>" and cd: "c \<noteq> d"
    and new: "db_view (st (eng y)) (h key) = None" and time: "unat (timestamp (st (eng y))) + 2 < 2 ^ 64"
  shows "\<exists>y1 s2 t2 s3 t3 y4. Write_lookup h (st (eng y)) key = Inr None \<and>
    run h y [(c, Put key v1), (c, Commit_txn)] = Inr ([(c, Put key v1, Rc_OK, []), (c, Commit_txn, Rc_OK, [])], y1) \<and>
    db_view (st (eng y1)) (h key) = Some \<lparr>a_key = trunc_key key, a_val = trunc_val v1, a_wts = timestamp (st (eng y))\<rparr> \<and>
    handles y1 d = handles y d \<and>
    Write_rest h None (st (eng y1)) (txn_init\<lparr>start_ts := us\<rparr>) key v2 = Inr (RCOK, s2, t2) \<and>
    finish s2 t2 RCOK = Inr (RCOK, s3, t3) \<and>
    db_view s3 (h key) = Some \<lparr>a_key = trunc_key key, a_val = trunc_val v2, a_wts = timestamp (st (eng y)) + 1\<rparr> \<and>
    run h y1 [(d, Put key v2)] = Inr ([(d, Put key v2, Rc_ERROR, [])], y4)"
proof -
  let ?ts = "timestamp (st (eng y))"
  have "unat ?ts + Suc (Suc 0) < 2 ^ 64" using time by simp
  from unat_Suc_bound [OF this] have t1: "?ts + 1 \<noteq> 0" "unat (?ts + 1) + Suc 0 < 2 ^ 64" by blast+
  have t: "?ts + 1 \<noteq> 0" "?ts + 1 + 1 \<noteq> 0" "us < ?ts"
    using t1(1) unat_Suc_bound [OF t1(2)] wf_sysD(2) [OF wf d] by (simp_all add: wf_txn_def)
  note look = Write_lookup_none [where h = h and key = key, OF wf_sysD(1) [OF wf] new]
  obtain y1 where y1: "run h y [(c, Put key v1), (c, Commit_txn)] =
      Inr ([(c, Put key v1, Rc_OK, []), (c, Commit_txn, Rc_OK, [])], y1)" "wf_sys y1"
    "timestamp (st (eng y1)) = ?ts + 1"
    "db_view (st (eng y1)) (h key) = Some \<lparr>a_key = trunc_key key, a_val = trunc_val v1, a_wts = ?ts\<rparr>"
    "a_txns (abs_sys y1) d = a_txns (abs_sys y) d"
    using insert_and_commit [where h = h and key = key and val = v1, OF wf c new t(1)] cd by auto
  have same: "handles y1 d = handles y d" by (rule run_other [OF y1(1)]) (use cd in auto)
  have "us < timestamp (st (eng y1))" using t(3) u64_less_Suc [OF t(1)] y1(3) by simp
  moreover have "timestamp (st (eng y1)) + 1 \<noteq> 0" using t(2) y1(3) by simp
  ultimately obtain s2 t2 s3 t3 where late: "Write_rest h None (st (eng y1)) (txn_init\<lparr>start_ts := us\<rparr>) key v2 = Inr (RCOK, s2, t2)"
    "finish s2 t2 RCOK = Inr (RCOK, s3, t3)"
    "db_view s3 (h key) = Some \<lparr>a_key = trunc_key key, a_val = trunc_val v2, a_wts = ?ts + 1\<rparr>"
    using late_insert_commits [OF wf_sysD(1) [OF y1(2)], of us h key v2] y1(3) by auto
  have x: "a_txns (abs_sys y1) d = Some \<lparr>at_acc = Map.empty, at_start = us, at_ins = 0\<rparr>"
    using y1(5) d wf_txn_started(2) [OF t(3)] by (simp add: abs_txn_def txn_init_def)
  have "a_db (abs_sys y1) (h key) = Some \<lparr>a_key = trunc_key key, a_val = trunc_val v1, a_wts = ?ts\<rparr>"
    using y1(4) by simp
  moreover have "us < a_wts \<lparr>a_key = trunc_key key, a_val = trunc_val v1, a_wts = ?ts\<rparr>" using t(3) by simp
  ultimately have p: "a_oks h (abs_sys y1) [(d, Put key v2)]"
    "fst (a_run h (abs_sys y1) [(d, Put key v2)]) = [(d, Put key v2, Rc_ERROR, [])]"
    by (rule a_late_put [where h = h and key = key and val = v2, OF x])+
  obtain evs y4 where r: "run h y1 [(d, Put key v2)] = Inr (evs, y4)"
    "a_run h (abs_sys y1) [(d, Put key v2)] = (evs, abs_sys y4)"
    using run_ok [OF y1(2) p(1)] by blast
  have "evs = [(d, Put key v2, Rc_ERROR, [])]" using p(2) unfolding r(2) by simp
  with r(1) show ?thesis using look y1(1,4) same late by blast
qed

lemma demo_two_begun:
  defines "y \<equiv> demo_at [(0, Begin_txn), (1, Begin_txn)]"
  shows "wf_sys y" and "impl (handles y 0) = Some \<lparr>ctx_txn = txn_init\<lparr>start_ts := 1\<rparr>, thd_id = 0\<rparr>"
    and "impl (handles y 1) = Some \<lparr>ctx_txn = txn_init\<lparr>start_ts := 2\<rparr>, thd_id = 0\<rparr>"
    and "db_view (st (eng y)) = initial_db" and "timestamp (st (eng y)) = 3"
proof -
  have oks: "a_oks demo_hash demo_abs [(0, Begin_txn), (1, Begin_txn)]" by (simp add: demo_abs_def)
  show "wf_sys y" unfolding y_def by (rule demo_at_ok(1) [OF oks])
  show "db_view (st (eng y)) = initial_db" "timestamp (st (eng y)) = 3"
    unfolding y_def demo_abs_view [OF oks] by (simp_all add: demo_eval)
  obtain y' where "run demo_hash demo_start [(0, Begin_txn), (1, Begin_txn)] =
      Inr ([(0, Begin_txn, Rc_OK, []), (1, Begin_txn, Rc_OK, [])], y')"
    "impl (handles y' 0) = Some \<lparr>ctx_txn = txn_init\<lparr>start_ts := 1\<rparr>, thd_id = 0\<rparr>"
    "impl (handles y' 1) = Some \<lparr>ctx_txn = txn_init\<lparr>start_ts := 2\<rparr>, thd_id = 0\<rparr>"
    by (simp add: begin_txn_def get_ts_def demo_start_ok(5))
  then show "impl (handles y 0) = Some \<lparr>ctx_txn = txn_init\<lparr>start_ts := 1\<rparr>, thd_id = 0\<rparr>"
    "impl (handles y 1) = Some \<lparr>ctx_txn = txn_init\<lparr>start_ts := 2\<rparr>, thd_id = 0\<rparr>"
    by (simp_all add: y_def demo_at_def)
qed

theorem put_race_loses_commit_witness:
  "\<exists>y1 s2 t2 s3 t3. run demo_hash (demo_at [(0, Begin_txn), (1, Begin_txn)]) [(0, Put ''k'' ''x''), (0, Commit_txn)] =
      Inr ([(0, Put ''k'' ''x'', Rc_OK, []), (0, Commit_txn, Rc_OK, [])], y1) \<and>
    Write_rest demo_hash None (st (eng y1)) (txn_init\<lparr>start_ts := 2\<rparr>) ''k'' ''y'' = Inr (RCOK, s2, t2) \<and>
    finish s2 t2 RCOK = Inr (RCOK, s3, t3) \<and>
    db_view s3 100 = Some \<lparr>a_key = trunc_key ''k'', a_val = trunc_val ''y'', a_wts = 4\<rparr>"
proof -
  let ?y = "demo_at [(0, Begin_txn), (1, Begin_txn)]"
  have new: "db_view (st (eng ?y)) (demo_hash ''k'') = None"
    unfolding demo_two_begun(4) by (simp add: demo_simps)
  have "(0::nat) \<noteq> 1" "unat (timestamp (st (eng ?y))) + 2 < 2 ^ 64" unfolding demo_two_begun(5) by simp_all
  from put_race_loses_commit [where h = demo_hash and key = "''k''" and ?v1.0 = "''x''" and ?v2.0 = "''y''",
      OF demo_two_begun(1,2,3) this(1) new this(2)]
  show ?thesis unfolding demo_two_begun(5) demo_keys by (simp only: one_plus_numeral numeral_plus_one) (simp, blast)
qed

end
