(* ===== verification/Helper.thy ===== *)
theory Helper
  imports Index_Hash
begin

text \<open>
  The helpers of \<open>Storage/System/helper.h\<close> and \<open>helper.cpp\<close>: copying and comparing index items, the
  functions that place and merge keys, the random number generator, and the list and stack macros.
\<close>

unbundle bit_operations_syntax

section \<open>Index items\<close>

definition item_eq :: "itemid_t \<Rightarrow> itemid_t \<Rightarrow> bool" where
  "item_eq a b \<longleftrightarrow> item_type a = item_type b \<and> location a = location b"

definition item_neq :: "itemid_t \<Rightarrow> itemid_t \<Rightarrow> bool" where
  "item_neq a b \<longleftrightarrow> \<not> item_eq a b"

text \<open>The assignment operator; the chain pointer is not copied.\<close>

definition item_assign :: "itemid_t \<Rightarrow> itemid_t \<Rightarrow> itemid_t res" where
  "item_assign this other =
     (let this1 = this\<lparr>valid := valid other, item_type := item_type other, location := location other\<rparr>
      in R_bind (R_assert (item_eq this1 other)) (\<lambda>_.
         R_bind (R_assert (valid this1)) (\<lambda>_. Inr this1)))"

definition item_init :: "itemid_t \<Rightarrow> itemid_t" where
  "item_init this = this\<lparr>valid := False, location := None\<rparr>"

section \<open>Placement\<close>

definition get_thdid_from_txnid :: "u64 \<Rightarrow> nat" where
  "get_thdid_from_txnid txnid = unat txnid mod g_thread_cnt"

definition get_part_id :: "nat \<Rightarrow> nat" where
  "get_part_id addr = (addr div PAGE_SIZE) mod g_part_cnt"

definition key_to_part :: "u64 \<Rightarrow> nat" where
  "key_to_part key = (if g_part_alloc then unat key mod g_part_cnt else 0)"

section \<open>Merged keys\<close>

text \<open>A shift by the width of the type or more has no defined result.\<close>

definition shl64 :: "u64 \<Rightarrow> nat \<Rightarrow> u64 res" where
  "shl64 x n = (if n < 64 then Inr (push_bit n x) else Inl Bad_Shift)"

text \<open>
  \<open>merge_idx_key(key_cnt, keys)\<close>. The loop runs to \<open>len\<close>, the number of bits of a key, not to
  \<open>key_cnt\<close>. \<open>merge_loop keys len i n key\<close> does the rounds \<open>i\<close> to \<open>i + n - 1\<close>.
\<close>

fun merge_loop :: "u64 list \<Rightarrow> nat \<Rightarrow> nat \<Rightarrow> nat \<Rightarrow> u64 \<Rightarrow> u64 res" where
  "merge_loop keys len i 0 key = Inr key"
| "merge_loop keys len i (Suc n) key =
     R_bind (R_nth keys i) (\<lambda>k.
     R_bind (shl64 1 len) (\<lambda>lim.
     R_bind (R_assert (k < lim)) (\<lambda>_.
     R_bind (shl64 key len) (\<lambda>key1.
       merge_loop keys len (Suc i) n (key1 OR k)))))"

definition merge_idx_key :: "u64 \<Rightarrow> u64 list \<Rightarrow> u64 res" where
  "merge_idx_key key_cnt keys =
     (if key_cnt = 0 then Inl Div_By_Zero
      else let len = 64 div unat key_cnt in merge_loop keys len 0 len 0)"

definition merge_idx_key2 :: "u64 \<Rightarrow> u64 \<Rightarrow> u64 res" where
  "merge_idx_key2 key1 key2 =
     R_bind (R_assert (key1 < push_bit 32 1 \<and> key2 < push_bit 32 1)) (\<lambda>_.
       Inr (push_bit 32 key1 OR key2))"

definition merge_idx_key3 :: "u64 \<Rightarrow> u64 \<Rightarrow> u64 \<Rightarrow> u64 res" where
  "merge_idx_key3 key1 key2 key3 =
     R_bind (R_assert (key1 < push_bit 21 1 \<and> key2 < push_bit 21 1 \<and> key3 < push_bit 21 1)) (\<lambda>_.
       Inr (push_bit 42 key1 OR push_bit 21 key2 OR key3))"

section \<open>Random numbers\<close>

text \<open>\<open>rand_max\<close> is the implementation's \<open>RAND_MAX\<close>; all arithmetic is on 64 bits.\<close>

record myrand =
  seed :: u64

definition myrand_init :: "u64 \<Rightarrow> myrand" where
  "myrand_init s = \<lparr>seed = s\<rparr>"

definition myrand_next :: "u64 \<Rightarrow> myrand \<Rightarrow> u64 \<times> myrand" where
  "myrand_next rand_max r =
     (let s = (seed r * 1103515247 + 12345) mod push_bit 63 1
      in ((s div 65537) mod rand_max, r\<lparr>seed := s\<rparr>))"

section \<open>Properties of merged keys\<close>

lemma less_bits:
  fixes k :: u64
  assumes "k < push_bit n 1" and "n < 64"
  shows "take_bit n k = k"
proof -
  have "push_bit n (1 :: u64) = of_nat (2 ^ n)" by (simp add: push_bit_eq_mult)
  moreover have "(2 :: nat) ^ n < 2 ^ 64" using assms(2) by (intro power_strict_increasing) simp_all
  ultimately have "unat (push_bit n (1 :: u64)) = 2 ^ n" by (simp only: unat_of_nat) simp
  then have "unat k < 2 ^ n" using assms(1) by (simp add: word_less_nat_alt)
  then show ?thesis
    by (simp add: word_unat_eq_iff unsigned_take_bit_eq take_bit_nat_eq_self)
qed

lemma bit_below:
  fixes k :: u64
  assumes "k < push_bit n 1" and "n < 64" and "bit k i"
  shows "i < n"
  using less_bits [OF assms(1,2)] assms(3) by (metis bit_take_bit_iff)

lemma merge2_recover:
  assumes "merge_idx_key2 k1 k2 = Inr w"
  shows "k1 = drop_bit 32 w \<and> k2 = take_bit 32 w"
proof -
  have w: "w = push_bit 32 k1 OR k2" "k1 < push_bit 32 1" "k2 < push_bit 32 1"
    using assms by (auto simp: merge_idx_key2_def res_simps)
  have b: "\<not> bit k1 (32 + i)" "\<not> bit k2 (32 + i)" "32 \<le> i \<Longrightarrow> \<not> bit k1 i" "32 \<le> i \<Longrightarrow> \<not> bit k2 i" for i
    using bit_below [OF w(2)] bit_below [OF w(3)] by fastforce+
  show ?thesis
    unfolding w(1)
    by (auto intro!: bit_word_eqI simp: bit_simps not_less b bit_below [OF w(2)] bit_below [OF w(3)])
qed

lemma merge3_recover:
  assumes "merge_idx_key3 a b c = Inr w"
  shows "a = drop_bit 42 w \<and> b = take_bit 21 (drop_bit 21 w) \<and> c = take_bit 21 w"
proof -
  have w: "w = push_bit 42 a OR push_bit 21 b OR c" "a < push_bit 21 1" "b < push_bit 21 1" "c < push_bit 21 1"
    using assms by (auto simp: merge_idx_key3_def res_simps)
  have b: "21 \<le> i \<Longrightarrow> \<not> bit a i" "21 \<le> i \<Longrightarrow> \<not> bit b i" "21 \<le> i \<Longrightarrow> \<not> bit c i" for i
    using bit_below [OF w(2)] bit_below [OF w(3)] bit_below [OF w(4)] by fastforce+
  have low: "bit a i \<Longrightarrow> i < 22" for i using bit_below [OF w(2), of i] by simp
  show ?thesis
    unfolding w(1) by (auto intro!: bit_word_eqI simp: bit_simps not_less b low)
qed

text \<open>
  Merging two or three keys loses nothing: the merge passes its assertions exactly when the keys
  fit 32 or 21 bits, and then the keys are the fields of the result from the top down, so that
  different keys merge to different results.
\<close>

theorem merged_keys_recover:
  "(case merge_idx_key2 k1 k2 of
      Inr w \<Rightarrow> k1 = drop_bit 32 w \<and> k2 = take_bit 32 w
    | Inl e \<Rightarrow> e = Assert_Failed \<and> (2 ^ 32 \<le> k1 \<or> 2 ^ 32 \<le> k2)) \<and>
   (case merge_idx_key3 a b c of
      Inr w \<Rightarrow> a = drop_bit 42 w \<and> b = take_bit 21 (drop_bit 21 w) \<and> c = take_bit 21 w
    | Inl e \<Rightarrow> e = Assert_Failed \<and> (2 ^ 21 \<le> a \<or> 2 ^ 21 \<le> b \<or> 2 ^ 21 \<le> c))"
proof (rule conjI)
  show "case merge_idx_key2 k1 k2 of
      Inr w \<Rightarrow> k1 = drop_bit 32 w \<and> k2 = take_bit 32 w
    | Inl e \<Rightarrow> e = Assert_Failed \<and> (2 ^ 32 \<le> k1 \<or> 2 ^ 32 \<le> k2)"
  proof (cases "merge_idx_key2 k1 k2")
    case (Inl e)
    then show ?thesis
      by (auto simp: merge_idx_key2_def R_assert_def push_bit_eq_mult not_less split: if_splits)
  next
    case (Inr w)
    then show ?thesis using merge2_recover by simp
  qed
  show "case merge_idx_key3 a b c of
      Inr w \<Rightarrow> a = drop_bit 42 w \<and> b = take_bit 21 (drop_bit 21 w) \<and> c = take_bit 21 w
    | Inl e \<Rightarrow> e = Assert_Failed \<and> (2 ^ 21 \<le> a \<or> 2 ^ 21 \<le> b \<or> 2 ^ 21 \<le> c)"
  proof (cases "merge_idx_key3 a b c")
    case (Inl e)
    then show ?thesis
      by (auto simp: merge_idx_key3_def R_assert_def push_bit_eq_mult not_less split: if_splits)
  next
    case (Inr w)
    then show ?thesis using merge3_recover by simp
  qed
qed

text \<open>The loop of \<open>merge_idx_key\<close> reads one element per round.\<close>

lemma merge_loop_overread:
  assumes "length keys < i + n" and "i \<le> length keys" and "len < 64"
    and "\<forall>k \<in> set keys. k < push_bit len 1"
  shows "merge_loop keys len i n key = Inl Out_Of_Bounds"
  using assms(1,2)
proof (induction n arbitrary: i key)
  case (Suc n)
  show ?case
  proof (cases "i < length keys")
    case True
    then have "keys ! i < push_bit len 1" using assms(4) by simp
    then show ?thesis using Suc.IH [of "Suc i"] Suc.prems True assms(3) by (simp add: shl64_def)
  qed (simp add: R_nth_def)
qed simp

lemma merge_loop_take:
  assumes "i + n \<le> length keys"
  shows "merge_loop (take (i + n) keys) len i n key = merge_loop keys len i n key"
  using assms
proof (induction n arbitrary: i key)
  case (Suc n)
  have "merge_loop (take (i + Suc n) keys) len (Suc i) n k = merge_loop keys len (Suc i) n k" for k
    using Suc.IH [of "Suc i" k] Suc.prems by simp
  then show ?case using Suc.prems by (simp add: R_nth_def)
qed simp

text \<open>
  Merging a whole array of keys works for eight keys only: for two to seven keys that fit their
  fields the loop reads past the end of the array, and from nine keys on the result does not
  depend on the last ones.
\<close>

theorem merge_idx_key_wrong_bound:
  assumes "length keys = unat key_cnt" and "1 < key_cnt"
    and "\<forall>k \<in> set keys. k < push_bit (64 div unat key_cnt) 1"
  shows "(key_cnt < 8 \<longrightarrow> merge_idx_key key_cnt keys = Inl Out_Of_Bounds) \<and>
    (8 < key_cnt \<longrightarrow> 64 div unat key_cnt < length keys \<and>
       merge_idx_key key_cnt (take (64 div unat key_cnt) keys) = merge_idx_key key_cnt keys)"
proof -
  define n where "n = unat key_cnt"
  have n: "1 < n" "key_cnt < 8 \<longleftrightarrow> n < 8" "8 < key_cnt \<longleftrightarrow> 8 < n" "key_cnt \<noteq> 0"
    using assms(2) by (auto simp: n_def word_less_nat_alt unat_eq_0)
  have len: "64 div n < 64" using n(1) by simp
  have "n < 8 \<Longrightarrow> n < 64 div n"
    using n(1) by (subgoal_tac "n \<in> {2, 3, 4, 5, 6, 7}") auto
  then have "n < 8 \<Longrightarrow> merge_idx_key key_cnt keys = Inl Out_Of_Bounds"
    using merge_loop_overread [of keys 0 "64 div n" "64 div n"] assms n(4) len
    by (simp add: merge_idx_key_def Let_def n_def)
  moreover have "64 div n < n" if "8 < n"
    using div_le_mono2 [of 9 n 64] that by simp
  then have "8 < n \<Longrightarrow> 64 div n < length keys \<and>
      merge_idx_key key_cnt (take (64 div n) keys) = merge_idx_key key_cnt keys"
    using merge_loop_take [of 0 "64 div n" keys "64 div n" 0] assms(1) n(4)
    by (simp add: merge_idx_key_def Let_def n_def)
  ultimately show ?thesis using n by (simp add: n_def)
qed

theorem merge_idx_key_wrong_bound_witness:
  "merge_idx_key 2 [1, 2] = Inl Out_Of_Bounds"
proof -
  have "unat (2 :: u64) = 2" by simp
  then show ?thesis using merge_idx_key_wrong_bound [of "[1, 2]" 2] by (simp add: word_less_nat_alt push_bit_eq_mult)
qed

section \<open>Properties of the generator\<close>

lemma low_bits_alternate: "(15 * ((15 * y + 9) mod 16) + 9) mod 16 = y" if "y < 16" for y :: nat
proof -
  have "\<forall>y \<in> set [0 ..< 16 :: nat]. (15 * ((15 * y + 9) mod 16) + 9) mod 16 = y" by code_simp
  then show ?thesis using that by simp
qed

lemma seed_mod16: "unat (seed (snd (myrand_next m r))) mod 16 = (15 * (unat (seed r) mod 16) + 9) mod 16"
proof -
  have "unat (seed (snd (myrand_next m r))) = (unat (seed r) * 1103515247 + 12345) mod 2 ^ 64 mod 2 ^ 63"
    by (simp add: myrand_next_def Let_def unat_mod unat_word_ariths mod_simps push_bit_eq_mult)
  then have "unat (seed (snd (myrand_next m r))) mod 16 = (unat (seed r) * 1103515247 + 12345) mod 16"
    by (simp add: mod_mod_cancel)
  also have "\<dots> = (unat (seed r) mod 16 * 15 + 9) mod 16"
    by (intro mod_add_cong mod_mult_cong) simp_all
  also have "\<dots> = (15 * (unat (seed r) mod 16) + 9) mod 16" by (simp only: mult.commute)
  finally show ?thesis .
qed

text \<open>
  The generator stays within its bounds, whatever it was seeded with: a value is below
  \<open>RAND_MAX\<close> and the new seed below \<open>2 ^ 63\<close>. But its multiplier is 15 modulo 16, so the low four
  bits of the seed only alternate: after two calls they are what they were.
\<close>

theorem myrand_bounds:
  assumes "0 < rand_max"
  shows "fst (myrand_next rand_max r) < rand_max \<and> seed (snd (myrand_next rand_max r)) < 2 ^ 63 \<and>
    unat (seed (snd (myrand_next rand_max (snd (myrand_next rand_max r))))) mod 16 = unat (seed r) mod 16"
proof -
  have "fst (myrand_next rand_max r) < rand_max"
    using assms by (simp add: myrand_next_def Let_def word_less_nat_alt unat_mod unat_gt_0)
  moreover have "seed (snd (myrand_next rand_max r)) < 2 ^ 63"
    by (simp add: myrand_next_def Let_def word_less_nat_alt unat_mod push_bit_eq_mult)
  moreover have "unat (seed (snd (myrand_next rand_max (snd (myrand_next rand_max r))))) mod 16 = unat (seed r) mod 16"
    unfolding seed_mod16 by (rule low_bits_alternate) simp
  ultimately show ?thesis by blast
qed

theorem myrand_bounds_witness:
  "fst (myrand_next 2147483647 (myrand_init 1)) < 2147483647 \<and>
    seed (snd (myrand_next 2147483647 (myrand_init 1))) < 2 ^ 63"
proof -
  have "(0 :: u64) < 2147483647" by simp
  from myrand_bounds [OF this, of "myrand_init 1"] show ?thesis by blast
qed

end
