(* ===== verification/Mem_Alloc.thy ===== *)
theory Mem_Alloc
  imports Config
begin

text \<open>
  The memory allocator (\<open>Storage/System/mem_alloc.h\<close>, \<open>mem_alloc.cpp\<close>): arenas of equal blocks with
  a free list, and the open-addressing table that assigns arenas to threads. In this configuration
  (\<open>THREAD_ALLOC\<close> off) the allocator passes every call on to the C library; the arenas and the table
  are what it uses when it is switched on.

  Sizes are \<open>int\<close>s in the source; they are natural numbers here, never negative since \<open>Arena::init\<close>
  is called with block sizes only, and a size that leaves the range of \<open>int\<close> is a fault.
  Addresses are natural numbers. The chunk of memory the \<open>k\<close>-th call of \<open>malloc\<close> of an arena yields is
  a parameter, \<open>mlc k\<close>.
\<close>

section \<open>Arenas\<close>

text \<open>
  The header in front of each block, 16 bytes; \<open>fb_next\<close> is \<open>None\<close> as long as it has not been written.
\<close>

record free_block =
  fb_size :: nat
  fb_next :: "nat option option"

definition sizeof_FreeBlock :: nat where "sizeof_FreeBlock = 16"

definition SizeNum :: nat where "SizeNum = 4"

definition BlockSizes :: "nat list" where "BlockSizes = [32, 64, 256, 1024]"

record arena =
  buffer :: nat
  size_in_buffer :: nat
  arena_id :: nat
  block_size :: nat
  head :: "nat option"

text \<open>The headers written so far, and how many chunks \<open>malloc\<close> has been asked for.\<close>

record blocks =
  headers :: "nat \<Rightarrow> free_block option"
  chunks :: nat

definition arena_init :: "nat \<Rightarrow> nat \<Rightarrow> arena" where
  "arena_init aid sz =
     \<lparr>buffer = 0, size_in_buffer = 0, arena_id = aid, block_size = sz, head = None\<rparr>"

text \<open>
  What fits an \<open>int\<close>. The size of a block with its header, rounded up to the alignment by masking, is
  computed in \<open>size_t\<close> and stored in an \<open>int\<close>; the size of a chunk is a product of \<open>int\<close>s.
\<close>

definition R_int :: "nat \<Rightarrow> nat res" where
  "R_int n = (if n < 2 ^ 31 then Inr n else Inl Int_Overflow)"

definition block_span :: "nat \<Rightarrow> nat" where
  "block_span sz = (sz + sizeof_FreeBlock + (MEM_ALLIGN - 1)) div MEM_ALLIGN * MEM_ALLIGN"

definition chunk_size :: "nat \<Rightarrow> nat" where
  "chunk_size sz = sz * 40960"

definition deref_block :: "blocks \<Rightarrow> nat \<Rightarrow> free_block res" where
  "deref_block m b = (case headers m b of None \<Rightarrow> Inl Use_After_Free | Some fb \<Rightarrow> Inr fb)"

text \<open>\<open>refill\<close> is the request for a new chunk, \<open>carve\<close> what follows it.\<close>

definition refill :: "(nat \<Rightarrow> nat) \<Rightarrow> arena \<Rightarrow> blocks \<Rightarrow> (arena \<times> blocks) res" where
  "refill mlc a m =
     R_bind (R_int (chunk_size (block_size a))) (\<lambda>c.
       Inr (a\<lparr>buffer := mlc (chunks m), size_in_buffer := c\<rparr>, m\<lparr>chunks := Suc (chunks m)\<rparr>))"

definition carve :: "nat \<Rightarrow> arena \<Rightarrow> blocks \<Rightarrow> nat \<times> arena \<times> blocks" where
  "carve sz a m =
     (let block = buffer a
      in (block + sizeof_FreeBlock,
          a\<lparr>size_in_buffer := size_in_buffer a - sz, buffer := buffer a + sz\<rparr>,
          m\<lparr>headers := (headers m)(block \<mapsto> \<lparr>fb_size = block_size a, fb_next = None\<rparr>)\<rparr>))"

definition arena_alloc :: "(nat \<Rightarrow> nat) \<Rightarrow> arena \<Rightarrow> blocks \<Rightarrow> (nat \<times> arena \<times> blocks) res" where
  "arena_alloc mlc a m =
     (case head a of
        None \<Rightarrow>
          R_bind (R_int (block_span (block_size a))) (\<lambda>sz.
          R_bind (if size_in_buffer a < sz then refill mlc a m else Inr (a, m)) (\<lambda>(a1, m1).
            Inr (carve sz a1 m1)))
      | Some block \<Rightarrow>
          R_bind (deref_block m block) (\<lambda>fb.
            case fb_next fb of
              None \<Rightarrow> Inl Uninit_Read
            | Some nx \<Rightarrow> Inr (block + sizeof_FreeBlock, a\<lparr>head := nx\<rparr>, m)))"

definition arena_free :: "nat \<Rightarrow> arena \<Rightarrow> blocks \<Rightarrow> (arena \<times> blocks) res" where
  "arena_free ptr a m =
     (let block = ptr - sizeof_FreeBlock
      in R_bind (deref_block m block) (\<lambda>fb.
           Inr (a\<lparr>head := Some block\<rparr>,
                m\<lparr>headers := (headers m)(block \<mapsto> fb\<lparr>fb_next := Some (head a)\<rparr>)\<rparr>)))"

text \<open>The smallest class of blocks that holds \<open>sz\<close> bytes; the assertion stops larger sizes.\<close>

fun size_class :: "nat list \<Rightarrow> nat \<Rightarrow> nat \<Rightarrow> nat res" where
  "size_class [] i sz = Inl Assert_Failed"
| "size_class (b # bs) i sz = (if sz \<le> b then Inr i else size_class bs (Suc i) sz)"

definition get_size_id :: "nat \<Rightarrow> nat res" where
  "get_size_id sz = size_class BlockSizes 0 sz"

section \<open>The arena of a thread\<close>

text \<open>
  \<open>pid_arena\<close>: pairs of a thread and its arena, 0 for a free entry. Both loops walk from the entry a
  thread hashes to until the entry satisfies \<open>stop\<close>; they do not end if none does.
\<close>

record pools =
  arenas :: "arena list list"
  bucket_count :: nat
  pid_arena :: "(nat \<times> nat) list"

partial_function (option) probe :: "(nat \<Rightarrow> bool) \<Rightarrow> (nat \<times> nat) list \<Rightarrow> nat \<Rightarrow> nat option" where
  "probe stop tab entry =
     (if stop (fst (tab ! entry)) then Some entry else probe stop tab ((entry + 1) mod length tab))"

definition init_thread_arena :: "pools \<Rightarrow> pools" where
  "init_thread_arena p =
     (let buf_cnt = (if g_thread_cnt < g_init_parallelism then g_init_parallelism else g_thread_cnt)
      in p\<lparr>arenas := map (\<lambda>i. map (\<lambda>n. arena_init i (BlockSizes ! n)) [0 ..< SizeNum]) [0 ..< buf_cnt]\<rparr>)"

definition pools_init :: "pools \<Rightarrow> pools" where
  "pools_init p =
     (let cnt = (if g_thread_cnt < g_init_parallelism then g_init_parallelism * 4 + 1
                 else g_thread_cnt * 4 + 1);
          p1 = p\<lparr>bucket_count := cnt, pid_arena := replicate cnt (0, 0)\<rparr>
      in if THREAD_ALLOC then init_thread_arena p1 else p1)"

text \<open>What \<open>register_thread\<close> and \<open>unregister\<close> do under the lock, and the calls themselves.\<close>

definition enter_thread :: "nat \<Rightarrow> nat \<Rightarrow> pools \<Rightarrow> pools option" where
  "enter_thread pid thd p =
     map_option (\<lambda>e. p\<lparr>pid_arena := (pid_arena p)[e := (pid, thd)]\<rparr>)
       (probe (\<lambda>x. x = 0) (pid_arena p) (pid mod bucket_count p))"

definition register_thread :: "nat \<Rightarrow> nat \<Rightarrow> pools \<Rightarrow> pools option" where
  "register_thread pid thd p = (if THREAD_ALLOC then enter_thread pid thd p else Some p)"

definition clear_threads :: "pools \<Rightarrow> pools" where
  "clear_threads p = p\<lparr>pid_arena := map (\<lambda>_. (0, 0)) (pid_arena p)\<rparr>"

definition unregister :: "pools \<Rightarrow> pools" where
  "unregister p = (if THREAD_ALLOC then clear_threads p else p)"

definition get_arena_id :: "nat \<Rightarrow> pools \<Rightarrow> nat option" where
  "get_arena_id pid p =
     map_option (\<lambda>e. snd (pid_arena p ! e))
       (probe (\<lambda>x. x = pid \<or> x = 0) (pid_arena p) (pid mod bucket_count p))"

section \<open>Allocation\<close>

text \<open>
  \<open>mem_alloc::alloc\<close> and \<open>free\<close> decide where a request goes: to the C library, or to the arena of the
  calling thread for the size class.
\<close>

datatype route = To_Library | To_Arena nat nat

definition arena_route :: "nat \<Rightarrow> pools \<Rightarrow> nat \<Rightarrow> route res" where
  "arena_route pid p sz =
     (case get_arena_id pid p of
        None \<Rightarrow> Inl Would_Block
      | Some i \<Rightarrow> R_bind (get_size_id sz) (\<lambda>c. Inr (To_Arena i c)))"

definition alloc_route :: "nat \<Rightarrow> pools \<Rightarrow> nat \<Rightarrow> route res" where
  "alloc_route pid p sz =
     (if BlockSizes ! (SizeNum - 1) < sz then Inr To_Library
      else if THREAD_ALLOC \<and> (warmup_finish \<or> enable_thread_mem_pool) then arena_route pid p sz
      else Inr To_Library)"

text \<open>\<open>None\<close>: nothing is freed. The class of an arena block is that of the size in its header.\<close>

definition free_route :: "nat \<Rightarrow> pools \<Rightarrow> blocks \<Rightarrow> nat \<Rightarrow> route option res" where
  "free_route pid p m ptr =
     (if NO_FREE then Inr None
      else if THREAD_ALLOC
      then R_bind (deref_block m (ptr - sizeof_FreeBlock)) (\<lambda>fb.
           R_bind (arena_route pid p (fb_size fb)) (\<lambda>r. Inr (Some r)))
      else Inr (Some To_Library))"

text \<open>In this configuration the allocator is the C library's.\<close>

lemma alloc_route_library: "alloc_route pid p sz = Inr To_Library"
  by (simp add: alloc_route_def THREAD_ALLOC_def)

lemma free_route_library: "free_route pid p m ptr = Inr (Some To_Library)"
  by (simp add: free_route_def NO_FREE_def THREAD_ALLOC_def)


section \<open>Blocks do not overlap\<close>

text \<open>What the arena relies on: \<open>malloc\<close> yields disjoint chunks.\<close>

definition disjoint_chunks :: "(nat \<Rightarrow> nat) \<Rightarrow> nat \<Rightarrow> bool" where
  "disjoint_chunks mlc n \<longleftrightarrow> (\<forall>i j. i \<noteq> j \<longrightarrow> mlc i + n \<le> mlc j \<or> mlc j + n \<le> mlc i)"

text \<open>The free list: the chain of \<open>next\<close> pointers.\<close>

fun free_list :: "(nat \<Rightarrow> free_block option) \<Rightarrow> nat option \<Rightarrow> nat list \<Rightarrow> bool" where
  "free_list h p [] \<longleftrightarrow> p = None"
| "free_list h p (b # bs) \<longleftrightarrow> p = Some b \<and> (\<exists>fb nx. h b = Some fb \<and> fb_next fb = Some nx \<and> free_list h nx bs)"

lemma free_list_upd [simp]: "b \<notin> set bs \<Longrightarrow> free_list (h(b := v)) p bs = free_list h p bs"
  by (induction bs arbitrary: p) auto

definition apart :: "nat \<Rightarrow> nat \<Rightarrow> nat \<Rightarrow> bool" where
  "apart n a b \<longleftrightarrow> a + n \<le> b \<or> b + n \<le> a"

text \<open>
  The invariant: the blocks carved so far are apart from each other and from what is left of the
  current chunk, each lies in a chunk, and the free list holds some of them.
\<close>

definition arena_inv :: "(nat \<Rightarrow> nat) \<Rightarrow> arena \<Rightarrow> blocks \<Rightarrow> nat list \<Rightarrow> bool" where
  "arena_inv mlc a m fs \<longleftrightarrow>
     0 < block_size a \<and> chunk_size (block_size a) < 2 ^ 31 \<and>
     (\<forall>b \<in> dom (headers m). fb_size (the (headers m b)) = block_size a \<and>
        (\<exists>k < chunks m. mlc k \<le> b \<and> b + block_span (block_size a) \<le> mlc k + chunk_size (block_size a)) \<and>
        (b + block_span (block_size a) \<le> buffer a \<or> buffer a + size_in_buffer a \<le> b)) \<and>
     (\<forall>b \<in> dom (headers m). \<forall>c \<in> dom (headers m). b \<noteq> c \<longrightarrow> apart (block_span (block_size a)) b c) \<and>
     (size_in_buffer a \<noteq> 0 \<longrightarrow> (\<exists>k < chunks m. mlc k \<le> buffer a \<and>
        buffer a + size_in_buffer a \<le> mlc k + chunk_size (block_size a))) \<and>
     distinct fs \<and> set fs \<subseteq> dom (headers m) \<and> free_list (headers m) (head a) fs"

lemma block_span_bounds:
  assumes "0 < sz"
  shows "sz + sizeof_FreeBlock \<le> block_span sz" "block_span sz \<le> chunk_size sz" "0 < block_span sz"
proof -
  show b: "sz + sizeof_FreeBlock \<le> block_span sz"
    using mult_div_mod_eq [of MEM_ALLIGN "sz + sizeof_FreeBlock + (MEM_ALLIGN - 1)"]
      mod_less_divisor [of MEM_ALLIGN "sz + sizeof_FreeBlock + (MEM_ALLIGN - 1)"]
    by (simp add: block_span_def MEM_ALLIGN_def)
  have "block_span sz \<le> sz + sizeof_FreeBlock + (MEM_ALLIGN - 1)" by (simp add: block_span_def)
  then show "block_span sz \<le> chunk_size sz"
    using assms by (simp add: chunk_size_def sizeof_FreeBlock_def MEM_ALLIGN_def)
  show "0 < block_span sz" using b assms by simp
qed

lemma arena_inv_init: "0 < sz \<Longrightarrow> chunk_size sz < 2 ^ 31 \<Longrightarrow> arena_inv mlc (arena_init i sz) \<lparr>headers = Map.empty, chunks = 0\<rparr> []"
  by (simp add: arena_inv_def arena_init_def)

text \<open>Carving a block from a buffer with room.\<close>

lemma arena_inv_carve:
  assumes inv: "arena_inv mlc a m fs" and room: "block_span (block_size a) \<le> size_in_buffer a"
  shows "arena_inv mlc (a\<lparr>size_in_buffer := size_in_buffer a - block_span (block_size a),
      buffer := buffer a + block_span (block_size a)\<rparr>)
    (m\<lparr>headers := (headers m)(buffer a \<mapsto> \<lparr>fb_size = block_size a, fb_next = None\<rparr>)\<rparr>) fs \<and>
    buffer a \<notin> dom (headers m)"
proof -
  let ?n = "block_span (block_size a)"
  have pos: "0 < block_size a" "0 < ?n"
    using inv block_span_bounds by (auto simp: arena_inv_def)
  have bs: "b + ?n \<le> buffer a \<or> buffer a + size_in_buffer a \<le> b" if "b \<in> dom (headers m)" for b
    using inv that by (auto simp: arena_inv_def)
  then have new: "buffer a \<notin> dom (headers m)" using room pos(2) by fastforce
  obtain k where k: "k < chunks m" "mlc k \<le> buffer a" "buffer a + size_in_buffer a \<le> mlc k + chunk_size (block_size a)"
    using inv room pos(2) by (auto simp: arena_inv_def)
  have "buffer a \<notin> set fs" using inv new by (auto simp: arena_inv_def)
  moreover have "\<exists>k < chunks m. mlc k \<le> buffer a \<and> buffer a + ?n \<le> mlc k + chunk_size (block_size a)"
    using k room by (intro exI [of _ k]) simp
  moreover have "\<exists>k < chunks m. mlc k \<le> buffer a + ?n \<and> buffer a + size_in_buffer a \<le> mlc k + chunk_size (block_size a)"
    using k by (intro exI [of _ k]) simp
  moreover have "apart ?n (buffer a) b" "apart ?n b (buffer a)" if "b \<in> dom (headers m)" for b
    using bs [OF that] room by (auto simp: apart_def)
  moreover have "b + ?n \<le> buffer a + ?n \<or> buffer a + size_in_buffer a \<le> b" if "b \<in> dom (headers m)" for b
    using bs [OF that] by auto
  moreover have "0 < block_size a" "chunk_size (block_size a) < 2 ^ 31" "distinct fs" "set fs \<subseteq> insert (buffer a) (dom (headers m))"
    "free_list (headers m) (head a) fs"
    "\<forall>b \<in> dom (headers m). \<forall>c \<in> dom (headers m). b \<noteq> c \<longrightarrow> apart ?n b c"
    "\<forall>b \<in> dom (headers m). fb_size (the (headers m b)) = block_size a \<and>
        (\<exists>k < chunks m. mlc k \<le> b \<and> b + ?n \<le> mlc k + chunk_size (block_size a))"
    using inv unfolding arena_inv_def by blast+
  ultimately show ?thesis
    using new room unfolding arena_inv_def by auto
qed

text \<open>Asking for a new chunk.\<close>

lemma arena_inv_chunk:
  assumes inv: "arena_inv mlc a m fs" and dj: "disjoint_chunks mlc (chunk_size (block_size a))"
  shows "arena_inv mlc (a\<lparr>buffer := mlc (chunks m), size_in_buffer := chunk_size (block_size a)\<rparr>)
    (m\<lparr>chunks := Suc (chunks m)\<rparr>) fs"
proof -
  let ?n = "block_span (block_size a)" and ?c = "chunk_size (block_size a)"
  have "b + ?n \<le> mlc (chunks m) \<or> mlc (chunks m) + ?c \<le> b" if b: "b \<in> dom (headers m)" for b
  proof -
    obtain k where k: "k < chunks m" "mlc k \<le> b" "b + ?n \<le> mlc k + ?c"
      using inv b unfolding arena_inv_def by blast
    then have "mlc k + ?c \<le> mlc (chunks m) \<or> mlc (chunks m) + ?c \<le> mlc k"
      using dj unfolding disjoint_chunks_def by (metis less_irrefl)
    then show ?thesis using k by linarith
  qed
  then show ?thesis
    using inv unfolding arena_inv_def by simp (meson less_Suc_eq lessI order_refl)
qed

text \<open>What one allocation does: a fresh block, or the first of the free list.\<close>

lemma arena_alloc_ok:
  assumes inv: "arena_inv mlc a m fs" and dj: "disjoint_chunks mlc (chunk_size (block_size a))"
  obtains b a' m' fs' where "arena_alloc mlc a m = Inr (b + sizeof_FreeBlock, a', m')"
    "arena_inv mlc a' m' fs'" "block_size a' = block_size a"
    "b \<in> dom (headers m')" "b \<notin> set fs'" "b \<in> dom (headers m) \<longrightarrow> b \<in> set fs"
    "dom (headers m') - set fs' = insert b (dom (headers m) - set fs)"
proof (cases "head a")
  case None
  then have fs: "fs = []" using inv by (cases fs) (auto simp: arena_inv_def)
  let ?n = "block_span (block_size a)"
  define a1 m1 where "a1 = (if size_in_buffer a < ?n
      then a\<lparr>buffer := mlc (chunks m), size_in_buffer := chunk_size (block_size a)\<rparr> else a)"
    and "m1 = (if size_in_buffer a < ?n then m\<lparr>chunks := Suc (chunks m)\<rparr> else m)"
  have pos: "0 < block_size a" and fit: "chunk_size (block_size a) < 2 ^ 31" using inv by (simp_all add: arena_inv_def)
  have fit': "?n < 2 ^ 31" using fit block_span_bounds(2) [OF pos] by simp
  have inv1: "arena_inv mlc a1 m1 fs" "block_size a1 = block_size a" "headers m1 = headers m"
    "?n \<le> size_in_buffer a1"
    using inv arena_inv_chunk [OF inv dj] block_span_bounds(2) [OF pos] by (auto simp: a1_def m1_def)
  note c = arena_inv_carve [OF inv1(1), unfolded inv1(2), OF inv1(4)]
  have "arena_alloc mlc a m = Inr (buffer a1 + sizeof_FreeBlock,
      a1\<lparr>size_in_buffer := size_in_buffer a1 - ?n, buffer := buffer a1 + ?n\<rparr>,
      m1\<lparr>headers := (headers m1)(buffer a1 \<mapsto> \<lparr>fb_size = block_size a1, fb_next = None\<rparr>)\<rparr>)"
    using None fit fit' by (simp add: arena_alloc_def refill_def carve_def R_int_def Let_def a1_def m1_def)
  then show ?thesis
    by (rule that) (use c inv1 fs in auto)
next
  case (Some b)
  then obtain bs where fs: "fs = b # bs" using inv by (cases fs) (auto simp: arena_inv_def)
  then obtain fb nx where b: "headers m b = Some fb" "fb_next fb = Some nx" "free_list (headers m) nx bs" "b \<notin> set bs"
    using inv by (auto simp: arena_inv_def)
  have "arena_alloc mlc a m = Inr (b + sizeof_FreeBlock, a\<lparr>head := nx\<rparr>, m)"
    using Some b by (simp add: arena_alloc_def deref_block_def)
  moreover have "arena_inv mlc (a\<lparr>head := nx\<rparr>) m bs"
    using inv b fs by (auto simp: arena_inv_def)
  ultimately show ?thesis
    by (rule that) (use b fs in auto)
qed

lemma arena_free_ok:
  assumes inv: "arena_inv mlc a m fs" and b: "b \<in> dom (headers m) - set fs"
  obtains a' m' where "arena_free (b + sizeof_FreeBlock) a m = Inr (a', m')"
    "arena_inv mlc a' m' (b # fs)" "block_size a' = block_size a" "dom (headers m') = dom (headers m)"
proof -
  obtain fb where fb: "headers m b = Some fb" using b by auto
  let ?m = "m\<lparr>headers := (headers m)(b \<mapsto> fb\<lparr>fb_next := Some (head a)\<rparr>)\<rparr>"
  have d: "dom (headers ?m) = dom (headers m)" using fb by auto
  have "\<forall>c \<in> dom (headers m). fb_size (the (headers m c)) = block_size a"
    using inv unfolding arena_inv_def by blast
  then have "fb_size fb = block_size a" using fb by (metis domI option.sel)
  then have "arena_inv mlc (a\<lparr>head := Some b\<rparr>) ?m (b # fs)"
    unfolding arena_inv_def d using inv b fb by (auto simp: arena_inv_def)
  moreover have "arena_free (b + sizeof_FreeBlock) a m = Inr (a\<lparr>head := Some b\<rparr>, ?m)"
    using fb by (simp add: arena_free_def deref_block_def)
  ultimately show ?thesis using that d by simp
qed

text \<open>The states of an arena that a program reaches which frees only what it holds: \<open>live\<close>.\<close>

inductive arena_reach :: "(nat \<Rightarrow> nat) \<Rightarrow> nat \<Rightarrow> arena \<Rightarrow> blocks \<Rightarrow> nat set \<Rightarrow> bool"
  for mlc :: "nat \<Rightarrow> nat" and sz :: nat where
  fresh: "arena_reach mlc sz (arena_init i sz) \<lparr>headers = Map.empty, chunks = 0\<rparr> {}"
| alloc: "arena_reach mlc sz a m live \<Longrightarrow> arena_alloc mlc a m = Inr (p, a', m') \<Longrightarrow>
     arena_reach mlc sz a' m' (insert p live)"
| free: "arena_reach mlc sz a m live \<Longrightarrow> p \<in> live \<Longrightarrow> arena_free p a m = Inr (a', m') \<Longrightarrow>
     arena_reach mlc sz a' m' (live - {p})"

definition live_blocks :: "blocks \<Rightarrow> nat list \<Rightarrow> nat set" where
  "live_blocks m fs = (\<lambda>b. b + sizeof_FreeBlock) ` (dom (headers m) - set fs)"

lemma arena_reach_inv:
  assumes "arena_reach mlc sz a m live" and "0 < sz" and "chunk_size sz < 2 ^ 31" and "disjoint_chunks mlc (chunk_size sz)"
  shows "\<exists>fs. arena_inv mlc a m fs \<and> block_size a = sz \<and> live = live_blocks m fs"
  using assms(1)
proof (induction rule: arena_reach.induct)
  case (fresh i)
  then show ?case
    using arena_inv_init [OF assms(2,3)] by (intro exI [of _ "[]"]) (simp add: arena_init_def live_blocks_def)
next
  case (alloc a m live p a' m')
  then obtain fs where fs: "arena_inv mlc a m fs" "block_size a = sz" "live = live_blocks m fs" by blast
  obtain b a1 m1 fs1 where al: "arena_alloc mlc a m = Inr (b + sizeof_FreeBlock, a1, m1)"
    "arena_inv mlc a1 m1 fs1" "block_size a1 = block_size a"
    "dom (headers m1) - set fs1 = insert b (dom (headers m) - set fs)"
    using arena_alloc_ok [OF fs(1)] assms(4) fs(2) by metis
  then have "a1 = a'" "m1 = m'" "p = b + sizeof_FreeBlock" using alloc(2) by simp_all
  then show ?case
    using al fs by (intro exI [of _ fs1]) (simp add: live_blocks_def)
next
  case (free a m live p a' m')
  then obtain fs where fs: "arena_inv mlc a m fs" "block_size a = sz" "live = live_blocks m fs" by blast
  then obtain b where b: "p = b + sizeof_FreeBlock" "b \<in> dom (headers m) - set fs"
    using free(2) by (auto simp: live_blocks_def)
  obtain a1 m1 where fr: "arena_free (b + sizeof_FreeBlock) a m = Inr (a1, m1)"
    "arena_inv mlc a1 m1 (b # fs)" "block_size a1 = block_size a" "dom (headers m1) = dom (headers m)"
    using arena_free_ok [OF fs(1) b(2)] .
  then have "a1 = a'" "m1 = m'" using free(3) b(1) by simp_all
  moreover have "live_blocks m fs - {p} = live_blocks m1 (b # fs)"
    using fr(4) b by (auto simp: live_blocks_def)
  ultimately show ?case
    using fr fs by (intro exI [of _ "b # fs"]) simp
qed

text \<open>A block, its header included, that lies inside one of the first \<open>n\<close> chunks.\<close>

definition in_chunk :: "(nat \<Rightarrow> nat) \<Rightarrow> nat \<Rightarrow> nat \<Rightarrow> nat \<Rightarrow> bool" where
  "in_chunk mlc sz n p \<longleftrightarrow> (\<exists>k < n. mlc k + sizeof_FreeBlock \<le> p \<and> p + sz \<le> mlc k + chunk_size sz)"

lemma live_in_chunk:
  assumes "arena_inv mlc a m fs" and "block_size a = sz" and "p \<in> live_blocks m fs"
  shows "in_chunk mlc sz (chunks m) p"
proof -
  obtain b where b: "b \<in> dom (headers m)" "p = b + sizeof_FreeBlock" using assms(3) by (auto simp: live_blocks_def)
  then obtain k where "k < chunks m" "mlc k \<le> b" "b + block_span sz \<le> mlc k + chunk_size sz"
    using assms(1,2) unfolding arena_inv_def by blast
  moreover have "sz + sizeof_FreeBlock \<le> block_span sz"
    using assms(1,2) block_span_bounds(1) by (auto simp: arena_inv_def)
  ultimately show ?thesis unfolding in_chunk_def b(2) by (intro exI [of _ k]) simp
qed

text \<open>
  C34. The arena never hands out overlapping memory. Its block size is such that the size of a chunk
  fits an \<open>int\<close> (at most 52428; the sizes of the program are at most 1024). In every state a program
  can bring an arena to by allocating and by freeing what it holds, the blocks it holds, each with the
  16 bytes of its header, lie inside the chunks that \<open>malloc\<close> has yielded and are disjoint; the next
  allocation returns, without a fault, a block inside a chunk and disjoint from all of them, and
  every block held can be freed.
\<close>

theorem arena_blocks_disjoint:
  assumes "arena_reach mlc sz a m live" and "0 < sz" and "chunk_size sz < 2 ^ 31" and "disjoint_chunks mlc (chunk_size sz)"
  shows "(\<forall>p \<in> live. in_chunk mlc sz (chunks m) p) \<and>
    (\<forall>p \<in> live. \<forall>q \<in> live. p \<noteq> q \<longrightarrow> apart (sz + sizeof_FreeBlock) p q) \<and>
    (\<exists>p a' m'. arena_alloc mlc a m = Inr (p, a', m') \<and> p \<notin> live \<and> in_chunk mlc sz (chunks m') p \<and>
       (\<forall>q \<in> live. apart (sz + sizeof_FreeBlock) p q)) \<and>
    (\<forall>p \<in> live. \<exists>a' m'. arena_free p a m = Inr (a', m'))"
proof -
  obtain fs where fs: "arena_inv mlc a m fs" "block_size a = sz" "live = live_blocks m fs"
    using arena_reach_inv [OF assms] by blast
  have near: "apart (sz + sizeof_FreeBlock) (b + sizeof_FreeBlock) (c + sizeof_FreeBlock)"
    if "apart (block_span sz) b c" for b c
    using that block_span_bounds(1) [OF assms(2)] by (auto simp: apart_def)
  have held: "\<forall>p \<in> live_blocks m fs. \<forall>q \<in> live_blocks m fs. p \<noteq> q \<longrightarrow> apart (sz + sizeof_FreeBlock) p q"
    if "arena_inv mlc a m fs" "block_size a = sz" for a m fs
    using that near unfolding arena_inv_def live_blocks_def by fastforce
  obtain b a1 m1 fs1 where al: "arena_alloc mlc a m = Inr (b + sizeof_FreeBlock, a1, m1)"
    "arena_inv mlc a1 m1 fs1" "block_size a1 = block_size a" "b \<in> dom (headers m) \<longrightarrow> b \<in> set fs"
    "dom (headers m1) - set fs1 = insert b (dom (headers m) - set fs)"
    using arena_alloc_ok [OF fs(1)] assms(4) fs(2) by metis
  let ?p = "b + sizeof_FreeBlock"
  have new: "?p \<notin> live" using al(4) fs(3) by (auto simp: live_blocks_def)
  have live1: "live_blocks m1 fs1 = insert ?p live" using al(5) fs(3) by (simp add: live_blocks_def)
  have "\<forall>q \<in> live. apart (sz + sizeof_FreeBlock) ?p q"
    using held [OF al(2)] al(3) fs(2) new unfolding live1 by auto
  moreover have "in_chunk mlc sz (chunks m1) ?p"
    using live_in_chunk [OF al(2)] al(3) fs(2) live1 by simp
  ultimately have "\<exists>p a' m'. arena_alloc mlc a m = Inr (p, a', m') \<and> p \<notin> live \<and> in_chunk mlc sz (chunks m') p \<and>
       (\<forall>q \<in> live. apart (sz + sizeof_FreeBlock) p q)"
    using al(1) new by blast
  moreover have "\<exists>a' m'. arena_free p a m = Inr (a', m')" if "p \<in> live" for p
  proof -
    from that fs(3) obtain c where c: "c \<in> dom (headers m) - set fs" "p = c + sizeof_FreeBlock"
      unfolding live_blocks_def by blast
    show ?thesis by (rule arena_free_ok [OF fs(1) c(1)]) (use c(2) in blast)
  qed
  ultimately show ?thesis using held [OF fs(1,2)] live_in_chunk [OF fs(1,2)] fs(3) by blast
qed

text \<open>Chunks one after the other from address 4096.\<close>

lemma disjoint_chunks_line: "disjoint_chunks (\<lambda>k. 4096 + k * n) n"
proof -
  have "4096 + i * n + n \<le> 4096 + j * n" if "i < j" for i j
    using mult_le_mono1 [of "Suc i" j n] that by simp
  then show ?thesis unfolding disjoint_chunks_def by (metis linorder_neqE_nat)
qed

theorem arena_blocks_disjoint_witness:
  "\<exists>a m. arena_reach (\<lambda>k. 4096 + k * chunk_size 32) 32 a m {4112, 4160} \<and> apart (32 + sizeof_FreeBlock) 4112 4160 \<and>
    in_chunk (\<lambda>k. 4096 + k * chunk_size 32) 32 (chunks m) 4160"
proof -
  let ?mlc = "\<lambda>k. 4096 + k * chunk_size 32"
  have r0: "arena_reach ?mlc 32 (arena_init 0 32) \<lparr>headers = Map.empty, chunks = 0\<rparr> {}"
    by (rule arena_reach.fresh)
  have span: "block_span 32 = 48" "chunk_size 32 = 1310720" by (simp_all add: block_span_def chunk_size_def sizeof_FreeBlock_def MEM_ALLIGN_def)
  obtain a1 m1 where s1: "arena_alloc ?mlc (arena_init 0 32) \<lparr>headers = Map.empty, chunks = 0\<rparr> = Inr (4112, a1, m1)"
    "a1 = \<lparr>buffer = 4144, size_in_buffer = 1310672, arena_id = 0, block_size = 32, head = None\<rparr>"
    by (simp add: arena_alloc_def refill_def carve_def R_int_def arena_init_def Let_def span sizeof_FreeBlock_def)
  obtain a2 m2 where s2: "arena_alloc ?mlc a1 m1 = Inr (4160, a2, m2)"
    by (simp add: s1(2) arena_alloc_def carve_def R_int_def Let_def span sizeof_FreeBlock_def)
  have r: "arena_reach ?mlc 32 a2 m2 {4112, 4160}"
    using arena_reach.alloc [OF arena_reach.alloc [OF r0 s1(1)] s2] by (simp add: insert_commute)
  have "chunk_size 32 < 2 ^ 31" by (simp add: span)
  from arena_blocks_disjoint [OF r _ this disjoint_chunks_line] have "apart (32 + sizeof_FreeBlock) 4112 4160"
    "in_chunk ?mlc 32 (chunks m2) 4160" by simp_all
  then show ?thesis using r by blast
qed

section \<open>Every thread finds its arena\<close>

text \<open>Where a walk from entry \<open>h\<close> ends.\<close>

lemma probe_finds:
  assumes "stop (fst (tab ! ((h + d) mod length tab)))"
    and "\<forall>j < d. \<not> stop (fst (tab ! ((h + j) mod length tab)))" and "h < length tab"
  shows "probe stop tab h = Some ((h + d) mod length tab)"
  using assms
proof (induction d arbitrary: h)
  case 0
  then show ?case by (simp add: probe.simps)
next
  case (Suc d)
  let ?n = "length tab" and ?h = "(h + 1) mod length tab"
  have eq: "(?h + j) mod ?n = (h + Suc j) mod ?n" for j by (simp add: mod_simps)
  have "\<not> stop (fst (tab ! h))" using Suc.prems(2,3) by (metis add_0_right mod_less zero_less_Suc)
  then have "probe stop tab h = probe stop tab ?h" by (simp add: probe.simps [of stop tab h])
  also have "\<dots> = Some ((?h + d) mod ?n)"
  proof (rule Suc.IH)
    show "stop (fst (tab ! ((?h + d) mod ?n)))" using Suc.prems(1) eq by simp
    show "\<forall>j < d. \<not> stop (fst (tab ! ((?h + j) mod ?n)))" using Suc.prems(2) eq by auto
    show "?h < ?n" by (rule mod_less_divisor [OF le_less_trans [OF le0 Suc.prems(3)]])
  qed
  finally show ?case using eq by simp
qed

text \<open>A walk ends as soon as some entry satisfies the condition.\<close>

lemma probe_ends:
  assumes "e < length tab" and "stop (fst (tab ! e))" and "h < length tab"
  obtains d where "probe stop tab h = Some ((h + d) mod length tab)" "stop (fst (tab ! ((h + d) mod length tab)))"
    "\<forall>j < d. \<not> stop (fst (tab ! ((h + j) mod length tab)))"
proof -
  let ?P = "\<lambda>d. stop (fst (tab ! ((h + d) mod length tab)))"
  have "(h + (e + length tab - h)) mod length tab = e" using assms(1,3) by simp
  then have "?P (e + length tab - h)" using assms(2) by simp
  then have "?P (LEAST d. ?P d)" by (rule LeastI)
  moreover have "\<forall>j < (LEAST d. ?P d). \<not> ?P j" using not_less_Least by blast
  ultimately show ?thesis using that probe_finds [OF _ _ assms(3)] by blast
qed

text \<open>
  The invariant of the table: a registered thread sits in the walk from its own entry, with neither
  a free entry nor itself before it, and no other thread sits anywhere.
\<close>

definition table_inv :: "(nat \<times> nat) list \<Rightarrow> (nat \<Rightarrow> nat option) \<Rightarrow> bool" where
  "table_inv tab M \<longleftrightarrow>
     (\<forall>pid i. M pid = Some i \<longrightarrow> pid \<noteq> 0 \<and>
        (\<exists>d. tab ! ((pid mod length tab + d) mod length tab) = (pid, i) \<and>
           (\<forall>j < d. fst (tab ! ((pid mod length tab + j) mod length tab)) \<notin> {0, pid}))) \<and>
     (\<forall>e < length tab. if fst (tab ! e) = 0 then snd (tab ! e) = 0 else fst (tab ! e) \<in> dom M)"

definition filled :: "(nat \<times> nat) list \<Rightarrow> nat set" where
  "filled tab = {e. e < length tab \<and> fst (tab ! e) \<noteq> 0}"

lemma filled_range: "filled tab \<subseteq> {..< length tab}"
  by (rule subsetI) (simp add: filled_def)

lemma free_entry:
  assumes "card (filled tab) < length tab"
  obtains e where "e < length tab" "fst (tab ! e) = 0"
proof -
  have "filled tab \<noteq> {..< length tab}"
  proof
    assume "filled tab = {..< length tab}"
    then show False using assms by simp
  qed
  then obtain e where "e < length tab" "e \<notin> filled tab" by (auto simp: filled_def)
  then show ?thesis by (intro that [of e]) (simp_all add: filled_def)
qed

lemma probe_stops:
  assumes "probe stop tab h = Some e"
  shows "stop (fst (tab ! e))"
proof (rule probe.raw_induct [where P = "\<lambda>stop tab h e. stop (fst (tab ! e))", OF _ assms])
  fix f :: "(nat \<Rightarrow> bool) \<Rightarrow> (nat \<times> nat) list \<Rightarrow> nat \<Rightarrow> nat option" and stop tab h e
  assume "\<And>stop tab h e. f stop tab h = Some e \<Longrightarrow> stop (fst (tab ! e))"
    and "(if stop (fst (tab ! h)) then Some h else f stop tab ((h + 1) mod length tab)) = Some e"
  then show "stop (fst (tab ! e))" by (auto split: if_splits)
qed

lemma probe_in_range:
  assumes "probe stop tab h = Some e" and "h < length tab"
  shows "e < length tab"
proof -
  have "h < length tab \<longrightarrow> e < length tab"
  proof (rule probe.raw_induct [where P = "\<lambda>stop tab h e. h < length tab \<longrightarrow> e < length tab", OF _ assms(1)])
    fix f :: "(nat \<Rightarrow> bool) \<Rightarrow> (nat \<times> nat) list \<Rightarrow> nat \<Rightarrow> nat option" and stop tab h e
    assume "\<And>stop tab h e. f stop tab h = Some e \<Longrightarrow> h < length tab \<longrightarrow> e < length tab"
      and "(if stop (fst (tab ! h)) then Some h else f stop tab ((h + 1) mod length tab)) = Some e"
    then show "h < length tab \<longrightarrow> e < length tab"
      by (metis gr_zeroI mod_less_divisor not_less_zero option.inject)
  qed
  then show ?thesis using assms(2) by simp
qed

lemma table_inv_enter:
  assumes inv: "table_inv tab M" and new: "M pid = None" "pid \<noteq> 0" and room: "card (filled tab) < length tab"
  obtains e where "probe (\<lambda>x. x = 0) tab (pid mod length tab) = Some e" "e < length tab"
    "table_inv (tab[e := (pid, thd)]) (M(pid \<mapsto> thd))"
    "card (filled (tab[e := (pid, thd)])) = Suc (card (filled tab))"
proof -
  let ?n = "length tab" and ?h = "pid mod length tab"
  obtain z where z: "z < ?n" "fst (tab ! z) = 0" using free_entry [OF room] .
  have n: "0 < ?n" by (rule le_less_trans [OF le0 room])
  then have h: "?h < ?n" by (rule mod_less_divisor)
  obtain d where d: "probe (\<lambda>x. x = 0) tab ?h = Some ((?h + d) mod ?n)" "fst (tab ! ((?h + d) mod ?n)) = 0"
    "\<forall>j < d. fst (tab ! ((?h + j) mod ?n)) \<noteq> 0"
    using probe_ends [of z tab "\<lambda>x. x = 0" ?h] z h by metis
  define e where "e = (?h + d) mod ?n"
  define tab' where "tab' = tab[e := (pid, thd)]"
  have e: "e < ?n" "fst (tab ! e) = 0" "length tab' = ?n" "tab' ! e = (pid, thd)"
    using n d(2) by (auto simp: e_def tab'_def)
  have keep: "tab' ! i = tab ! i" if "fst (tab ! i) \<noteq> 0" for i
    using that e(2) by (cases "i = e") (auto simp: tab'_def)
  have old: "\<exists>d. tab' ! ((q mod ?n + d) mod ?n) = (q, i) \<and> (\<forall>j < d. fst (tab' ! ((q mod ?n + j) mod ?n)) \<notin> {0, q})"
    if "M q = Some i" for q i
  proof -
    obtain d' where d': "tab ! ((q mod ?n + d') mod ?n) = (q, i)" "q \<noteq> 0"
      "\<forall>j < d'. fst (tab ! ((q mod ?n + j) mod ?n)) \<notin> {0, q}"
      using inv \<open>M q = Some i\<close> unfolding table_inv_def by blast
    then show ?thesis using keep by (intro exI [of _ d']) simp
  qed
  have absent: "fst (tab ! i) \<noteq> pid" if "i < ?n" for i
    using inv that new unfolding table_inv_def by (metis domIff)
  have "\<forall>j < d. fst (tab' ! ((?h + j) mod ?n)) \<notin> {0, pid}"
    using keep d(3) absent n by simp
  then have mine: "\<exists>d. tab' ! ((?h + d) mod ?n) = (pid, thd) \<and>
      (\<forall>j < d. fst (tab' ! ((?h + j) mod ?n)) \<notin> {0, pid})"
    using e(4) by (intro exI [of _ d]) (simp add: e_def)
  have rest: "if fst (tab' ! i) = 0 then snd (tab' ! i) = 0 else fst (tab' ! i) \<in> dom (M(pid \<mapsto> thd))"
    if "i < ?n" for i
  proof (cases "i = e")
    case True
    then show ?thesis using e(4) new(2) by simp
  next
    case False
    then have "tab' ! i = tab ! i" by (simp add: tab'_def)
    then show ?thesis using inv that by (auto simp: table_inv_def split: if_splits)
  qed
  have "table_inv tab' (M(pid \<mapsto> thd))"
    unfolding table_inv_def e(3)
  proof (intro conjI allI impI)
    fix q i assume q: "(M(pid \<mapsto> thd)) q = Some i"
    show "q \<noteq> 0" using q new(2) inv by (cases "q = pid") (simp_all add: table_inv_def)
    show "\<exists>d. tab' ! ((q mod ?n + d) mod ?n) = (q, i) \<and>
        (\<forall>j < d. fst (tab' ! ((q mod ?n + j) mod ?n)) \<notin> {0, q})"
      using q mine old by (cases "q = pid") simp_all
  qed (rule rest)
  moreover have "filled tab' = insert e (filled tab)"
    using e new(2) by (auto simp: filled_def tab'_def nth_list_update)
  then have "card (filled tab') = Suc (card (filled tab))"
    using e(2) by (simp add: filled_def)
  ultimately show ?thesis
    using that d(1) e(1) by (simp add: e_def tab'_def)
qed

lemma get_arena_known:
  assumes "table_inv (pid_arena p) M" and "M pid = Some i" and "bucket_count p = length (pid_arena p)"
    and "0 < bucket_count p"
  shows "get_arena_id pid p = Some i"
proof -
  let ?tab = "pid_arena p" let ?n = "length ?tab"
  obtain d where d: "?tab ! ((pid mod ?n + d) mod ?n) = (pid, i)"
    "\<forall>j < d. fst (?tab ! ((pid mod ?n + j) mod ?n)) \<notin> {0, pid}"
    using assms(1,2) unfolding table_inv_def by blast
  then have "probe (\<lambda>x. x = pid \<or> x = 0) ?tab (pid mod ?n) = Some ((pid mod ?n + d) mod ?n)"
    using assms(3,4) by (intro probe_finds) auto
  then show ?thesis using d(1) assms(3) by (simp add: get_arena_id_def)
qed

lemma get_arena_unknown:
  assumes inv: "table_inv (pid_arena p) M" and "M pid = None" "pid \<noteq> 0"
    and n: "bucket_count p = length (pid_arena p)" "0 < bucket_count p"
  shows "get_arena_id pid p = (if card (filled (pid_arena p)) < bucket_count p then Some 0 else None)"
proof -
  let ?tab = "pid_arena p" let ?n = "length ?tab" and ?stop = "\<lambda>x. x = pid \<or> x = 0"
  have h: "pid mod ?n < ?n" using n by simp
  have stop: "fst (?tab ! e) = 0" "snd (?tab ! e) = 0"
    if "probe ?stop ?tab (pid mod ?n) = Some e" for e
  proof -
    note e = probe_stops [OF that] probe_in_range [OF that h]
    have "if fst (?tab ! e) = 0 then snd (?tab ! e) = 0 else fst (?tab ! e) \<in> dom M"
      using inv e(2) unfolding table_inv_def by blast
    then show "fst (?tab ! e) = 0" "snd (?tab ! e) = 0"
      using e(1) assms(2) by (auto split: if_splits)
  qed
  show ?thesis
  proof (cases "card (filled ?tab) < ?n")
    case True
    obtain z where "z < ?n" "fst (?tab ! z) = 0" using free_entry [OF True] .
    then obtain e where "probe ?stop ?tab (pid mod ?n) = Some e"
      using probe_ends [of z ?tab ?stop "pid mod ?n"] h by metis
    then show ?thesis using stop True n by (simp add: get_arena_id_def)
  next
    case False
    have "probe ?stop ?tab (pid mod ?n) = None"
    proof (rule ccontr)
      assume "probe ?stop ?tab (pid mod ?n) \<noteq> None"
      then obtain e where e: "probe ?stop ?tab (pid mod ?n) = Some e" by blast
      have "e \<notin> filled ?tab" using stop(1) [OF e] by (simp add: filled_def)
      moreover have "e < ?n" by (rule probe_in_range [OF e h])
      moreover have "filled ?tab \<subseteq> {..< ?n}" by (rule filled_range)
      ultimately have "filled ?tab \<subset> {..< ?n}" by blast
      then have "card (filled ?tab) < card {..< ?n}" by (rule psubset_card_mono [OF finite_lessThan])
      then show False using False by simp
    qed
    then show ?thesis using False n by (simp add: get_arena_id_def)
  qed
qed

fun enter_all :: "(nat \<times> nat) list \<Rightarrow> pools \<Rightarrow> pools option" where
  "enter_all [] p = Some p"
| "enter_all ((pid, thd) # regs) p = Option.bind (enter_thread pid thd p) (enter_all regs)"

lemma enter_all_ok:
  assumes "table_inv (pid_arena p) M" and "distinct (map fst regs)" and "0 \<notin> fst ` set regs"
    and "\<forall>pid \<in> fst ` set regs. M pid = None" and "bucket_count p = length (pid_arena p)"
    and "card (filled (pid_arena p)) + length regs \<le> bucket_count p"
  shows "\<exists>p'. enter_all regs p = Some p' \<and> table_inv (pid_arena p') (M ++ map_of (rev regs)) \<and>
    bucket_count p' = bucket_count p \<and> length (pid_arena p') = bucket_count p \<and>
    card (filled (pid_arena p')) = card (filled (pid_arena p)) + length regs"
  using assms
proof (induction regs arbitrary: p M)
  case Nil
  then show ?case by simp
next
  case (Cons r regs)
  obtain pid thd where r: "r = (pid, thd)" by (cases r)
  have new: "M pid = None" "pid \<noteq> 0" "card (filled (pid_arena p)) < length (pid_arena p)"
    using Cons.prems r by auto
  obtain e where e: "probe (\<lambda>x. x = 0) (pid_arena p) (pid mod length (pid_arena p)) = Some e"
    "table_inv ((pid_arena p)[e := (pid, thd)]) (M(pid \<mapsto> thd))"
    "card (filled ((pid_arena p)[e := (pid, thd)])) = Suc (card (filled (pid_arena p)))"
    using table_inv_enter [OF Cons.prems(1) new] by metis
  let ?p = "p\<lparr>pid_arena := (pid_arena p)[e := (pid, thd)]\<rparr>"
  have enter: "enter_thread pid thd p = Some ?p"
    using e(1) Cons.prems(5) by (simp add: enter_thread_def)
  have "M ++ map_of (rev (r # regs)) = (M(pid \<mapsto> thd)) ++ map_of (rev regs)"
    by (simp add: r map_add_assoc)
  moreover have "\<exists>p'. enter_all regs ?p = Some p' \<and> table_inv (pid_arena p') ((M(pid \<mapsto> thd)) ++ map_of (rev regs)) \<and>
    bucket_count p' = bucket_count ?p \<and> length (pid_arena p') = bucket_count ?p \<and>
    card (filled (pid_arena p')) = card (filled (pid_arena ?p)) + length regs"
  proof (rule Cons.IH [where M = "M(pid \<mapsto> thd)" and p = ?p])
    show "\<forall>pida \<in> fst ` set regs. (M(pid \<mapsto> thd)) pida = None" using Cons.prems(2,4) r by auto
    show "table_inv (pid_arena ?p) (M(pid \<mapsto> thd))" using e(2) by (simp del: fun_upd_apply)
  qed (use Cons.prems e(3) r in simp_all)
  ultimately show ?case using enter e(3) Cons.prems(5) by (simp add: r)
qed

lemma pools_init_simps:
  "bucket_count (pools_init p) = 161" "pid_arena (pools_init p) = replicate 161 (0, 0)"
  by (simp_all add: pools_init_def Let_def THREAD_ALLOC_def g_thread_cnt_def THREAD_CNT_def
      g_init_parallelism_def INIT_PARALLELISM_def)

text \<open>
  C35. The open-addressing table gives every thread its arena: after at most 161 different threads have
  registered, whatever entries they collide at, each of them finds the arena it registered, and a
  thread that did not register gets arena 0, or searches for ever once the table is full.
\<close>

theorem every_thread_finds_its_arena:
  assumes "distinct (map fst regs)" and "0 \<notin> fst ` set regs" and "length regs \<le> 161"
  shows "\<exists>p'. enter_all regs (pools_init p) = Some p' \<and>
    (\<forall>(pid, thd) \<in> set regs. get_arena_id pid p' = Some thd) \<and>
    (\<forall>pid. pid \<noteq> 0 \<longrightarrow> pid \<notin> fst ` set regs \<longrightarrow>
       get_arena_id pid p' = (if length regs < 161 then Some 0 else None))"
proof -
  have f: "filled (replicate 161 (0, 0)) = {}" by (auto simp: filled_def)
  have "table_inv (pid_arena (pools_init p)) Map.empty"
    by (simp add: pools_init_simps table_inv_def)
  from enter_all_ok [OF this assms(1,2)] obtain p' where p':
    "enter_all regs (pools_init p) = Some p'" "table_inv (pid_arena p') (map_of (rev regs))"
    "bucket_count p' = 161" "length (pid_arena p') = 161" "card (filled (pid_arena p')) = length regs"
    using assms(3) by (auto simp: pools_init_simps f)
  have "distinct (map fst (rev regs))" using assms(1) by (simp add: rev_map [symmetric])
  then have "map_of (rev regs) pid = Some thd" if "(pid, thd) \<in> set regs" for pid thd
    using that by simp
  then have "\<forall>(pid, thd) \<in> set regs. get_arena_id pid p' = Some thd"
    using get_arena_known [OF p'(2)] p'(3,4) by auto
  moreover have "map_of (rev regs) pid = None" if "pid \<notin> fst ` set regs" for pid
    using that by (simp add: map_of_eq_None_iff)
  then have "\<forall>pid. pid \<noteq> 0 \<longrightarrow> pid \<notin> fst ` set regs \<longrightarrow>
      get_arena_id pid p' = (if length regs < 161 then Some 0 else None)"
    using get_arena_unknown [OF p'(2)] p'(3-5) by simp
  ultimately show ?thesis using p'(1) by blast
qed

theorem every_thread_finds_its_arena_witness:
  "\<exists>p'. enter_all [(162, 1), (1, 2)] (pools_init \<lparr>arenas = [], bucket_count = 0, pid_arena = []\<rparr>) = Some p' \<and>
    get_arena_id 162 p' = Some 1 \<and> get_arena_id 1 p' = Some 2 \<and> get_arena_id 323 p' = Some 0"
  using every_thread_finds_its_arena
    [of "[(162, 1), (1, 2)]" "\<lparr>arenas = [], bucket_count = 0, pid_arena = []\<rparr>"] by auto

end
