(* ===== verification/Manager.thy ===== *)
theory Manager
  imports Store
begin

text \<open>
  The global manager (\<open>Storage/System/manager.h\<close>, \<open>manager.cpp\<close>) and the worker threads
  (\<open>Storage/System/thread.h\<close>, \<open>thread.cpp\<close>): the clock that hands out time stamps, the table of
  running transactions, and the state of a \<open>thread_t\<close>. The body of \<open>thread_t::run\<close> is commented out
  in the source; the engine uses a \<open>thread_t\<close> for its number only.
\<close>

section \<open>The manager\<close>

text \<open>\<open>'t\<close> stands for transactions, which the manager only points to.\<close>

record 't Manager_t =
  clock :: u64
  all_ts :: "u64 list"
  all_txns :: "'t option list"
  mutexes :: "bool list"

definition Manager_init :: "'t Manager_t" where
  "Manager_init =
     \<lparr>clock = 1, all_ts = replicate g_thread_cnt (- 1), all_txns = replicate g_thread_cnt None,
      mutexes = replicate BUCKET_CNT False\<rparr>"

text \<open>The fetch-and-add of \<open>Manager::get_ts\<close>; the thread number is not used.\<close>

definition Manager_get_ts :: "'t Manager_t \<Rightarrow> u64 \<times> 't Manager_t" where
  "Manager_get_ts m = (clock m, m\<lparr>clock := clock m + 1\<rparr>)"

definition set_txn_man :: "'t Manager_t \<Rightarrow> nat \<Rightarrow> 't \<Rightarrow> 't Manager_t res" where
  "set_txn_man m thd txn =
     (if thd < length (all_txns m) then Inr (m\<lparr>all_txns := (all_txns m)[thd := Some txn]\<rparr>)
      else Inl Out_Of_Bounds)"

definition get_txn_man :: "'t Manager_t \<Rightarrow> nat \<Rightarrow> 't option res" where
  "get_txn_man m thd = R_nth (all_txns m) thd"

text \<open>\<open>Manager::hash\<close> of the address of a row, in 64-bit arithmetic.\<close>

definition Manager_hash :: "u64 \<Rightarrow> u64" where
  "Manager_hash row =
     (let addr = row div of_nat MEM_ALLIGN in (addr * 1103515247 + 12345) mod of_nat BUCKET_CNT)"

text \<open>The store keeps the clock of the manager; the rest of the manager is not read by the engine.\<close>

lemma store_clock:
  "timestamp (manager_init s) = clock Manager_init"
  "timestamp s = clock m \<Longrightarrow> fst (get_ts s) = fst (Manager_get_ts m) \<and>
     timestamp (snd (get_ts s)) = clock (snd (Manager_get_ts m))"
  by (simp_all add: manager_init_def Manager_init_def get_ts_def Manager_get_ts_def)

lemma Manager_hash_bucket: "Manager_hash row < of_nat BUCKET_CNT"
proof -
  have "(31 :: u64) > 0" by simp
  then have "x mod 31 < (31 :: u64)" for x by (rule word_mod_less_divisor)
  then show ?thesis by (simp add: Manager_hash_def Let_def BUCKET_CNT_def)
qed

section \<open>Threads\<close>

text \<open>
  An entry of the abort buffer: when the query may run again, and the query (\<open>None\<close>: a free slot).
\<close>

record 'q abort_entry =
  ready_time :: u64
  query :: "'q option"

record 'q thread_t =
  thread_id :: u64
  host_cid :: u64
  cur_cid :: u64
  curr_ts :: u64
  abort_buffer :: "'q abort_entry list"
  abort_buffer_size :: nat
  abort_buffer_empty_slots :: nat
  abort_buffer_enable :: bool

text \<open>
  The lookup \<open>g_params[k]\<close> of \<open>std::map\<close> inserts an empty string under a missing key, so creating a
  thread writes a global variable, without any lock.
\<close>

definition param_lookup :: "(string \<Rightarrow> string option) \<Rightarrow> string \<Rightarrow> string \<times> (string \<Rightarrow> string option)" where
  "param_lookup ps k = (case ps k of Some v \<Rightarrow> (v, ps) | None \<Rightarrow> ([], ps(k \<mapsto> [])))"

text \<open>
  \<open>thread_t::init\<close> on a zeroed object. The \<open>ready_time\<close> of the new entries is indeterminate, here
  the parameter \<open>junk\<close>; the random buffer is not modelled.
\<close>

definition thread_init ::
    "u64 list \<Rightarrow> u64 \<Rightarrow> (string \<Rightarrow> string option) \<Rightarrow> 'q thread_t \<times> (string \<Rightarrow> string option)" where
  "thread_init junk thd ps =
     (let (v, ps1) = param_lookup ps ''abort_buffer_enable''
      in (\<lparr>thread_id = thd, host_cid = 0, cur_cid = 0, curr_ts = 0,
           abort_buffer = map (\<lambda>i. \<lparr>ready_time = junk ! i, query = None\<rparr>) [0 ..< ABORT_BUFFER_SIZE],
           abort_buffer_size = ABORT_BUFFER_SIZE, abort_buffer_empty_slots = ABORT_BUFFER_SIZE,
           abort_buffer_enable = (v = ''true'')\<rparr>, ps1))"

definition get_thd_id :: "'q thread_t \<Rightarrow> u64" where "get_thd_id t = thread_id t"

definition get_host_cid :: "'q thread_t \<Rightarrow> u64" where "get_host_cid t = host_cid t"

definition set_host_cid :: "u64 \<Rightarrow> 'q thread_t \<Rightarrow> 'q thread_t" where "set_host_cid c t = t\<lparr>host_cid := c\<rparr>"

definition get_cur_cid :: "'q thread_t \<Rightarrow> u64" where "get_cur_cid t = cur_cid t"

definition set_cur_cid :: "u64 \<Rightarrow> 'q thread_t \<Rightarrow> 'q thread_t" where "set_cur_cid c t = t\<lparr>cur_cid := c\<rparr>"

text \<open>
  \<open>thread_t::get_next_ts\<close>, with the two parameters that decide whether time stamps are drawn in
  batches.
\<close>

definition next_ts :: "bool \<Rightarrow> nat \<Rightarrow> 'q thread_t \<Rightarrow> store \<Rightarrow> u64 \<times> 'q thread_t \<times> store" where
  "next_ts batch num t s =
     (if batch
      then if curr_ts t mod of_nat num = 0
           then let (ts, s1) = get_ts s in (ts, t\<lparr>curr_ts := ts + 1\<rparr>, s1)
           else (curr_ts t, t\<lparr>curr_ts := curr_ts t + 1\<rparr>, s)
      else let (ts, s1) = get_ts s in (ts, t\<lparr>curr_ts := ts\<rparr>, s1))"

definition get_next_ts :: "'q thread_t \<Rightarrow> store \<Rightarrow> u64 \<times> 'q thread_t \<times> store" where
  "get_next_ts = next_ts g_ts_batch_alloc g_ts_batch_num"

section \<open>Time stamps are unique\<close>

text \<open>
  Time stamps drawn by several threads in any order: \<open>who\<close> lists the thread of each draw.
\<close>

fun draw_all :: "bool \<Rightarrow> nat \<Rightarrow> nat list \<Rightarrow> (nat \<Rightarrow> 'q thread_t) \<Rightarrow> store \<Rightarrow> u64 list" where
  "draw_all batch num [] ts s = []"
| "draw_all batch num (w # who) ts s =
     (let (x, t, s1) = next_ts batch num (ts w) s in x # draw_all batch num who (ts(w := t)) s1)"

lemma draw_all_count:
  "draw_all False num who ts s = map (\<lambda>i. timestamp s + of_nat i) [0 ..< length who]"
proof (induction who arbitrary: ts s)
  case (Cons w who)
  have "draw_all False num (w # who) ts s = timestamp s #
      map (\<lambda>i. (timestamp s + 1) + of_nat i) [0 ..< length who]"
    by (simp add: next_ts_def get_ts_def Cons.IH)
  also have "\<dots> = map (\<lambda>i. timestamp s + of_nat i) [0 ..< length (w # who)]"
    by (simp add: upt_conv_Cons map_Suc_upt [symmetric] algebra_simps del: upt_Suc)
  finally show ?case .
qed simp

text \<open>
  C36. No two transactions get the same time stamp: whatever threads draw them and in whatever order,
  up to the wrap-around of the 64-bit clock the stamps handed out since the start are 1, 2, 3 and so
  on. Drawing in batches, which the configuration leaves off, would break this: a thread that
  continues its batch repeats the stamp another thread draws meanwhile.
\<close>

theorem time_stamps_unique:
  assumes "length who < 2 ^ 64 - 1"
  shows "draw_all g_ts_batch_alloc g_ts_batch_num who ts (manager_init s) =
      map (\<lambda>i. of_nat (Suc i)) [0 ..< length who] \<and>
    distinct (draw_all g_ts_batch_alloc g_ts_batch_num who ts (manager_init s)) \<and>
    (\<exists>u :: nat \<Rightarrow> 'q thread_t. \<not> distinct (draw_all True g_ts_batch_num [0, 0, 1] u (manager_init s)))"
proof -
  have eq: "draw_all g_ts_batch_alloc g_ts_batch_num who ts (manager_init s) =
      map (\<lambda>i. of_nat (Suc i)) [0 ..< length who]"
    by (simp add: g_ts_batch_alloc_def draw_all_count manager_init_def add.commute)
  have "inj_on (\<lambda>i. of_nat (Suc i) :: u64) {0 ..< length who}"
  proof (rule inj_onI)
    fix i j assume ij: "i \<in> {0 ..< length who}" "j \<in> {0 ..< length who}"
      and e: "(of_nat (Suc i) :: u64) = of_nat (Suc j)"
    have "unat (of_nat (Suc k) :: u64) = Suc k" if "k \<in> {0 ..< length who}" for k
    proof -
      have "Suc k < 2 ^ 64" using that assms by simp
      then show ?thesis unfolding unat_of_nat by (intro mod_less) simp
    qed
    then have "Suc i = Suc j" using ij e by metis
    then show "i = j" by simp
  qed
  then have d: "distinct (map (\<lambda>i. of_nat (Suc i) :: u64) [0 ..< length who])"
    by (simp add: distinct_map)
  define u :: "nat \<Rightarrow> 'q thread_t" where "u = (\<lambda>_. fst (thread_init [] 0 Map.empty))"
  have "draw_all True g_ts_batch_num [0, 0, 1] u (manager_init s) = [1, 2, 2]"
    by (simp add: u_def thread_init_def param_lookup_def next_ts_def get_ts_def manager_init_def g_ts_batch_num_def Let_def)
  then have "\<not> distinct (draw_all True g_ts_batch_num [0, 0, 1] u (manager_init s))" by simp
  then show ?thesis using eq d by metis
qed

theorem time_stamps_unique_witness:
  "\<forall>(ts :: nat \<Rightarrow> nat thread_t) s.
     draw_all g_ts_batch_alloc g_ts_batch_num [0, 1, 0] ts (manager_init s) = [1, 2, 3]"
proof (intro allI)
  fix ts :: "nat \<Rightarrow> nat thread_t" and s
  have "draw_all g_ts_batch_alloc g_ts_batch_num [0, 1, 0] ts (manager_init s) =
      map (\<lambda>i. of_nat (Suc i)) [0 ..< length [0, 1, 0 :: nat]]"
    by (rule time_stamps_unique [THEN conjunct1]) simp
  then show "draw_all g_ts_batch_alloc g_ts_batch_num [0, 1, 0] ts (manager_init s) = [1, 2, 3]"
    by (simp add: upt_rec)
qed

end
