(* ===== verification/Row_Values.thy ===== *)
theory Row_Values
  imports Store
begin

text \<open>
  Typed values in rows (the \<open>SET_VALUE\<close> and \<open>GET_VALUE\<close> macros of \<open>Storage/DataFormat/row.h\<close>,
  expanded in \<open>row.cpp\<close>), and the accessors of rows and tables that no other theory needs. A value of
  a type of \<open>n\<close> bytes lies in memory with its lowest byte first; signed integers are taken as two's
  complement words and a \<open>double\<close> as its bit pattern.
\<close>

section \<open>Machine values as bytes\<close>

fun le_bytes :: "nat \<Rightarrow> nat \<Rightarrow> byte list" where
  "le_bytes 0 x = []"
| "le_bytes (Suc n) x = Byte (char_of (x mod 256)) # le_bytes n (x div 256)"

fun le_value :: "byte list \<Rightarrow> nat res" where
  "le_value [] = Inr 0"
| "le_value (Uninit # bs) = Inl Uninit_Read"
| "le_value (Byte c # bs) = R_bind (le_value bs) (\<lambda>v. Inr (of_char c + 256 * v))"

lemma length_le_bytes [simp]: "length (le_bytes n x) = n"
  by (induction n arbitrary: x) simp_all

lemma le_value_bytes: "le_value (le_bytes n x) = Inr (x mod 256 ^ n)"
proof (induction n arbitrary: x)
  case (Suc n)
  have "x mod 256 + 256 * (x div 256 mod 256 ^ n) = x mod (256 * 256 ^ n)"
    by (simp add: mod_mult2_eq)
  then show ?case using Suc.IH [of "x div 256"] by simp
qed simp

section \<open>Typed access\<close>

text \<open>
  \<open>set_value(col_id, &value)\<close> copies as many bytes as the column has, whatever the type has: from a wider
  column on it reads past its parameter, where the stack has another \<open>k\<close> bytes (\<open>on_stack\<close>). Reading
  takes as many bytes as the type has, whatever the column has.
\<close>

definition set_typed :: "nat \<Rightarrow> nat \<Rightarrow> store \<Rightarrow> nat \<Rightarrow> nat \<Rightarrow> nat \<Rightarrow> store res" where
  "set_typed k n s r col v = set_value s r col (on_stack k (le_bytes n v))"

definition get_typed :: "nat \<Rightarrow> store \<Rightarrow> nat \<Rightarrow> nat \<Rightarrow> nat res" where
  "get_typed n s r col =
     R_bind (deref_row s r) (\<lambda>row.
     R_bind (get_schema s row) (\<lambda>c.
     R_bind (get_field_index c col) (\<lambda>pos.
     R_bind (get_data row) (\<lambda>d.
       if pos + n \<le> length d then le_value (take n (drop pos d)) else Inl Out_Of_Bounds))))"

definition set_value_u64 :: "nat \<Rightarrow> store \<Rightarrow> nat \<Rightarrow> nat \<Rightarrow> u64 \<Rightarrow> store res" where
  "set_value_u64 k s r col v = set_typed k 8 s r col (unat v)"

definition set_value_double :: "nat \<Rightarrow> store \<Rightarrow> nat \<Rightarrow> nat \<Rightarrow> u64 \<Rightarrow> store res" where
  "set_value_double k s r col bits = set_typed k 8 s r col (unat bits)"

definition set_value_u32 :: "nat \<Rightarrow> store \<Rightarrow> nat \<Rightarrow> nat \<Rightarrow> u32 \<Rightarrow> store res" where
  "set_value_u32 k s r col v = set_typed k 4 s r col (unat v)"

text \<open>The signed types, taken modulo the size of the type (two's complement).\<close>

definition set_value_s64 :: "nat \<Rightarrow> store \<Rightarrow> nat \<Rightarrow> nat \<Rightarrow> int \<Rightarrow> store res" where
  "set_value_s64 k s r col v = set_typed k 8 s r col (unat (word_of_int v :: u64))"

definition set_value_s32 :: "nat \<Rightarrow> store \<Rightarrow> nat \<Rightarrow> nat \<Rightarrow> int \<Rightarrow> store res" where
  "set_value_s32 k s r col v = set_typed k 4 s r col (unat (word_of_int v :: u32))"

definition get_value_u64 :: "store \<Rightarrow> nat \<Rightarrow> nat \<Rightarrow> u64 res" where
  "get_value_u64 s r col = R_bind (get_typed 8 s r col) (\<lambda>v. Inr (of_nat v))"

definition get_value_double :: "store \<Rightarrow> nat \<Rightarrow> nat \<Rightarrow> u64 res" where
  "get_value_double s r col = R_bind (get_typed 8 s r col) (\<lambda>v. Inr (of_nat v))"

definition get_value_u32 :: "store \<Rightarrow> nat \<Rightarrow> nat \<Rightarrow> u32 res" where
  "get_value_u32 s r col = R_bind (get_typed 4 s r col) (\<lambda>v. Inr (of_nat v))"

definition get_value_s64 :: "store \<Rightarrow> nat \<Rightarrow> nat \<Rightarrow> int res" where
  "get_value_s64 s r col = R_bind (get_typed 8 s r col) (\<lambda>v. Inr (sint (of_nat v :: u64)))"

definition get_value_s32 :: "store \<Rightarrow> nat \<Rightarrow> nat \<Rightarrow> int res" where
  "get_value_s32 s r col = R_bind (get_typed 4 s r col) (\<lambda>v. Inr (sint (of_nat v :: u32)))"

section \<open>Accessors\<close>

definition row_init_size :: "store \<Rightarrow> nat \<Rightarrow> nat \<Rightarrow> store res" where
  "row_init_size s r sz =
     R_bind (deref_row s r) (\<lambda>row. Inr (put_row s r (row\<lparr>data := Some (replicate sz Uninit)\<rparr>)))"

definition switch_schema :: "store \<Rightarrow> nat \<Rightarrow> string \<Rightarrow> store res" where
  "switch_schema s r tn = R_bind (deref_row s r) (\<lambda>row. Inr (put_row s r (row\<lparr>row_table := tn\<rparr>)))"

definition row_tuple_size :: "store \<Rightarrow> row_t \<Rightarrow> nat res" where
  "row_tuple_size s row = R_bind (get_schema s row) (\<lambda>c. Inr (get_tuple_size c))"

definition row_field_cnt :: "store \<Rightarrow> row_t \<Rightarrow> nat res" where
  "row_field_cnt s row = R_bind (get_schema s row) (\<lambda>c. Inr (unat (field_cnt c)))"

definition get_table_size :: "table_t \<Rightarrow> u64" where
  "get_table_size tb = cur_tab_size tb"

text \<open>The obsolete overload of \<open>table_t::get_new_row\<close> fails its assertion.\<close>

definition get_new_row_obsolete :: "store \<Rightarrow> string \<Rightarrow> (store \<times> nat) res" where
  "get_new_row_obsolete s tn = R_bind (R_assert False) (\<lambda>_. Inr (s, 0))"

section \<open>What is written is read back\<close>

text \<open>A row as the engine keeps it: a well-formed schema and a buffer of the tuple's size.\<close>

definition live_row :: "store \<Rightarrow> nat \<Rightarrow> row_t \<Rightarrow> Catalog \<Rightarrow> byte list \<Rightarrow> bool" where
  "live_row s r row c d \<longleftrightarrow>
     rows s r = Some row \<and> get_schema s row = Inr c \<and> wf_catalog c \<and> data row = Some d \<and>
     length d = get_tuple_size c"

lemma column_span:
  assumes "wf_catalog c" and "i < unat (field_cnt c)"
  obtains pos sz where "get_field_index c i = Inr pos" "get_field_size c i = Inr sz" "pos + sz \<le> get_tuple_size c"
    "pos = sizes_upto c i" "pos + sz = sizes_upto c (Suc i)"
proof -
  obtain cl where cl: "get_column c i = Inr cl" "unat (col_index cl) = sizes_upto c i"
    "sizes_upto c (Suc i) = sizes_upto c i + unat (col_size cl)"
    by (rule wf_catalog_column [OF assms])
  have "sizes_upto c (Suc i) \<le> sizes_upto c (unat (field_cnt c))"
    using assms(2) by (intro sizes_upto_mono) simp
  then show ?thesis
    using that cl assms(1) by (simp add: get_field_index_def get_field_size_def get_tuple_size_def wf_catalog_def)
qed

lemma set_value_live:
  assumes "live_row s r row c d" and "i < unat (field_cnt c)"
    and "get_field_index c i = Inr pos" "get_field_size c i = Inr sz" and "sz \<le> length src"
  shows "set_value s r i src = Inr (put_row s r (row\<lparr>data := Some (take pos d @ take sz src @ drop (pos + sz) d)\<rparr>))"
proof -
  have wf: "wf_catalog c" using assms(1) by (simp add: live_row_def)
  obtain p z where "get_field_index c i = Inr p" "get_field_size c i = Inr z" "p + z \<le> get_tuple_size c"
    by (rule column_span [OF wf assms(2)])
  then have "pos + sz \<le> length d" using assms(1,3,4) by (simp add: live_row_def)
  then show ?thesis
    using assms by (simp add: set_value_def live_row_def deref_row_def get_data_def mem_copy_def)
qed

text \<open>The bytes of a column.\<close>

definition column_bytes :: "Catalog \<Rightarrow> byte list \<Rightarrow> nat \<Rightarrow> byte list" where
  "column_bytes c d j = take (sizes_upto c (Suc j) - sizes_upto c j) (drop (sizes_upto c j) d)"

lemma column_bytes_write:
  assumes "wf_catalog c" and "i < unat (field_cnt c)" and "j < unat (field_cnt c)" and "length d = get_tuple_size c"
    and "length src = sizes_upto c (Suc i) - sizes_upto c i"
  shows "column_bytes c (take (sizes_upto c i) d @ src @ drop (sizes_upto c (Suc i)) d) j =
    (if j = i then src else column_bytes c d j)"
proof -
  have ts: "get_tuple_size c = sizes_upto c (unat (field_cnt c))"
    using assms(1) by (simp add: get_tuple_size_def wf_catalog_def)
  have le: "sizes_upto c i \<le> sizes_upto c (Suc i)" "sizes_upto c (Suc i) \<le> length d"
    using assms(2) ts assms(4) by (simp_all add: sizes_upto_mono)
  consider "j = i" | "j < i" | "i < j" by linarith
  then show ?thesis
  proof cases
    case 1
    then show ?thesis using le assms(5) by (simp add: column_bytes_def)
  next
    case 2
    then have "sizes_upto c j \<le> sizes_upto c (Suc j)" "sizes_upto c (Suc j) \<le> sizes_upto c i"
      by (simp_all add: sizes_upto_mono)
    then show ?thesis using 2 le assms(5) by (simp add: column_bytes_def take_drop min_absorb1)
  next
    case 3
    then have "sizes_upto c (Suc i) \<le> sizes_upto c j" by (simp add: sizes_upto_mono)
    then show ?thesis using 3 le assms(5) by (simp add: column_bytes_def)
  qed
qed

text \<open>
  C33. Typed values survive in a row: writing a value into a column of exactly its size succeeds, whatever
  lies behind it on the stack, reading
  the column back yields the value (modulo the size), and the bytes of every other column are as
  they were.
\<close>

theorem typed_value_roundtrip:
  assumes "live_row s r row c d" and "i < unat (field_cnt c)" and "get_field_size c i = Inr n"
  shows "\<exists>s' row' d'. set_typed k n s r i v = Inr s' \<and> live_row s' r row' c d' \<and>
    get_typed n s' r i = Inr (v mod 256 ^ n) \<and>
    (\<forall>j < unat (field_cnt c). j \<noteq> i \<longrightarrow> column_bytes c d' j = column_bytes c d j)"
proof -
  have wf: "wf_catalog c" "length d = get_tuple_size c" using assms(1) by (simp_all add: live_row_def)
  obtain pos where span: "get_field_index c i = Inr pos" "pos + n \<le> get_tuple_size c"
    "pos = sizes_upto c i" "pos + n = sizes_upto c (Suc i)"
    using column_span [OF wf(1) assms(2)] assms(3) by fastforce
  define d' where "d' = take pos d @ le_bytes n v @ drop (pos + n) d"
  define s' where "s' = put_row s r (row\<lparr>data := Some d'\<rparr>)"
  have set: "set_typed k n s r i v = Inr s'"
    using set_value_live [OF assms(1,2) span(1) assms(3), of "on_stack k (le_bytes n v)"]
    by (simp add: set_typed_def s'_def d'_def on_stack_def)
  have live: "live_row s' r (row\<lparr>data := Some d'\<rparr>) c d'"
    using assms(1) span(2) wf(2)
    by (simp add: live_row_def s'_def put_row_def d'_def get_schema_def deref_table_def)
  have "take n (drop pos d') = le_bytes n v" using span(2) wf(2) by (simp add: d'_def)
  moreover have "pos + n \<le> length d'" using live span(2) by (simp add: live_row_def)
  ultimately have "get_typed n s' r i = Inr (v mod 256 ^ n)"
    using live span(1) by (simp add: get_typed_def live_row_def deref_row_def get_data_def le_value_bytes)
  moreover have "column_bytes c d' j = column_bytes c d j" if "j < unat (field_cnt c)" "j \<noteq> i" for j
  proof -
    have "length (le_bytes n v) = sizes_upto c (Suc i) - sizes_upto c i" using span(3,4) by simp
    from column_bytes_write [OF wf(1) assms(2) that(1) wf(2) this] show ?thesis
      using that(2) span(3,4) by (simp add: d'_def)
  qed
  ultimately show ?thesis using set live by blast
qed

text \<open>A row of a schema with an \<open>int\<close> and a \<open>double\<close> column.\<close>

definition num_catalog :: Catalog where
  "num_catalog = \<lparr>cat_table_name = ''T'', field_cnt = 2, tuple_size = 12, columns =
     [Some \<lparr>col_id = 0, col_size = 4, col_index = 0, col_type = ''int'', col_name = ''A''\<rparr>,
      Some \<lparr>col_id = 1, col_size = 8, col_index = 4, col_type = ''double'', col_name = ''B''\<rparr>]\<rparr>"

definition num_row :: row_t where
  "num_row = \<lparr>row_table = ''T'', data = Some (replicate 12 Uninit), primary_key = Some 0, part_id = 0,
     row_id = 0, manager = None\<rparr>"

definition num_store :: store where
  "num_store = \<lparr>tables = [''T'' \<mapsto> \<lparr>schema = num_catalog, table_name = ''T'', cur_tab_size = 1\<rparr>],
     indexes = Map.empty, rows = [0 \<mapsto> num_row], next_row = 1, timestamp = 1\<rparr>"

lemma wf_num_catalog: "wf_catalog num_catalog"
proof -
  have two: "i < 2 \<longleftrightarrow> i = 0 \<or> i = Suc 0" for i :: nat by auto
  have "{..< 2 :: nat} = {0, Suc 0}" by auto
  then show ?thesis
    by (simp add: wf_catalog_def num_catalog_def sizes_upto_def two all_conj_distrib nul_free_def imp_ex)
qed

lemma live_num_row: "live_row num_store 0 num_row num_catalog (replicate 12 Uninit)"
  using wf_num_catalog
  by (simp add: live_row_def num_store_def num_row_def get_schema_def deref_table_def num_catalog_def get_tuple_size_def)

theorem typed_value_roundtrip_witness:
  "\<exists>s'. set_value_s32 0 num_store 0 0 (- 1234) = Inr s' \<and> get_value_s32 s' 0 0 = Inr (- 1234)"
proof -
  have "get_field_size num_catalog 0 = Inr 4" "0 < unat (field_cnt num_catalog)"
    by (simp_all add: num_catalog_def get_field_size_def get_column_def R_nth_def)
  from typed_value_roundtrip [OF live_num_row this(2,1), of 0 "unat (word_of_int (- 1234) :: u32)"]
  show ?thesis by (auto simp: set_value_s32_def get_value_s32_def)
qed

end
