(* ===== verification/Test_Txn.thy ===== *)
theory Test_Txn
  imports Demo Manager Row_Values
begin

text \<open>
  The built-in test transactions (\<open>Storage/test/test_txn.cpp\<close>) and the thread function that runs them
  (\<open>thread_t::runTest\<close>). They write an \<open>int\<close>, a \<open>double\<close>, a 64-bit number and a string into the first
  four columns of the row with key 0. The parameter \<open>k\<close> is the number of bytes that can be read behind a
  value on the stack (\<open>Row_Values\<close>).
\<close>

section \<open>The transactions\<close>

text \<open>The bit pattern of the \<open>double\<close> 1234.5, and the array \<open>char str[] = "hello"\<close>.\<close>

definition bits_1234_5 :: u64 where "bits_1234_5 = 0x40934A0000000000"

definition hello :: "byte list" where "hello = map Byte ''hello'' @ [Byte NUL]"

definition write_test_row :: "nat \<Rightarrow> store \<Rightarrow> nat \<Rightarrow> store res" where
  "write_test_row k s l =
     R_bind (set_value_s32 k s l 0 1234) (\<lambda>s1.
     R_bind (set_value_double k s1 l 1 bits_1234_5) (\<lambda>s2.
     R_bind (set_value_u64 k s2 l 2 8589934592) (\<lambda>s3.
       set_value s3 l 3 (on_stack k hello))))"

definition check_test_row :: "store \<Rightarrow> nat \<Rightarrow> unit res" where
  "check_test_row s l =
     R_bind (get_value_s32 s l 0) (\<lambda>v1.
     R_bind (get_value_double s l 1) (\<lambda>v2.
     R_bind (get_value_u64 s l 2) (\<lambda>v3.
     R_bind (get_value s l 3) (\<lambda>v4.
     R_bind (R_assert (v1 = 1234)) (\<lambda>_.
     R_bind (R_assert (v2 = bits_1234_5)) (\<lambda>_.
     R_bind (R_assert (v3 = 8589934592)) (\<lambda>_.
     R_bind (strcmp_eq v4 ''hello'') R_assert)))))))"

text \<open>Finding the row of a key: neither the item nor its row is checked for null.\<close>

definition test_access :: "store \<Rightarrow> txn_man \<Rightarrow> u64 \<Rightarrow> (nat option \<times> store \<times> txn_man) res" where
  "test_access s t key =
     R_bind (deref_index s ''Data_INDEX'') (\<lambda>ix.
     R_bind (index_read ix key 0) (\<lambda>m_item.
     R_bind (R_ptr m_item) (\<lambda>it.
     R_bind (R_ptr (location it)) (\<lambda>row. txn_get_row s t row WR))))"

definition testReadwrite :: "nat \<Rightarrow> store \<Rightarrow> txn_man \<Rightarrow> int \<Rightarrow> (RC \<times> store \<times> txn_man) res" where
  "testReadwrite k s t access_num =
     R_bind (test_access s t 0) (\<lambda>(row_local, s1, t1).
     R_bind (R_ptr row_local) (\<lambda>l.
     R_bind (if access_num = 0 then write_test_row k s1 l
             else R_bind (check_test_row s1 l) (\<lambda>_. Inr s1)) (\<lambda>s2.
     R_bind (finish s2 t1 RCOK) (\<lambda>(rc, s3, t3).
       Inr (if access_num = 0 then RCOK else FINISH, s3, t3)))))"

text \<open>The loop over the keys from 0 to 0; a null row ends it with \<open>Abort\<close>.\<close>

definition testConflict :: "nat \<Rightarrow> store \<Rightarrow> txn_man \<Rightarrow> int \<Rightarrow> (RC \<times> store \<times> txn_man) res" where
  "testConflict k s t access_num =
     R_bind (test_access s t 0) (\<lambda>(row_local, s1, t1).
     R_bind (case row_local of
               Some l \<Rightarrow> R_bind (write_test_row k s1 l) (\<lambda>s2. Inr (RCOK, s2))
             | None \<Rightarrow> Inr (Abort, s1)) (\<lambda>(rc, s2).
       finish s2 t1 rc))"

definition run_txn :: "nat \<Rightarrow> store \<Rightarrow> txn_man \<Rightarrow> int \<Rightarrow> int \<Rightarrow> (RC \<times> store \<times> txn_man) res" where
  "run_txn k s t type access_num =
     (if type = 0 then testReadwrite k s t access_num
      else if type = 1 then testConflict k s t access_num
      else Inl Assert_Failed)"

text \<open>The numbers of the enumeration \<open>TestCases\<close>.\<close>

definition test_number :: "TestCases \<Rightarrow> int" where
  "test_number c = (case c of READ_WRITE \<Rightarrow> 0 | CONFLICT \<Rightarrow> 1)"

definition runTest ::
    "nat \<Rightarrow> TestCases \<Rightarrow> 'q thread_t \<Rightarrow> store \<Rightarrow> txn_man \<Rightarrow> (RC \<times> 'q thread_t \<times> store \<times> txn_man) res" where
  "runTest k test_case thd s t =
     (if test_case = READ_WRITE
      then R_bind (run_txn k s t (test_number test_case) 0) (\<lambda>(rc, s1, t1).
           let (ts, thd1, s2) = get_next_ts thd s1
           in R_bind (run_txn k s2 (t1\<lparr>start_ts := ts\<rparr>) (test_number test_case) 1) (\<lambda>(rc, s3, t3).
                Inr (FINISH, thd1, s3, t3)))
      else R_bind (run_txn k s t (test_number test_case) 0) (\<lambda>(rc, s1, t1).
             Inr (if rc = RCOK then FINISH else rc, thd, s1, t1)))"

section \<open>They do not fit the schema\<close>

lemma write_test_row_faults:
  assumes "has_table s" and "local_row s l key v"
  shows "write_test_row k s l = Inl Out_Of_Bounds"
proof -
  obtain row d where row: "rows s l = Some row" "row_table row = ''Data_TABLE''" "data row = Some d"
    "length d = 1152"
    using assms(2) by (auto simp: local_row_def tuple_ok_def)
  have typed: "set_typed k w s' l i x = Inl Out_Of_Bounds \<or> (\<exists>d'. length d' = 1152 \<and>
      set_typed k w s' l i x = Inr (put_row s' l (row'\<lparr>data := Some d'\<rparr>)))"
    if s': "has_table s'" "rows s' l = Some row'" "row_table row' = ''Data_TABLE''" "data row' = Some d''" "length d'' = 1152"
      and i: "i = 0 \<or> i = Suc 0" for s' row' d'' w i x
  proof -
    let ?src = "on_stack k (le_bytes w x)"
    let ?d0 = "take 128 ?src @ drop 128 d''" and ?d1 = "take 128 d'' @ take 1024 ?src"
    have "set_typed k w s' l i x = Inl Out_Of_Bounds \<or>
        128 \<le> length ?src \<and> set_typed k w s' l i x = Inr (put_row s' l (row'\<lparr>data := Some ?d0\<rparr>)) \<or>
        1024 \<le> length ?src \<and> set_typed k w s' l i x = Inr (put_row s' l (row'\<lparr>data := Some ?d1\<rparr>))"
      using s' i by (cases "128 \<le> length ?src"; cases "1024 \<le> length ?src")
        (auto simp: set_typed_def set_value_def get_schema_ok get_data_def mem_copy_def)
    moreover have "length ?d0 = 1152" if "128 \<le> length ?src" using that s'(5) by simp
    moreover have "length ?d1 = 1152" if "1024 \<le> length ?src" using that s'(5) by simp
    ultimately show ?thesis by blast
  qed
  show ?thesis
  proof (cases "set_value_s32 k s l 0 1234")
    case (Inl e)
    then show ?thesis
      using typed [OF assms(1) row, of 0 4 1234] by (auto simp: write_test_row_def set_value_s32_def)
  next
    case (Inr s1)
    then obtain d1 where s1: "s1 = put_row s l (row\<lparr>data := Some d1\<rparr>)" "length d1 = 1152"
      using typed [OF assms(1) row, of 0 4 1234] by (auto simp: set_value_s32_def)
    let ?row1 = "row\<lparr>data := Some d1\<rparr>"
    have h1: "has_table s1" "rows s1 l = Some ?row1" using assms(1) s1(1) by (simp_all add: put_row_def)
    have double: "set_value_double k s1 l 1 bits_1234_5 = Inl Out_Of_Bounds \<or> (\<exists>d2.
        set_value_double k s1 l 1 bits_1234_5 = Inr (put_row s1 l (?row1\<lparr>data := Some d2\<rparr>)))"
      using typed [OF h1, of d1 "Suc 0" 8 "unat bits_1234_5"] row(2) s1(2) by (auto simp: set_value_double_def)
    show ?thesis
    proof (cases "set_value_double k s1 l 1 bits_1234_5")
      case (Inl e)
      then show ?thesis using double Inr by (simp add: write_test_row_def)
    next
      case 2: (Inr s2)
      then obtain d2 where s2: "s2 = put_row s1 l (?row1\<lparr>data := Some d2\<rparr>)" using double by auto
      have "has_table s2" "rows s2 l = Some (?row1\<lparr>data := Some d2\<rparr>)" using h1(1) s2 by (simp_all add: put_row_def)
      moreover have "get_field_size data_catalog 2 = Inl Out_Of_Bounds"
        by (simp add: get_field_size_def get_column_def R_nth_def data_catalog_def)
      ultimately have "set_value_u64 k s2 l 2 8589934592 = Inl Out_Of_Bounds"
        using row(2) by (simp add: set_value_u64_def set_typed_def set_value_def get_schema_ok)
      then show ?thesis by (simp only: write_test_row_def Inr 2 R_bind.simps)
    qed
  qed
qed

text \<open>
  C38. The built-in test transactions cannot run on the schema the program ships: on a well-formed
  store whose row with key 0 was not updated since the transaction began, the first phase of either
  test transaction ends out of bounds, however much can be read behind its values: at the latest
  where it writes the third column, which the schema does not have.
\<close>

theorem test_transactions_fault:
  assumes "wf_store s" and "wf_txn s t" and "idx_row s 0 = Some r" and "acc_view s t 0 = None"
    and "db_view s 0 = Some row" and "a_wts row \<le> start_ts t" and "row_cnt t < MAX_ROW_PER_TXN"
  shows "run_txn k s t (test_number c) 0 = Inl Out_Of_Bounds"
proof -
  obtain lo s1 t1 where g: "txn_get_row s t r WR = Inr (lo, s1, t1)" "effect s t s1 t1" "access_result s t lo s1 t1 0 True"
    using txn_get_row_spec [OF assms(1-3) assms(7), of WR] by auto
  have wf: "wf_store s1" "wf_txn s1 t1" using g(2) by (simp_all add: effect_def)
  have "a_access (db_view s) (acc_view s t) (start_ts t) 0 True \<noteq> None"
    using assms(4-6) by (auto simp: a_access_def)
  then have "lo \<noteq> None" using g(3) by (metis access_result_None)
  then obtain l where lo: "lo = Some l" by blast
  obtain key v where "local_row s1 l key v"
    using access_result_Some [OF g(3) [unfolded lo] wf] by metis
  then have fault: "write_test_row k s1 l = Inl Out_Of_Bounds"
    using write_test_row_faults wf(1) by (auto simp: wf_store_def)
  obtain ix where ix: "deref_index s ''Data_INDEX'' = Inr ix"
    "\<forall>pk. \<exists>it. index_read ix pk 0 = Inr it \<and> idx_row s pk = Option.bind it location \<and>
       (it = None \<longleftrightarrow> idx_row s pk = None)"
    by (rule wf_store_index [OF assms(1)])
  obtain it where it: "index_read ix 0 0 = Inr (Some it)" "location it = Some r"
    using ix(2) assms(3) by (metis bind.bind_lunit not_Some_eq)
  have "test_access s t 0 = Inr (Some l, s1, t1)"
    using ix(1) it g(1) lo by (simp add: test_access_def)
  then show ?thesis
    using fault by (cases c) (simp_all add: run_txn_def test_number_def testReadwrite_def testConflict_def)
qed

theorem test_transactions_fault_witness:
  "\<exists>ctx. impl (handles (demo_at [(0, Begin_txn)]) 0) = Some ctx \<and>
    run_txn 4096 (st (eng (demo_at [(0, Begin_txn)]))) (ctx_txn ctx) (test_number CONFLICT) 0 = Inl Out_Of_Bounds"
proof -
  let ?y = "demo_at [(0, Begin_txn)]"
  obtain ctx where ctx: "impl (handles ?y 0) = Some ctx" "acc_view (st (eng ?y)) (ctx_txn ctx) = Map.empty"
    using demo_ctx [OF demo_one_oks demo_one_abs(1)] by auto
  note wf = demo_at_ok(1) [OF demo_one_oks]
  note ws = wf_sysD(1) [OF wf] and wt = wf_sysD(2) [OF wf ctx(1)]
  have row: "db_view (st (eng ?y)) 0 = Some (initial_row 0)"
    by (simp add: demo_abs_view [OF demo_one_oks] demo_one_abs initial_db_eq)
  then obtain r where r: "idx_row (st (eng ?y)) 0 = Some r"
    using db_view_None_iff [OF ws, of 0] by (cases "idx_row (st (eng ?y)) 0") auto
  have "row_cnt (ctx_txn ctx) < MAX_ROW_PER_TXN"
    using row_cnt_card [OF ws wt] ctx(2) by (simp add: MAX_ROW_PER_TXN_def)
  moreover have "acc_view (st (eng ?y)) (ctx_txn ctx) 0 = None" using ctx(2) by simp
  moreover have "a_wts (initial_row 0) \<le> start_ts (ctx_txn ctx)" by (simp add: initial_row_def)
  ultimately have "run_txn 4096 (st (eng ?y)) (ctx_txn ctx) (test_number CONFLICT) 0 = Inl Out_Of_Bounds"
    using test_transactions_fault [OF ws wt r _ row] by blast
  then show ?thesis using ctx(1) by blast
qed

end
