(* ===== verification/Descriptors.thy ===== *)
theory Descriptors
  imports Occ Manager
begin

text \<open>
  The rest of the transaction descriptor and of the concurrency control's state: the fields of
  \<open>txn_man\<close> (\<open>Storage/System/txn.h\<close>, \<open>txn.cpp\<close>) that the protocol does not use and their accessors,
  \<open>txn_man::release\<close>, the records of planned writes, and the constructors of
  \<open>Storage/concurrency_control/occ.h\<close> and \<open>occ.cpp\<close>.
\<close>

section \<open>Owner and numbers of a transaction\<close>

text \<open>\<open>h_thd\<close> and \<open>h_wl\<close> point to the thread and the workload; they may be null.\<close>

record ('q, 'w) txn_desc = txn_man +
  h_thd :: "'q thread_t option"
  h_wl :: "'w option"
  txn_id :: u64
  txn_timestamp :: u64

definition set_txn_id :: "u64 \<Rightarrow> ('q, 'w) txn_desc \<Rightarrow> ('q, 'w) txn_desc" where
  "set_txn_id i t = t\<lparr>txn_id := i\<rparr>"

definition get_txn_id :: "('q, 'w) txn_desc \<Rightarrow> u64" where
  "get_txn_id t = txn_id t"

definition get_wl :: "('q, 'w) txn_desc \<Rightarrow> 'w option" where
  "get_wl t = h_wl t"

definition txn_thd_id :: "('q, 'w) txn_desc \<Rightarrow> u64 res" where
  "txn_thd_id t = R_bind (R_ptr (h_thd t)) (\<lambda>thd. Inr (get_thd_id thd))"

definition set_ts :: "u64 \<Rightarrow> ('q, 'w) txn_desc \<Rightarrow> ('q, 'w) txn_desc" where
  "set_ts ts t = t\<lparr>txn_timestamp := ts\<rparr>"

definition txn_ts :: "('q, 'w) txn_desc \<Rightarrow> u64" where
  "txn_ts t = txn_timestamp t"

text \<open>A write planned by a transaction; no code creates one.\<close>

datatype op_t = Update_OP | INSERT_OP

record write_t =
  write_type :: op_t
  key_str :: string
  val_str :: string
  wr_local :: "nat option"

section \<open>Releasing a descriptor\<close>

text \<open>
  \<open>txn_man::release\<close> frees the \<open>Access\<close> objects in the first \<open>num_accesses_alloc\<close> slots, then the array
  of slots. The result is what is passed to \<open>free\<close> for the objects, \<open>None\<close> being the null pointer.
\<close>

fun release_from :: "txn_man \<Rightarrow> nat \<Rightarrow> nat \<Rightarrow> Access option list res" where
  "release_from t i 0 = Inr []"
| "release_from t i (Suc n) =
     R_bind (R_nth (accesses t) i) (\<lambda>a. R_bind (release_from t (Suc i) n) (\<lambda>as. Inr (a # as)))"

definition txn_release :: "txn_man \<Rightarrow> Access option list res" where
  "txn_release t = release_from t 0 (num_accesses_alloc t)"

text \<open>The slots are filled from the left and stay filled, so \<open>release\<close> would free every object once.\<close>

definition slots_ok :: "txn_man \<Rightarrow> bool" where
  "slots_ok t \<longleftrightarrow> num_accesses_alloc t \<le> length (accesses t) \<and> row_cnt t \<le> num_accesses_alloc t \<and>
     (\<forall>i < length (accesses t). accesses t ! i = None \<longleftrightarrow> num_accesses_alloc t \<le> i)"

lemma slots_ok_init: "slots_ok txn_init"
  by (simp add: slots_ok_def txn_init_def)

lemma slots_ok_set: "slots_ok t \<Longrightarrow> i < num_accesses_alloc t \<Longrightarrow> slots_ok (set_access t i acc)"
  by (auto simp: slots_ok_def set_access_def nth_list_update)

lemma slots_ok_ensure:
  assumes "slots_ok t" and "ensure_access t = Inr t'"
  shows "slots_ok t'" "row_cnt t' = row_cnt t" "row_cnt t' < num_accesses_alloc t'"
proof -
  obtain a where a: "row_cnt t < length (accesses t)" "accesses t ! row_cnt t = a"
    "(case a of Some _ \<Rightarrow> t | None \<Rightarrow> (set_access t (row_cnt t) \<lparr>acc_type = RD, orig_row = None, acc_data = None\<rparr>)
       \<lparr>num_accesses_alloc := num_accesses_alloc t + 1\<rparr>) = t'"
    using assms(2) by (auto simp: ensure_access_def res_simps split: option.splits)
  have "slots_ok t' \<and> row_cnt t' = row_cnt t \<and> row_cnt t' < num_accesses_alloc t'"
  proof (cases a)
    case None
    then have "row_cnt t = num_accesses_alloc t" using assms(1) a(1,2) by (auto simp: slots_ok_def)
    then show ?thesis using assms(1) a None
      by (auto simp: slots_ok_def set_access_def nth_list_update split: if_splits)
  next
    case (Some x)
    then show ?thesis using assms(1) a by (auto simp: slots_ok_def)
  qed
  then show "slots_ok t'" "row_cnt t' = row_cnt t" "row_cnt t' < num_accesses_alloc t'" by simp_all
qed

lemma release_from_ok:
  "i + n \<le> length (accesses t) \<Longrightarrow> release_from t i n = Inr (take n (drop i (accesses t)))"
  by (induction n arbitrary: i) (auto simp: Cons_nth_drop_Suc [symmetric] take_Suc_Cons)

lemma txn_release_ok:
  assumes "slots_ok t"
  shows "txn_release t = Inr (filter (\<lambda>a. a \<noteq> None) (accesses t))"
proof -
  let ?k = "num_accesses_alloc t"
  have "filter (\<lambda>a. a \<noteq> None) (take ?k (accesses t)) = take ?k (accesses t)"
  proof (rule filter_True, rule ballI)
    fix x assume "x \<in> set (take ?k (accesses t))"
    then obtain i where "i < ?k" "x = accesses t ! i" by (auto simp: in_set_conv_nth)
    then show "x \<noteq> None" using assms unfolding slots_ok_def by (metis leD order_less_le_trans)
  qed
  moreover have "filter (\<lambda>a. a \<noteq> None) (drop ?k (accesses t)) = []"
    by (rule filter_False) (use assms in \<open>auto simp: slots_ok_def in_set_conv_nth\<close>)
  moreover have "filter (\<lambda>a. a \<noteq> None) (accesses t) =
      filter (\<lambda>a. a \<noteq> None) (take ?k (accesses t)) @ filter (\<lambda>a. a \<noteq> None) (drop ?k (accesses t))"
    by (simp flip: filter_append)
  ultimately show ?thesis
    using assms release_from_ok [of 0 ?k t] by (simp add: txn_release_def slots_ok_def)
qed

section \<open>Concurrency control\<close>

text \<open>
  A set of rows, an entry of the history that \<open>OptCC\<close> was to keep; the constructor does not set \<open>tn\<close>,
  whose initial value is the argument.
\<close>

record set_ent =
  ent_tn :: u64
  ent_txn :: "nat option"
  set_size :: u32
  ent_rows :: "nat list option"
  ent_next :: "nat option"

definition set_ent_new :: "u64 \<Rightarrow> set_ent" where
  "set_ent_new garbage = \<lparr>ent_tn = garbage, ent_txn = None, set_size = 0, ent_rows = None, ent_next = None\<rparr>"

record OptCC =
  lock_all :: bool
  lock_txn_id :: u64
  history :: "nat option"
  active :: "nat option"
  his_len :: u64
  active_len :: u64
  tnc :: u64
  cc_latch :: bool

definition OptCC_init :: OptCC where
  "OptCC_init = \<lparr>lock_all = False, lock_txn_id = 0, history = None, active = None, his_len = 0, active_len = 0,
     tnc = 0, cc_latch = False\<rparr>"

end
