(* ===== verification/Workload_Class.thy ===== *)
theory Workload_Class
  imports Workload Helper Descriptors
begin

text \<open>
  The classes of the workload (\<open>Storage/test/wl.h\<close>, \<open>test.h\<close>): the object that owns the tables and the
  index, its initialisation with every field, the helpers that insert into an index, and the
  creation of a transaction descriptor (\<open>get_txn_man\<close>). \<open>Workload\<close> has the part of it that the start of
  the engine depends on; here is the whole object.
\<close>

section \<open>The objects\<close>

record workload_t =
  wl_store :: store
  sim_done :: bool

text \<open>\<open>TestWorkload\<close>; the pointers are what the maps hold under the names, null if nothing.\<close>

record test_workload = workload_t +
  the_index :: "string option"
  the_table :: "string option"
  wl_time :: u64

definition tick :: "u64 \<Rightarrow> test_workload \<Rightarrow> test_workload" where
  "tick now w = w\<lparr>wl_time := now\<rparr>"

section \<open>Initialisation\<close>

definition workload_init :: "'a workload_t_scheme \<Rightarrow> RC \<times> 'a workload_t_scheme" where
  "workload_init w = (RCOK, w\<lparr>sim_done := False\<rparr>)"

definition test_init_schema :: "mem_env \<Rightarrow> string option \<Rightarrow> test_workload \<Rightarrow> (RC \<times> test_workload) res" where
  "test_init_schema m file w =
     R_bind (init_schema m file (wl_store w)) (\<lambda>s.
       Inr (RCOK, w\<lparr>wl_store := s,
         the_table := if tables s ''Data_TABLE'' = None then None else Some ''Data_TABLE'',
         the_index := if indexes s ''Data_INDEX'' = None then None else Some ''Data_INDEX''\<rparr>))"

definition TestWorkload_init :: "mem_env \<Rightarrow> string option \<Rightarrow> test_workload \<Rightarrow> (RC \<times> test_workload) res" where
  "TestWorkload_init m file w =
     (let (rc, w1) = workload_init w
      in R_bind (test_init_schema m file w1) (\<lambda>(rc1, w2).
         R_bind (R_assert (\<not> (the_table w2 = None \<or> the_index w2 = None))) (\<lambda>_.
         R_bind (init_table m (wl_store w2)) (\<lambda>s. Inr (RCOK, w2\<lparr>wl_store := s\<rparr>)))))"

text \<open>On the maps it has the effect \<open>Workload\<close> states, and the object is then complete.\<close>

lemma TestWorkload_init_store:
  assumes "wl_store w = workload_new"
  shows "R_bind (TestWorkload_init m file w) (\<lambda>(rc, w1). Inr (wl_store w1)) = test_workload_init m file"
proof (cases "init_schema m file workload_new")
  case (Inr s)
  then show ?thesis
    using assms
    by (auto simp: TestWorkload_init_def workload_init_def test_init_schema_def test_workload_init_def R_assert_def R_bind_assoc)
      (cases "init_table m s"; simp)
qed (use assms in \<open>simp add: TestWorkload_init_def workload_init_def test_init_schema_def test_workload_init_def\<close>)

lemma TestWorkload_init_object:
  assumes "TestWorkload_init m file w = Inr (rc, w')"
  shows "rc = RCOK \<and> \<not> sim_done w' \<and> the_table w' = Some ''Data_TABLE'' \<and> the_index w' = Some ''Data_INDEX''"
  using assms
  by (auto simp: TestWorkload_init_def workload_init_def test_init_schema_def res_simps split: if_splits)

section \<open>Inserting into an index\<close>

text \<open>
  \<open>pid\<close> is passed as an \<open>int\<close>. The item comes from the allocator with the bytes it finds there (\<open>fresh\<close>);
  \<open>addr\<close> is the address of the row. The overload that takes a name only fails an assertion.
\<close>

definition wl_index_insert :: "itemid_t \<Rightarrow> (nat \<Rightarrow> nat) \<Rightarrow> IndexHash \<Rightarrow> u64 \<Rightarrow> nat \<Rightarrow> int \<Rightarrow> IndexHash res" where
  "wl_index_insert fresh addr ix key row part =
     (let pid = (if part = - 1 then of_nat (get_part_id (addr row)) else word_of_int part) :: u64;
          m_item = (item_init fresh)\<lparr>item_type := DT_row, location := Some row, valid := True\<rparr>
      in index_insert ix key m_item (signed_take_bit 31 (uint pid)))"

definition wl_index_insert_name :: "string \<Rightarrow> u64 \<Rightarrow> nat \<Rightarrow> IndexHash res" where
  "wl_index_insert_name index_name key row = Inl Assert_Failed"

text \<open>With the default partition, whatever the address of the row, the row is found under the key.\<close>

lemma default_partition: "get_part_id a = 0"
  by (simp add: get_part_id_def g_part_cnt_def PART_CNT_def)

lemma wl_index_insert_found:
  assumes "wf_index ix"
  shows "\<exists>ix' it. wl_index_insert fresh addr ix key row (- 1) = Inr ix' \<and> wf_index ix' \<and>
    index_read ix' key 0 = Inr (Some it) \<and> location it = Some row \<and> valid it \<and>
    (\<forall>k. k \<noteq> key \<longrightarrow> index_read ix' k 0 = index_read ix k 0)"
proof -
  let ?it = "(item_init fresh)\<lparr>item_type := DT_row, location := Some row, valid := True\<rparr>"
  obtain ix' where ix': "index_insert ix key ?it 0 = Inr ix'" using index_insert_eq [OF assms, of key ?it] by (auto simp: Let_def)
  then have "wl_index_insert fresh addr ix key row (- 1) = Inr ix'"
    by (simp add: wl_index_insert_def default_partition)
  then show ?thesis
    using wf_index_insert [OF assms ix'] index_read_insert [OF assms ix']
    by (intro exI [of _ ix'] exI [of _ ?it]) simp
qed

section \<open>Descriptors\<close>

text \<open>
  \<open>txn_man::init\<close> sets the owner and the fields of the protocol, and leaves the others as they are; the
  arrays it allocates for the accesses replace whatever the pointer was. \<open>TestTxnMan\<close> adds its own
  pointer to the workload. \<open>new TestTxnMan()\<close> value-initialises: null pointers and zeros.
\<close>

record ('q, 'w) test_txn = "('q, 'w) txn_desc" +
  test_wl :: "'w option"

definition txn_man_init ::
    "'q thread_t option \<Rightarrow> 'w option \<Rightarrow> ('q, 'w, 'z) txn_desc_scheme \<Rightarrow> ('q, 'w, 'z) txn_desc_scheme" where
  "txn_man_init thd wl t =
     t\<lparr>h_thd := thd, h_wl := wl, row_cnt := 0, wr_cnt := 0, lock_cnt := 0, insert_rows := [],
       accesses := replicate MAX_ROW_PER_TXN None, num_accesses_alloc := 0, record_pos := Map.empty\<rparr>"

definition TestTxnMan_init :: "'q thread_t option \<Rightarrow> 'w option \<Rightarrow> ('q, 'w) test_txn \<Rightarrow> ('q, 'w) test_txn" where
  "TestTxnMan_init thd wl t = (txn_man_init thd wl t)\<lparr>test_wl := wl\<rparr>"

definition test_txn_new :: "('q, 'w) test_txn" where
  "test_txn_new = \<lparr>accesses = [], row_cnt = 0, wr_cnt = 0, lock_cnt = 0, num_accesses_alloc = 0,
     insert_rows = [], record_pos = Map.empty, start_ts = 0, end_ts = 0, cur_row = None,
     h_thd = None, h_wl = None, txn_id = 0, txn_timestamp = 0, test_wl = None\<rparr>"

definition get_txn_man :: "'q thread_t \<Rightarrow> 'w \<Rightarrow> RC \<times> ('q, 'w) test_txn" where
  "get_txn_man thd wl = (RCOK, TestTxnMan_init (Some thd) (Some wl) test_txn_new)"

text \<open>What the protocol sees of the new descriptor is \<open>txn_init\<close>, whose slots are all empty.\<close>

lemma get_txn_man_ok:
  assumes "get_txn_man thd wl = (rc, t)"
  shows "rc = RCOK \<and> txn_man.truncate t = txn_init \<and> slots_ok (txn_man.truncate t) \<and>
    h_thd t = Some thd \<and> h_wl t = Some wl \<and> test_wl t = Some wl"
proof -
  have "txn_man.truncate t = txn_init"
    using assms
    by (auto simp: get_txn_man_def TestTxnMan_init_def txn_man_init_def test_txn_new_def txn_man.defs txn_init_def)
  then show ?thesis
    using assms slots_ok_init
    by (auto simp: get_txn_man_def TestTxnMan_init_def txn_man_init_def)
qed

text \<open>An old descriptor that is initialised again keeps its start time and its numbers.\<close>

lemma txn_man_init_again:
  "start_ts (txn_man_init thd wl t) = start_ts t" "txn_id (txn_man_init thd wl t) = txn_id t"
  "txn_timestamp (txn_man_init thd wl t) = txn_timestamp t"
  by (simp_all add: txn_man_init_def)

end
