(* ===== verification/Listener.thy ===== *)
theory Listener
  imports Server
begin

text \<open>
  The listening socket and the accept loop (\<open>Server/server.cpp\<close>). What the operating system answers
  is the record \<open>os_answers\<close>, or a sequence of results of \<open>accept\<close>; what the program asks of it is a
  list of system calls.
\<close>

section \<open>Creating the socket\<close>

record os_answers =
  r_socket :: int
  r_inet_pton :: int
  r_bind :: int
  r_listen :: int

datatype syscall =
    Sys_socket
  | Sys_setsockopt int
  | Sys_inet_pton string
  | Sys_bind int nat
  | Sys_listen int int
  | Sys_close int

text \<open>
  The result (\<open>Inl\<close>: the exception's message) and the system calls made. \<open>static_cast<uint16_t>\<close>
  takes the port modulo 65536.
\<close>

definition create_listen_socket ::
    "os_answers \<Rightarrow> string \<Rightarrow> int \<Rightarrow> int \<Rightarrow> (string + int) \<times> syscall list" where
  "create_listen_socket os ip port backlog =
     (let fd = r_socket os
      in if fd < 0 then (Inl ''socket() failed'', [Sys_socket])
         else let calls = [Sys_socket, Sys_setsockopt fd, Sys_inet_pton ip];
                  bound = calls @ [Sys_bind fd (nat (port mod 65536))];
                  listening = bound @ [Sys_listen fd backlog]
         in if r_inet_pton os \<le> 0 then (Inl ''inet_pton() failed'', calls @ [Sys_close fd])
            else if r_bind os < 0 then (Inl ''bind() failed'', bound @ [Sys_close fd])
            else if r_listen os < 0 then (Inl ''listen() failed'', listening @ [Sys_close fd])
            else (Inr fd, listening))"

section \<open>Accepting clients\<close>

datatype accept_result = Accepted int | Accept_EINTR | Accept_Error

text \<open>
  \<open>run_accept_loop\<close> never returns: for each connection it starts a detached thread that calls the
  handler and then closes the descriptor; every failure is ignored. The loop over a finite sequence
  of results yields the threads started.
\<close>

fun run_accept_loop :: "accept_result list \<Rightarrow> int list" where
  "run_accept_loop [] = []"
| "run_accept_loop (Accept_EINTR # rs) = run_accept_loop rs"
| "run_accept_loop (Accept_Error # rs) = run_accept_loop rs"
| "run_accept_loop (Accepted cfd # rs) = cfd # run_accept_loop rs"

text \<open>What one of these threads does.\<close>

definition client_thread :: "(int \<Rightarrow> 'e \<Rightarrow> 'e) \<Rightarrow> int \<Rightarrow> 'e \<Rightarrow> 'e \<times> syscall list" where
  "client_thread handler cfd e = (handler cfd e, [Sys_close cfd])"

section \<open>The program\<close>

text \<open>
  \<open>main\<close>: the exit code if the start fails, else the listening socket, whose exceptions nobody
  catches, and the accept loop. \<open>init_ok\<close> is the result of \<open>init_engine\<close>.
\<close>

datatype outcome = Exit_Code int | Terminated string | Serving int "int list"

definition program :: "bool \<Rightarrow> os_answers \<Rightarrow> accept_result list \<Rightarrow> outcome \<times> syscall list" where
  "program init_ok os rs =
     (if \<not> init_ok then (Exit_Code 1, [])
      else case create_listen_socket os ''0.0.0.0'' 19090 128 of
        (Inl msg, calls) \<Rightarrow> (Terminated msg, calls)
      | (Inr fd, calls) \<Rightarrow> (Serving fd (run_accept_loop rs), calls))"

section \<open>Descriptors\<close>

text \<open>The descriptors open after some system calls; \<open>fd\<close> is what \<open>socket\<close> answers.\<close>

fun open_fds :: "int \<Rightarrow> syscall list \<Rightarrow> int set \<Rightarrow> int set" where
  "open_fds fd [] fs = fs"
| "open_fds fd (Sys_socket # cs) fs = open_fds fd cs (if fd < 0 then fs else insert fd fs)"
| "open_fds fd (Sys_close f # cs) fs = open_fds fd cs (fs - {f})"
| "open_fds fd (c # cs) fs = open_fds fd cs fs"

text \<open>
  C37. Setting up the listening socket leaks no descriptor: whichever call fails, the exception leaves
  with the descriptors open that were open before, and on success exactly the returned one is open
  in addition and was bound and put to listen in this order, on port 19090 when the program asks.
\<close>

theorem listen_socket_no_leak:
  assumes "r_socket os \<notin> fs"
  shows "case create_listen_socket os ip port backlog of
      (Inl msg, calls) \<Rightarrow> open_fds (r_socket os) calls fs = fs
    | (Inr fd, calls) \<Rightarrow> open_fds (r_socket os) calls fs = insert fd fs \<and> 0 \<le> fd \<and>
        calls = [Sys_socket, Sys_setsockopt fd, Sys_inet_pton ip, Sys_bind fd (nat (port mod 65536)), Sys_listen fd backlog]"
  using assms by (auto simp: create_listen_socket_def Let_def)

theorem listen_socket_no_leak_witness:
  "open_fds 3 (snd (create_listen_socket \<lparr>r_socket = 3, r_inet_pton = 1, r_bind = - 1, r_listen = 0\<rparr> ''0.0.0.0'' 19090 128)) {0, 1, 2} = {0, 1, 2} \<and>
   open_fds 3 (snd (create_listen_socket \<lparr>r_socket = 3, r_inet_pton = 1, r_bind = 0, r_listen = 0\<rparr> ''0.0.0.0'' 19090 128)) {0, 1, 2} = {0, 1, 2, 3}"
proof -
  let ?f = "\<lparr>r_socket = 3, r_inet_pton = 1, r_bind = - 1, r_listen = 0\<rparr>"
    and ?g = "\<lparr>r_socket = 3, r_inet_pton = 1, r_bind = 0, r_listen = 0\<rparr>"
  have "r_socket ?f \<notin> {0, 1, 2}" "r_socket ?g \<notin> {0, 1, 2}" by simp_all
  from listen_socket_no_leak [OF this(1), of "''0.0.0.0''" 19090 128] listen_socket_no_leak [OF this(2), of "''0.0.0.0''" 19090 128]
  show ?thesis by (auto simp: create_listen_socket_def Let_def)
qed

end
