(* ===== verification/Network.thy ===== *)
theory Network
  imports Demo Session
begin

text \<open>
  The server with several connections: each runs \<open>handle_client\<close> in a thread of its own, on one engine.
  \<open>net_step\<close> processes one event of one connection with the code of \<open>Session\<close>; lines of different
  connections interleave in any order. The specification \<open>w_step\<close> is a server over the abstract
  protocol of \<open>System\<close>: it parses a line into a command, executes it as one abstract call, and prints
  the answer. The refinement lifts the theorems about the calls to the lines clients send and receive.
\<close>

section \<open>Connections\<close>

record net =
  n_eng :: engine
  n_conn :: "nat \<Rightarrow> TxnHandle session option"

text \<open>
  \<open>Connect\<close>: \<open>accept\<close> yields a new descriptor, one that is not in use. \<open>Line\<close>: a whole line has been read.
  \<open>Lost\<close>: \<open>read_line\<close> failed. Events of a descriptor that is not connected do not happen, or are
  never read; they change nothing.
\<close>

datatype net_event = Connect nat | Line nat string | Lost nat

fun net_step :: "(string \<Rightarrow> u64) \<Rightarrow> net \<Rightarrow> net_event \<Rightarrow> ((nat \<times> string) list \<times> net) res" where
  "net_step h n (Connect c) =
     (if n_conn n c = None
      then Inr ([(c, ''WELCOME DataAgentDB'' @ nl)],
                n\<lparr>n_conn := (n_conn n)(c \<mapsto> \<lparr>tx = handle_init, in_txn = False\<rparr>)\<rparr>)
      else Inr ([], n))"
| "net_step h n (Line c line) =
     (case n_conn n c of
        None \<Rightarrow> Inr ([], n)
      | Some ss \<Rightarrow>
          R_bind (session_line (engine_ops h) (n_eng n) ss line) (\<lambda>(reply, go_on, e1, ss1).
            Inr ([(c, reply)], \<lparr>n_eng = e1, n_conn = (n_conn n)(c := if go_on then Some ss1 else None)\<rparr>)))"
| "net_step h n (Lost c) =
     (case n_conn n c of
        None \<Rightarrow> Inr ([], n)
      | Some ss \<Rightarrow>
          R_bind (if in_txn ss then op_abort (engine_ops h) (n_eng n) (tx ss) else Inr (Rc_OK, n_eng n, tx ss))
            (\<lambda>(rc, e1, h1). Inr ([], \<lparr>n_eng = e1, n_conn = (n_conn n)(c := None)\<rparr>)))"

fun net_run :: "(string \<Rightarrow> u64) \<Rightarrow> net \<Rightarrow> net_event list \<Rightarrow> ((nat \<times> string) list \<times> net) res" where
  "net_run h n [] = Inr ([], n)"
| "net_run h n (ev # es) =
     R_bind (net_step h n ev) (\<lambda>(outs, n1).
     R_bind (net_run h n1 es) (\<lambda>(outs', n2). Inr (outs @ outs', n2)))"

section \<open>The protocol on the wire\<close>

datatype command = Api api_call | Reply string | Quit

definition parse_line :: "bool \<Rightarrow> string \<Rightarrow> command" where
  "parse_line active line =
     (case split_ws line of
        [] \<Rightarrow> Reply (''ERR EMPTY_CMD'' @ nl)
      | w # args \<Rightarrow>
          let cmd = upper w
          in if cmd = ''START'' then (if active then Reply (''ERR TXN_ALREADY_STARTED'' @ nl) else Api Begin_txn)
             else if cmd \<in> {''END'', ''QUIT'', ''EXIT''} then Quit
             else if cmd \<notin> {''GET'', ''PUT'', ''COMMIT'', ''ABORT''} then Reply (''ERR BAD_CMD'' @ nl)
             else if \<not> active then Reply (''ERR NO_ACTIVE_TXN'' @ nl)
             else if cmd = ''COMMIT'' then Api Commit_txn
             else if cmd = ''ABORT'' then Api Abort_txn
             else if cmd = ''GET''
             then (case args of [k] \<Rightarrow> Api (Get k) | _ \<Rightarrow> Reply (''ERR USAGE GET <key>'' @ nl))
             else (case args of k # _ # _ \<Rightarrow> Api (Put k (put_value line))
                   | _ \<Rightarrow> Reply (''ERR USAGE PUT <key> <value>'' @ nl)))"

fun print_reply :: "u64 \<Rightarrow> api_call \<Rightarrow> Rc \<Rightarrow> string \<Rightarrow> string" where
  "print_reply i Begin_txn rc v = ''OK TXN '' @ to_string (unat i) @ nl"
| "print_reply i (Get k) rc v = (if rc = Rc_OK then ''OK VALUE '' @ v @ nl else ''ERR NOT_FOUND'' @ nl)"
| "print_reply i (Put k x) rc v = (if rc = Rc_OK then ''OK'' @ nl else ''ERR PUT_FAIL'' @ nl)"
| "print_reply i Commit_txn rc v = (if rc = Rc_OK then ''OK COMMIT'' @ nl else ''ERR ABORT'' @ nl)"
| "print_reply i Abort_txn rc v = ''OK ABORT'' @ nl"

fun txn_after :: "api_call \<Rightarrow> bool" where
  "txn_after Commit_txn = False"
| "txn_after Abort_txn = False"
| "txn_after call = True"

text \<open>The state of the abstract server, with a flag for each connection: is a transaction open?\<close>

record wire =
  w_sys :: asys
  w_conn :: "nat \<Rightarrow> bool option"

definition w_call :: "(string \<Rightarrow> u64) \<Rightarrow> wire \<Rightarrow> nat \<Rightarrow> api_call \<Rightarrow> bool option \<Rightarrow> string \<times> event \<times> wire" where
  "w_call h w c call it =
     (let (rc, v, a) = a_step h (w_sys w) c call
      in (print_reply (a_next (w_sys w)) call rc v, (c, call, rc, v), \<lparr>w_sys = a, w_conn = (w_conn w)(c := it)\<rparr>))"

text \<open>Closing a connection rolls its transaction back.\<close>

definition w_close :: "(string \<Rightarrow> u64) \<Rightarrow> wire \<Rightarrow> nat \<Rightarrow> event list \<times> wire" where
  "w_close h w c =
     (if w_conn w c = Some True then let (r, ev, w1) = w_call h w c Abort_txn None in ([ev], w1)
      else ([], w\<lparr>w_conn := (w_conn w)(c := None)\<rparr>))"

text \<open>The replies, the calls made with their results, and the next state.\<close>

fun w_step :: "(string \<Rightarrow> u64) \<Rightarrow> wire \<Rightarrow> net_event \<Rightarrow> (nat \<times> string) list \<times> event list \<times> wire" where
  "w_step h w (Connect c) =
     (if w_conn w c = None
      then ([(c, ''WELCOME DataAgentDB'' @ nl)], [], w\<lparr>w_conn := (w_conn w)(c \<mapsto> False)\<rparr>)
      else ([], [], w))"
| "w_step h w (Line c line) =
     (case w_conn w c of
        None \<Rightarrow> ([], [], w)
      | Some active \<Rightarrow>
          (case parse_line active line of
             Reply r \<Rightarrow> ([(c, r)], [], w)
           | Api call \<Rightarrow> let (r, ev, w1) = w_call h w c call (Some (txn_after call)) in ([(c, r)], [ev], w1)
           | Quit \<Rightarrow> let (evs, w1) = w_close h w c in ([(c, ''BYE'' @ nl)], evs, w1)))"
| "w_step h w (Lost c) =
     (case w_conn w c of
        None \<Rightarrow> ([], [], w)
      | Some active \<Rightarrow> let (evs, w1) = w_close h w c in ([], evs, w1))"

fun w_run :: "(string \<Rightarrow> u64) \<Rightarrow> wire \<Rightarrow> net_event list \<Rightarrow> (nat \<times> string) list \<times> event list \<times> wire" where
  "w_run h w [] = ([], [], w)"
| "w_run h w (e # es) =
     (let (outs, evs, w1) = w_step h w e; (outs', evs', w2) = w_run h w1 es
      in (outs @ outs', evs @ evs', w2))"

text \<open>
  Which calls a sequence of events leads to does not depend on the database: whether a connection
  has a transaction open follows from its own lines.
\<close>

fun w_calls1 :: "(nat \<Rightarrow> bool option) \<Rightarrow> net_event \<Rightarrow> (nat \<times> api_call) list \<times> (nat \<Rightarrow> bool option)" where
  "w_calls1 cn (Connect c) = ([], if cn c = None then cn(c \<mapsto> False) else cn)"
| "w_calls1 cn (Line c line) =
     (case cn c of
        None \<Rightarrow> ([], cn)
      | Some active \<Rightarrow>
          (case parse_line active line of
             Reply r \<Rightarrow> ([], cn)
           | Api call \<Rightarrow> ([(c, call)], cn(c \<mapsto> txn_after call))
           | Quit \<Rightarrow> (if active then [(c, Abort_txn)] else [], cn(c := None))))"
| "w_calls1 cn (Lost c) =
     (case cn c of None \<Rightarrow> ([], cn) | Some active \<Rightarrow> (if active then [(c, Abort_txn)] else [], cn(c := None)))"

fun w_calls :: "(nat \<Rightarrow> bool option) \<Rightarrow> net_event list \<Rightarrow> (nat \<times> api_call) list" where
  "w_calls cn [] = []"
| "w_calls cn (e # es) = (let (cs, cn1) = w_calls1 cn e in cs @ w_calls cn1 es)"

section \<open>The session implements the protocol\<close>

definition call_api ::
    "(string \<Rightarrow> u64) \<Rightarrow> engine \<Rightarrow> TxnHandle \<Rightarrow> api_call \<Rightarrow> (Rc \<times> string \<times> engine \<times> TxnHandle) res" where
  "call_api h e th call =
     R_bind (api_step h \<lparr>eng = e, handles = (\<lambda>_. th)\<rparr> 0 call) (\<lambda>(rc, v, y). Inr (rc, v, eng y, handles y 0))"

lemma call_api_simps:
  "call_api h e th Begin_txn = (let (rc, e1, th1) = begin_txn e th in Inr (rc, [], e1, th1))"
  "call_api h e th (Get k) = get h e th k []"
  "call_api h e th (Put k x) = R_bind (put h e th k x) (\<lambda>(rc, e1, th1). Inr (rc, [], e1, th1))"
  "call_api h e th Commit_txn = R_bind (commit e th) (\<lambda>(rc, e1, th1). Inr (rc, [], e1, th1))"
  "call_api h e th Abort_txn = R_bind (abort_txn e th) (\<lambda>(rc, e1, th1). Inr (rc, [], e1, th1))"
  by (cases "get h e th k []"; auto simp: call_api_def R_bind_assoc Let_def split: prod.splits intro!: R_bind_cong)+

lemma api_step_call_api:
  "api_step h y c call = R_bind (call_api h (eng y) (handles y c) call) (\<lambda>(rc, v, e, th).
     Inr (rc, v, \<lparr>eng = e, handles = (handles y)(c := th)\<rparr>))"
  by (cases call) (auto simp: call_api_simps Let_def R_bind_assoc split: prod.splits intro!: R_bind_cong)

text \<open>What a call leaves in its handle, by the contract of the engine.\<close>

lemma call_api_active:
  assumes "call_api h e th call = Inr (rc, v, e1, th1)" and "impl th \<noteq> None \<or> call = Begin_txn"
  shows "impl th1 \<noteq> None \<longleftrightarrow> txn_after call"
proof (cases call)
  case Begin_txn
  then show ?thesis using assms(1) by (auto simp: call_api_simps begin_txn_def Let_def split: prod.splits)
next
  case (Get k)
  then show ?thesis
    using assms engine_api.get_law [of h e th k "[]" rc v e1 th1] by (simp add: call_api_simps engine_ops_def)
next
  case (Put k x)
  then show ?thesis
    using assms engine_api.put_law [of h e th k x rc e1 th1] by (auto simp: call_api_simps engine_ops_def R_bind_Inr_iff)
next
  case Commit_txn
  then show ?thesis
    using assms engine_api.commit_law [of h e th rc e1 th1] by (auto simp: call_api_simps engine_ops_def R_bind_Inr_iff)
next
  case Abort_txn
  then show ?thesis
    using assms engine_api.abort_law [of h e th rc e1 th1] by (auto simp: call_api_simps engine_ops_def R_bind_Inr_iff)
qed

text \<open>
  The body of the command loop is the parser, followed by the engine and the printer. \<open>run_call\<close> is what
  a command that is a call does.
\<close>

definition run_call ::
    "(string \<Rightarrow> u64) \<Rightarrow> engine \<Rightarrow> TxnHandle \<Rightarrow> api_call \<Rightarrow> (string \<times> bool \<times> engine \<times> TxnHandle session) res" where
  "run_call h e th call =
     R_bind (call_api h e th call) (\<lambda>(rc, v, e1, th1).
       Inr (print_reply (g_txn_id e) call rc v, True, e1, \<lparr>tx = th1, in_txn = txn_after call\<rparr>))"

lemma run_begin: "run_call h e th Begin_txn =
    (let (rc, e1, th1) = begin_txn e th
     in Inr (''OK TXN '' @ to_string (unat (h_id th1)) @ nl, True, e1, \<lparr>tx = th1, in_txn = True\<rparr>))"
  by (simp add: run_call_def call_api_simps begin_txn_def Let_def split: prod.splits)

lemma run_get:
  assumes "impl th \<noteq> None"
  shows "run_call h e th (Get k) = R_bind (get h e th k []) (\<lambda>(rc, val, e1, th1).
     if rc = Rc_OK then Inr (''OK VALUE '' @ val @ nl, True, e1, \<lparr>tx = th1, in_txn = True\<rparr>)
     else if rc = Rc_NOT_FOUND then Inr (''ERR NOT_FOUND'' @ nl, True, e1, \<lparr>tx = th1, in_txn = True\<rparr>)
     else if rc = Rc_ABORT then Inr (''ERR ABORT'' @ nl, True, e1, \<lparr>tx = th1, in_txn = False\<rparr>)
     else Inr (''ERR GET_FAIL'' @ nl, True, e1, \<lparr>tx = th1, in_txn = True\<rparr>))"
proof (cases "get h e th k []")
  case (Inr r)
  obtain rc v e1 th1 where r: "r = (rc, v, e1, th1)" by (cases r)
  have "rc = Rc_OK \<or> rc = Rc_NOT_FOUND"
    using engine_api.get_law [of h e th k "[]" rc v e1 th1] Inr r assms by (simp add: engine_ops_def)
  then show ?thesis using Inr r by (auto simp: run_call_def call_api_simps)
qed (simp add: run_call_def call_api_simps)

lemma run_put:
  assumes "impl th \<noteq> None"
  shows "run_call h e th (Put k x) = R_bind (put h e th k x) (\<lambda>(rc, e1, th1).
     if rc = Rc_OK then Inr (''OK'' @ nl, True, e1, \<lparr>tx = th1, in_txn = True\<rparr>)
     else if rc = Rc_ABORT then Inr (''ERR ABORT'' @ nl, True, e1, \<lparr>tx = th1, in_txn = False\<rparr>)
     else Inr (''ERR PUT_FAIL'' @ nl, True, e1, \<lparr>tx = th1, in_txn = True\<rparr>))"
proof (cases "put h e th k x")
  case (Inr r)
  obtain rc e1 th1 where r: "r = (rc, e1, th1)" by (cases r)
  have "rc = Rc_OK \<or> rc = Rc_ERROR"
    using engine_api.put_law [of h e th k x rc e1 th1] Inr r assms by (simp add: engine_ops_def)
  then show ?thesis using Inr r by (auto simp: run_call_def call_api_simps)
qed (simp add: run_call_def call_api_simps)

lemma run_commit:
  assumes "impl th \<noteq> None"
  shows "run_call h e th Commit_txn = R_bind (commit e th) (\<lambda>(rc, e1, th1).
     Inr (if rc = Rc_OK then ''OK COMMIT'' @ nl else if rc = Rc_ABORT then ''ERR ABORT'' @ nl
          else ''ERR COMMIT_FAIL'' @ nl, True, e1, \<lparr>tx = th1, in_txn = False\<rparr>))"
proof (cases "commit e th")
  case (Inr r)
  obtain rc e1 th1 where r: "r = (rc, e1, th1)" by (cases r)
  have "rc = Rc_OK \<or> rc = Rc_ABORT"
    using engine_api.commit_law [of h e th rc e1 th1] Inr r assms by (simp add: engine_ops_def)
  then show ?thesis using Inr r by (auto simp: run_call_def call_api_simps)
qed (simp add: run_call_def call_api_simps)

lemma run_abort: "run_call h e th Abort_txn = R_bind (abort_txn e th) (\<lambda>(rc, e1, th1).
     Inr (''OK ABORT'' @ nl, True, e1, \<lparr>tx = th1, in_txn = False\<rparr>))"
  by (cases "abort_txn e th") (auto simp: run_call_def call_api_simps)

lemma ss_update: "in_txn ss = b \<Longrightarrow> ss\<lparr>tx := th\<rparr> = \<lparr>tx = th, in_txn = b\<rparr>"
  by (cases ss) simp

definition close_txn :: "engine \<Rightarrow> TxnHandle session \<Rightarrow> (Rc \<times> engine \<times> TxnHandle) res" where
  "close_txn e ss = (if in_txn ss then abort_txn e (tx ss) else Inr (Rc_OK, e, tx ss))"

lemma session_line_spec:
  assumes "in_txn ss \<longleftrightarrow> impl (tx ss) \<noteq> None"
  shows "session_line (engine_ops h) e ss line =
    (case parse_line (in_txn ss) line of
       Reply r \<Rightarrow> Inr (r, True, e, ss)
     | Api call \<Rightarrow> run_call h e (tx ss) call
     | Quit \<Rightarrow> R_bind (close_txn e ss) (\<lambda>(rc, e1, th1). Inr (''BYE'' @ nl, False, e1, \<lparr>tx = th1, in_txn = False\<rparr>)))"
proof (cases "split_ws line")
  case Nil
  then show ?thesis by (simp add: session_line_def parse_line_def)
next
  case (Cons w args)
  let ?cmd = "upper w"
  consider "?cmd = ''START''" | "?cmd = ''GET''" | "?cmd = ''PUT''" | "?cmd = ''COMMIT''" | "?cmd = ''ABORT''"
    | "?cmd \<in> {''END'', ''QUIT'', ''EXIT''}"
    | "?cmd \<notin> {''START'', ''GET'', ''PUT'', ''COMMIT'', ''ABORT'', ''END'', ''QUIT'', ''EXIT''}" by blast
  then show ?thesis
  proof cases
    case 1
    then show ?thesis
      using Cons by (simp add: session_line_def parse_line_def run_begin engine_ops_def begin_txn_def Let_def split: prod.splits)
  next
    case 2
    then show ?thesis
    proof (cases "in_txn ss \<and> length args = 1")
      case True
      then obtain k where k: "args = [k]" by (cases args) auto
      have "impl (tx ss) \<noteq> None" using True assms by blast
      moreover have "\<And>th. ss\<lparr>tx := th\<rparr> = \<lparr>tx = th, in_txn = True\<rparr>" using True by (simp add: ss_update)
      ultimately show ?thesis
        using 2 Cons k True
        by (cases "get h e (tx ss) k []") (auto simp: session_line_def parse_line_def run_get engine_ops_def)
    next
      case False
      then show ?thesis
        using 2 Cons by (cases "in_txn ss") (auto simp: session_line_def parse_line_def Let_def split: list.splits)
    qed
  next
    case 3
    then show ?thesis
    proof (cases "in_txn ss \<and> 2 \<le> length args")
      case True
      then obtain k x xs where k: "args = k # x # xs" by (cases args; cases "tl args") auto
      have "impl (tx ss) \<noteq> None" using True assms by blast
      moreover have "\<And>th. ss\<lparr>tx := th\<rparr> = \<lparr>tx = th, in_txn = True\<rparr>" using True by (simp add: ss_update)
      ultimately show ?thesis
        using 3 Cons k True
        by (cases "put h e (tx ss) k (put_value line)") (auto simp: session_line_def parse_line_def run_put engine_ops_def)
    next
      case False
      then show ?thesis
        using 3 Cons by (cases "in_txn ss") (auto simp: session_line_def parse_line_def Let_def split: list.splits)
    qed
  next
    case 4
    then show ?thesis
      using Cons assms by (cases "in_txn ss") (simp_all add: session_line_def parse_line_def run_commit engine_ops_def)
  next
    case 5
    then show ?thesis
      using Cons by (cases "in_txn ss") (simp_all add: session_line_def parse_line_def run_abort engine_ops_def)
  next
    case 6
    then have "parse_line (in_txn ss) line = Quit" using Cons by (auto simp: parse_line_def)
    then show ?thesis using 6 Cons by (auto simp: session_line_def close_txn_def engine_ops_def)
  next
    case 7
    then show ?thesis using Cons by (simp add: session_line_def parse_line_def)
  qed
qed

section \<open>The server refines the protocol\<close>

definition net_sys :: "net \<Rightarrow> sys" where
  "net_sys n = \<lparr>eng = n_eng n, handles = (\<lambda>c. case n_conn n c of None \<Rightarrow> handle_init | Some ss \<Rightarrow> tx ss)\<rparr>"

definition conns :: "net \<Rightarrow> nat \<Rightarrow> bool option" where
  "conns n = (\<lambda>c. map_option in_txn (n_conn n c))"

definition abs_net :: "net \<Rightarrow> wire" where
  "abs_net n = \<lparr>w_sys = abs_sys (net_sys n), w_conn = conns n\<rparr>"

text \<open>The invariant: the engine is well-formed, and each session's flag agrees with its handle.\<close>

definition wf_net :: "net \<Rightarrow> bool" where
  "wf_net n \<longleftrightarrow> wf_sys (net_sys n) \<and> (\<forall>c ss. n_conn n c = Some ss \<longrightarrow> in_txn ss = (impl (tx ss) \<noteq> None))"

lemma sys_cong:
  assumes "eng y = eng z" and "\<And>c. impl (handles y c) = impl (handles z c)"
  shows "wf_sys y = wf_sys z" and "abs_sys y = abs_sys z"
  using assms by (simp_all add: wf_sys_def abs_sys_def)

lemma net_sys_simps [simp]:
  "eng (net_sys n) = n_eng n" "n_conn n c = Some ss \<Longrightarrow> handles (net_sys n) c = tx ss"
  "n_conn n c = None \<Longrightarrow> handles (net_sys n) c = handle_init"
  by (simp_all add: net_sys_def)

lemma handle_init_impl [simp]: "impl handle_init = None"
  by (simp add: handle_init_def)

lemma conns_upd [simp]: "conns (\<lparr>n_eng = e, n_conn = f(c := x)\<rparr>) = (conns \<lparr>n_eng = e', n_conn = f\<rparr>)(c := map_option in_txn x)"
  by (auto simp: conns_def)

lemma conns_eta [simp]: "conns \<lparr>n_eng = e, n_conn = n_conn n\<rparr> = conns n"
  by (simp add: conns_def)

text \<open>The state after a call of connection \<open>c\<close>: its session is updated or gone.\<close>

definition session_after :: "TxnHandle \<Rightarrow> TxnHandle session option \<Rightarrow> bool" where
  "session_after th it \<longleftrightarrow> (case it of None \<Rightarrow> impl th = None
     | Some ss \<Rightarrow> tx ss = th \<and> in_txn ss = (impl th \<noteq> None))"

lemma net_change:
  assumes "wf_net n" and "session_after th it" and "wf_sys y"
    and "y = \<lparr>eng = e, handles = (handles (net_sys n))(c := th)\<rparr>"
  shows "wf_net \<lparr>n_eng = e, n_conn = (n_conn n)(c := it)\<rparr>"
    and "abs_net \<lparr>n_eng = e, n_conn = (n_conn n)(c := it)\<rparr> =
      \<lparr>w_sys = abs_sys y, w_conn = (conns n)(c := map_option in_txn it)\<rparr>"
proof -
  let ?n = "\<lparr>n_eng = e, n_conn = (n_conn n)(c := it)\<rparr>"
  have "impl (handles (net_sys ?n) d) = impl (handles y d)" for d
    using assms(2,4) by (auto simp: net_sys_def session_after_def split: option.splits)
  moreover have "eng (net_sys ?n) = eng y" using assms(4) by simp
  ultimately have "wf_sys (net_sys ?n) = wf_sys y" "abs_sys (net_sys ?n) = abs_sys y"
    using sys_cong [of "net_sys ?n" y] by auto
  then show "wf_net ?n"
    "abs_net ?n = \<lparr>w_sys = abs_sys y, w_conn = (conns n)(c := map_option in_txn it)\<rparr>"
    using assms(1-3) by (auto simp: wf_net_def abs_net_def conns_def session_after_def fun_eq_iff split: option.splits)
qed

lemma net_call:
  assumes wf: "wf_net n" and c: "n_conn n c = Some ss" and act: "in_txn ss \<or> call = Begin_txn"
    and ok: "a_ok h (abs_sys (net_sys n)) c call"
  obtains rc v e th a where "call_api h (n_eng n) (tx ss) call = Inr (rc, v, e, th)"
    "a_step h (abs_sys (net_sys n)) c call = (rc, v, a)" "impl th \<noteq> None \<longleftrightarrow> txn_after call"
    "\<And>it. session_after th it \<Longrightarrow> wf_net \<lparr>n_eng = e, n_conn = (n_conn n)(c := it)\<rparr> \<and>
      abs_net \<lparr>n_eng = e, n_conn = (n_conn n)(c := it)\<rparr> = \<lparr>w_sys = a, w_conn = (conns n)(c := map_option in_txn it)\<rparr>"
proof -
  have "wf_sys (net_sys n)" using wf by (simp add: wf_net_def)
  from api_step_ok [OF this ok] obtain rc v y where y: "api_step h (net_sys n) c call = Inr (rc, v, y)"
    "wf_sys y" "a_step h (abs_sys (net_sys n)) c call = (rc, v, abs_sys y)"
    unfolding refines_def by blast
  then obtain e th where call: "call_api h (n_eng n) (tx ss) call = Inr (rc, v, e, th)"
    "y = \<lparr>eng = e, handles = (handles (net_sys n))(c := th)\<rparr>"
    using c by (auto simp: api_step_call_api R_bind_Inr_iff)
  have "impl (tx ss) \<noteq> None \<or> call = Begin_txn" using act wf c by (auto simp: wf_net_def)
  note after = call_api_active [OF call(1) this]
  show ?thesis
    using that [OF call(1) y(3) after] net_change [OF wf _ y(2) call(2)] by blast
qed

lemma net_call_line:
  assumes wf: "wf_net n" and c: "n_conn n c = Some ss" and act: "in_txn ss \<or> call = Begin_txn"
    and ok: "a_ok h (abs_sys (net_sys n)) c call"
  shows "\<exists>r ev e ss'. run_call h (n_eng n) (tx ss) call = Inr (r, True, e, ss') \<and>
    wf_net \<lparr>n_eng = e, n_conn = (n_conn n)(c \<mapsto> ss')\<rparr> \<and>
    w_call h (abs_net n) c call (Some (txn_after call)) = (r, ev, abs_net \<lparr>n_eng = e, n_conn = (n_conn n)(c \<mapsto> ss')\<rparr>)"
proof -
  obtain rc v e th a where call: "call_api h (n_eng n) (tx ss) call = Inr (rc, v, e, th)"
    "a_step h (abs_sys (net_sys n)) c call = (rc, v, a)" "impl th \<noteq> None \<longleftrightarrow> txn_after call"
    "\<And>it. session_after th it \<Longrightarrow> wf_net \<lparr>n_eng = e, n_conn = (n_conn n)(c := it)\<rparr> \<and>
      abs_net \<lparr>n_eng = e, n_conn = (n_conn n)(c := it)\<rparr> = \<lparr>w_sys = a, w_conn = (conns n)(c := map_option in_txn it)\<rparr>"
    by (rule net_call [OF assms]) blast
  have "session_after th (Some \<lparr>tx = th, in_txn = txn_after call\<rparr>)" using call(3) by (simp add: session_after_def)
  from call(4) [OF this] show ?thesis
    using call(1,2) by (simp add: run_call_def w_call_def abs_net_def)
qed

text \<open>Ending a connection.\<close>

lemma net_close:
  assumes wf: "wf_net n" and c: "n_conn n c = Some ss"
    and ok: "in_txn ss \<Longrightarrow> a_ok h (abs_sys (net_sys n)) c Abort_txn"
  shows "\<exists>rc e th evs. close_txn (n_eng n) ss = Inr (rc, e, th) \<and>
    wf_net \<lparr>n_eng = e, n_conn = (n_conn n)(c := None)\<rparr> \<and>
    w_close h (abs_net n) c = (evs, abs_net \<lparr>n_eng = e, n_conn = (n_conn n)(c := None)\<rparr>)"
proof (cases "in_txn ss")
  case True
  obtain rc v e th a where call: "call_api h (n_eng n) (tx ss) Abort_txn = Inr (rc, v, e, th)"
    "a_step h (abs_sys (net_sys n)) c Abort_txn = (rc, v, a)" "impl th \<noteq> None \<longleftrightarrow> txn_after Abort_txn"
    "\<And>it. session_after th it \<Longrightarrow> wf_net \<lparr>n_eng = e, n_conn = (n_conn n)(c := it)\<rparr> \<and>
      abs_net \<lparr>n_eng = e, n_conn = (n_conn n)(c := it)\<rparr> = \<lparr>w_sys = a, w_conn = (conns n)(c := map_option in_txn it)\<rparr>"
    by (rule net_call [OF wf c disjI1 [OF True] ok [OF True]]) blast
  have "session_after th None" using call(3) by (simp add: session_after_def)
  from call(4) [OF this] show ?thesis
    using call(1,2) True c by (auto simp: close_txn_def call_api_simps R_bind_Inr_iff w_close_def w_call_def abs_net_def conns_def)
next
  case False
  have "session_after (tx ss) None" using wf c False by (auto simp: wf_net_def session_after_def)
  moreover have "net_sys n = \<lparr>eng = n_eng n, handles = (handles (net_sys n))(c := tx ss)\<rparr>"
    using c by (auto simp: net_sys_def)
  moreover have "wf_sys (net_sys n)" using wf by (simp add: wf_net_def)
  ultimately show ?thesis
    using net_change [OF wf, of "tx ss" None "net_sys n" "n_eng n" c] False c
    by (auto simp: close_txn_def w_close_def abs_net_def conns_def)
qed

lemma net_upd: "n\<lparr>n_conn := f\<rparr> = \<lparr>n_eng = n_eng n, n_conn = f\<rparr>"
  by (cases n) simp

lemma net_eta [simp]: "\<lparr>n_eng = n_eng n, n_conn = n_conn n\<rparr> = n"
  by (cases n) simp

lemma net_open:
  assumes wf: "wf_net n" and c: "n_conn n c = None"
  shows "wf_net (n\<lparr>n_conn := (n_conn n)(c \<mapsto> \<lparr>tx = handle_init, in_txn = False\<rparr>)\<rparr>)"
    and "abs_net (n\<lparr>n_conn := (n_conn n)(c \<mapsto> \<lparr>tx = handle_init, in_txn = False\<rparr>)\<rparr>) =
      \<lparr>w_sys = w_sys (abs_net n), w_conn = (w_conn (abs_net n))(c \<mapsto> False)\<rparr>"
proof -
  let ?ss = "\<lparr>tx = handle_init, in_txn = False\<rparr>"
  have "net_sys n = \<lparr>eng = n_eng n, handles = (handles (net_sys n))(c := handle_init)\<rparr>"
    using c by (auto simp: net_sys_def)
  moreover have "session_after handle_init (Some ?ss)" by (simp add: session_after_def)
  moreover have "wf_sys (net_sys n)" using wf by (simp add: wf_net_def)
  ultimately show "wf_net (n\<lparr>n_conn := (n_conn n)(c \<mapsto> ?ss)\<rparr>)"
    "abs_net (n\<lparr>n_conn := (n_conn n)(c \<mapsto> ?ss)\<rparr>) =
      \<lparr>w_sys = w_sys (abs_net n), w_conn = (w_conn (abs_net n))(c \<mapsto> False)\<rparr>"
    using net_change [OF wf, of handle_init "Some ?ss" "net_sys n" "n_eng n" c]
    by (simp_all add: abs_net_def net_upd)
qed

lemma parse_line_call:
  "parse_line active line = Api call \<Longrightarrow> active \<or> call = Begin_txn"
  by (auto simp: parse_line_def Let_def split: list.splits if_splits)

lemma close_op: "(if in_txn ss then op_abort (engine_ops h) e (tx ss) else Inr (Rc_OK, e, tx ss)) = close_txn e ss"
  by (simp add: close_txn_def engine_ops_def)

lemma net_step_ok:
  assumes wf: "wf_net n" and ok: "a_oks h (abs_sys (net_sys n)) (fst (w_calls1 (conns n) ev))"
  shows "\<exists>outs evs n'. net_step h n ev = Inr (outs, n') \<and> wf_net n' \<and> w_step h (abs_net n) ev = (outs, evs, abs_net n')"
proof (cases ev)
  case (Connect c)
  show ?thesis
  proof (cases "n_conn n c")
    case None
    then show ?thesis using Connect net_open [OF wf None] by (simp add: abs_net_def conns_def)
  next
    case (Some ss)
    then show ?thesis using Connect wf by (simp add: abs_net_def conns_def)
  qed
next
  case (Line c line)
  show ?thesis
  proof (cases "n_conn n c")
    case None
    then show ?thesis using Line wf by (simp add: abs_net_def conns_def)
  next
    case (Some ss)
    have cn: "conns n c = Some (in_txn ss)" "w_conn (abs_net n) c = Some (in_txn ss)"
      using Some by (simp_all add: abs_net_def conns_def)
    have flag: "in_txn ss = (impl (tx ss) \<noteq> None)" using wf Some by (simp add: wf_net_def)
    show ?thesis
    proof (cases "parse_line (in_txn ss) line")
      case (Api call)
      then have "a_ok h (abs_sys (net_sys n)) c call" using ok Line cn by simp
      from net_call_line [OF wf Some parse_line_call [OF Api] this] show ?thesis
        using Line Some Api cn session_line_spec [OF flag] by auto
    next
      case (Reply r)
      moreover have "(n_conn n)(c \<mapsto> ss) = n_conn n" using Some by auto
      ultimately show ?thesis using Line Some cn wf session_line_spec [OF flag] by auto
    next
      case Quit
      then have "in_txn ss \<Longrightarrow> a_ok h (abs_sys (net_sys n)) c Abort_txn" using ok Line cn by simp
      from net_close [OF wf Some this] show ?thesis
        using Line Some Quit cn session_line_spec [OF flag] by auto
    qed
  qed
next
  case (Lost c)
  show ?thesis
  proof (cases "n_conn n c")
    case None
    then show ?thesis using Lost wf by (simp add: abs_net_def conns_def)
  next
    case (Some ss)
    have cn: "conns n c = Some (in_txn ss)" "w_conn (abs_net n) c = Some (in_txn ss)"
      using Some by (simp_all add: abs_net_def conns_def)
    then have "in_txn ss \<Longrightarrow> a_ok h (abs_sys (net_sys n)) c Abort_txn" using ok Lost by simp
    from net_close [OF wf Some this] show ?thesis
      using Lost Some cn by (auto simp: close_op)
  qed
qed

text \<open>The calls an event makes are the abstract steps of the specification.\<close>

lemma w_step_calls:
  assumes "w_step h w ev = (outs, evs, w')"
  shows "a_run h (w_sys w) (fst (w_calls1 (w_conn w) ev)) = (evs, w_sys w') \<and> w_conn w' = snd (w_calls1 (w_conn w) ev)"
proof (cases ev)
  case (Connect c)
  then show ?thesis using assms by (auto split: if_splits)
next
  case (Line c line)
  show ?thesis
  proof (cases "w_conn w c")
    case None
    then show ?thesis using assms Line by simp
  next
    case (Some active)
    then show ?thesis
      using assms Line by (cases "parse_line active line")
        (auto simp: w_call_def w_close_def Let_def split: prod.splits if_splits)
  qed
next
  case (Lost c)
  then show ?thesis
    using assms by (auto simp: w_call_def w_close_def Let_def split: option.splits command.splits prod.splits if_splits)
qed

lemma w_run_calls:
  "w_run h w es = (outs, evs, w') \<Longrightarrow> a_run h (w_sys w) (w_calls (w_conn w) es) = (evs, w_sys w')"
proof (induction es arbitrary: w outs evs w')
  case (Cons e es)
  obtain o1 e1 w1 where s: "w_step h w e = (o1, e1, w1)" by (rule prod_cases3)
  obtain o2 e2 w2 where r: "w_run h w1 es = (o2, e2, w2)" by (rule prod_cases3)
  have "evs = e1 @ e2" "w' = w2" using Cons.prems s r by auto
  then show ?case
    using w_step_calls [OF s] Cons.IH [OF r] by (auto simp: a_run_append Let_def split: prod.splits)
qed simp

lemma net_run_ok:
  assumes "wf_net n" and "a_oks h (abs_sys (net_sys n)) (w_calls (conns n) es)"
  shows "\<exists>outs evs n'. net_run h n es = Inr (outs, n') \<and> wf_net n' \<and> w_run h (abs_net n) es = (outs, evs, abs_net n')"
  using assms
proof (induction es arbitrary: n)
  case Nil
  then show ?case by simp
next
  case (Cons e es)
  have split: "w_calls (conns n) (e # es) = fst (w_calls1 (conns n) e) @ w_calls (snd (w_calls1 (conns n) e)) es"
    by (simp add: Let_def split: prod.splits)
  then have ok: "a_oks h (abs_sys (net_sys n)) (fst (w_calls1 (conns n) e))"
    "a_oks h (snd (a_run h (abs_sys (net_sys n)) (fst (w_calls1 (conns n) e)))) (w_calls (snd (w_calls1 (conns n) e)) es)"
    using Cons.prems(2) by (simp_all add: a_oks_append)
  from net_step_ok [OF Cons.prems(1) ok(1)] obtain o1 e1 n1 where s: "net_step h n e = Inr (o1, n1)" "wf_net n1"
    "w_step h (abs_net n) e = (o1, e1, abs_net n1)" by blast
  have "snd (a_run h (abs_sys (net_sys n)) (fst (w_calls1 (conns n) e))) = abs_sys (net_sys n1)"
    "snd (w_calls1 (conns n) e) = conns n1"
    using w_step_calls [OF s(3)] by (simp_all add: abs_net_def)
  then have "a_oks h (abs_sys (net_sys n1)) (w_calls (conns n1) es)" using ok(2) by simp
  from Cons.IH [OF s(2) this] show ?case using s by auto
qed

text \<open>
  C13. The server as clients see it, refinement: any interleaving of lines of any number of connections
  (connecting, commands in any state, malformed lines, closing with or without \<open>QUIT\<close>) that makes only
  calls the protocol covers is processed without a fault, every reply and the final state are those
  of the abstract server, and the invariant is kept: a connection's flag agrees with its transaction.
  Covered are calls with room in the arrays of the transaction, a clock that does not wrap, and no
  rollback of an insert, by \<open>ABORT\<close>, by a refused \<open>COMMIT\<close> or by closing (\<open>a_oks\<close> on \<open>w_calls\<close>).
\<close>

theorem wire_refines:
  assumes "wf_net n" and "a_oks h (abs_sys (net_sys n)) (w_calls (conns n) es)"
  shows "\<exists>outs evs n'. net_run h n es = Inr (outs, n') \<and> wf_net n' \<and> w_run h (abs_net n) es = (outs, evs, abs_net n')"
  using assms by (rule net_run_ok)

text \<open>The engine as it starts, with nobody connected, and two clients that race for row 3.\<close>

definition demo_net :: net where
  "demo_net = \<lparr>n_eng = eng demo_start, n_conn = Map.empty\<rparr>"

lemma demo_net_ok:
  "wf_net demo_net" "abs_net demo_net = \<lparr>w_sys = demo_abs, w_conn = Map.empty\<rparr>" "conns demo_net = Map.empty"
proof -
  have "wf_sys (net_sys demo_net) = wf_sys demo_start" "abs_sys (net_sys demo_net) = abs_sys demo_start"
    using sys_cong [of "net_sys demo_net" demo_start] demo_start_ok(3) by (simp_all add: demo_net_def)
  then show "wf_net demo_net" "abs_net demo_net = \<lparr>w_sys = demo_abs, w_conn = Map.empty\<rparr>"
    using demo_start_ok(1,2) by (simp_all add: wf_net_def abs_net_def conns_def) (simp_all add: demo_net_def)
  show "conns demo_net = Map.empty" by (simp add: conns_def demo_net_def)
qed

definition demo_lines :: "net_event list" where
  "demo_lines = [Connect 0, Connect 1, Line 0 ''START'', Line 1 ''start'', Line 0 ''GET 3'', Line 0 ''PUT 3 x'',
     Line 1 ''GET 3'', Line 1 ''PUT 4 x'', Line 0 ''COMMIT'', Line 1 ''COMMIT'', Line 0 ''QUIT'', Line 1 ''HELLO'',
     Line 1 ''START'', Line 1 ''GET 3'', Lost 1]"

lemma demo_parse:
  "parse_line False ''START'' = Api Begin_txn" "parse_line False ''start'' = Api Begin_txn"
  "parse_line True ''GET 3'' = Api (Get ''3'')" "parse_line True ''PUT 3 x'' = Api (Put ''3'' ''x'')"
  "parse_line True ''PUT 4 x'' = Api (Put ''4'' ''x'')" "parse_line True ''COMMIT'' = Api Commit_txn"
  "parse_line False ''QUIT'' = Quit" "parse_line False ''HELLO'' = Reply (''ERR BAD_CMD'' @ nl)"
  by code_simp+

lemma demo_numbers: "to_string (Suc 0) = ''1''" "to_string 2 = ''2''" "to_string 3 = ''3''"
  by code_simp+

lemma demo_line_calls: "w_calls Map.empty demo_lines = [(0, Begin_txn), (1, Begin_txn), (0, Get ''3''),
     (0, Put ''3'' ''x''), (1, Get ''3''), (1, Put ''4'' ''x''), (0, Commit_txn), (1, Commit_txn), (1, Begin_txn),
     (1, Get ''3''), (1, Abort_txn)]"
  by (simp add: demo_lines_def demo_parse Let_def)

lemma demo_lines_oks: "a_oks demo_hash demo_abs (w_calls Map.empty demo_lines)"
  by (rule serial_oks) (auto simp: demo_abs_def demo_line_calls updates_only_def demo_simps MAX_ROW_PER_TXN_def)

lemma demo_wire:
  "fst (w_run demo_hash \<lparr>w_sys = demo_abs, w_conn = Map.empty\<rparr> demo_lines) =
    [(0, ''WELCOME DataAgentDB'' @ nl), (1, ''WELCOME DataAgentDB'' @ nl), (0, ''OK TXN 1'' @ nl), (1, ''OK TXN 2'' @ nl),
     (0, ''OK VALUE 3'' @ nl), (0, ''OK'' @ nl), (1, ''OK VALUE 3'' @ nl), (1, ''OK'' @ nl), (0, ''OK COMMIT'' @ nl),
     (1, ''ERR ABORT'' @ nl), (0, ''BYE'' @ nl), (1, ''ERR BAD_CMD'' @ nl), (1, ''OK TXN 3'' @ nl), (1, ''OK VALUE x'' @ nl)]"
  by (simp add: demo_lines_def demo_parse w_call_def w_close_def demo_eval demo_numbers)

theorem wire_refines_witness:
  "\<exists>n'. wf_net n' \<and> net_run demo_hash demo_net demo_lines = Inr
    ([(0, ''WELCOME DataAgentDB'' @ nl), (1, ''WELCOME DataAgentDB'' @ nl), (0, ''OK TXN 1'' @ nl), (1, ''OK TXN 2'' @ nl),
      (0, ''OK VALUE 3'' @ nl), (0, ''OK'' @ nl), (1, ''OK VALUE 3'' @ nl), (1, ''OK'' @ nl), (0, ''OK COMMIT'' @ nl),
      (1, ''ERR ABORT'' @ nl), (0, ''BYE'' @ nl), (1, ''ERR BAD_CMD'' @ nl), (1, ''OK TXN 3'' @ nl), (1, ''OK VALUE x'' @ nl)], n')"
proof -
  have "w_sys (abs_net demo_net) = abs_sys (net_sys demo_net)" by (simp add: abs_net_def)
  then have "a_oks demo_hash (abs_sys (net_sys demo_net)) (w_calls (conns demo_net) demo_lines)"
    using demo_lines_oks demo_net_ok(2,3) by simp
  from wire_refines [OF demo_net_ok(1) this] show ?thesis
    using demo_wire by (auto simp only: demo_net_ok(2) fst_conv)
qed

text \<open>
  Serializability on the wire: from a server nobody is connected to, whatever lines the clients send
  in whatever interleaving, as long as the \<open>PUT\<close> lines name existing keys and a transaction has at
  most \<open>MAX_ROW_PER_TXN\<close> reads and writes, the server answers every line, and the operations the
  replies report as successful in the transactions whose \<open>COMMIT\<close> was acknowledged, executed one
  transaction after the other in commit order, return the same values and end in the same contents.
\<close>

lemma net_serializable:
  assumes "wf_net n" and "n_conn n = Map.empty" and "updates_only h (db_view (st (n_eng n))) (w_calls Map.empty es)"
    and "calls_bounded (\<lambda>_. 0) (w_calls Map.empty es)"
    and "unat (timestamp (st (n_eng n))) + length (w_calls Map.empty es) < 2 ^ 64"
  shows "\<exists>outs evs n'. net_run h n es = Inr (outs, n') \<and> w_run h (abs_net n) es = (outs, evs, abs_net n') \<and>
    serial_run h (committed_ops evs) (content (db_view (st (n_eng n)))) = Some (content (db_view (st (n_eng n'))))"
proof -
  have none: "\<forall>c. a_txns (abs_sys (net_sys n)) c = None" and cn: "conns n = Map.empty"
    using assms(2) by (simp_all add: conns_def)
  have oks: "a_oks h (abs_sys (net_sys n)) (w_calls (conns n) es)"
    by (rule serial_oks [OF none]) (use assms(3-5) cn in simp_all)
  obtain outs evs n' where r: "net_run h n es = Inr (outs, n')" "w_run h (abs_net n) es = (outs, evs, abs_net n')"
    using net_run_ok [OF assms(1) oks] by blast
  have "a_run h (abs_sys (net_sys n)) (w_calls (conns n) es) = (evs, abs_sys (net_sys n'))"
    using w_run_calls [OF r(2)] by (simp add: abs_net_def)
  from serial_result [OF none _ oks this] show ?thesis
    using r assms(3) cn by auto
qed

section \<open>One connection\<close>

text \<open>The lines of the byte stream of one connection.\<close>

function client_events :: "nat \<Rightarrow> recv_event list \<Rightarrow> net_event list" where
  "client_events c evs =
     (case read_line evs [] of
        None \<Rightarrow> []
      | Some (ok, line, evs1) \<Rightarrow> if ok then Line c line # client_events c evs1 else [Lost c])"
  by pat_completeness auto
termination
  by (relation "measure (\<lambda>(c, evs). length evs)") (auto dest: read_line_shorter)

declare client_events.simps [simp del]

lemma idle_events: "n_conn n c = None \<Longrightarrow> net_run h n (client_events c evs) = Inr ([], n)"
proof (induction evs rule: measure_induct_rule [of length])
  case (less evs)
  then show ?case
    using read_line_shorter [of evs "[]"]
    by (auto simp: client_events.simps [of c evs] split: option.splits)
qed

lemma session_loop_net:
  "net_run h \<lparr>n_eng = e, n_conn = f(c \<mapsto> ss)\<rparr> (client_events c evs) =
     R_bind (session_loop (engine_ops h) e ss evs) (\<lambda>(replies, ended, e', ss').
       Inr (map (Pair c) replies, \<lparr>n_eng = e', n_conn = f(c := if ended then None else Some ss')\<rparr>))"
proof (induction evs arbitrary: e ss rule: measure_induct_rule [of length])
  case (less evs)
  show ?case
  proof (cases "read_line evs []")
    case None
    then show ?thesis by (simp add: client_events.simps [of c evs] session_loop.simps [of _ _ _ evs])
  next
    case (Some r)
    obtain ok line evs1 where r: "read_line evs [] = Some (ok, line, evs1)" using Some by (cases r) auto
    note unf = client_events.simps [of c evs] session_loop.simps [of _ _ _ evs]
    show ?thesis
    proof (cases ok)
      case False
      then show ?thesis
        by (cases "close_txn e ss") (auto simp: unf r close_op fun_upd_same simp del: fun_upd_apply)
    next
      case True
      show ?thesis
      proof (cases "session_line (engine_ops h) e ss line")
        case (Inl x)
        then show ?thesis using True by (simp add: unf r)
      next
        case (Inr y)
        obtain reply go_on e1 ss1 where y: "y = (reply, go_on, e1, ss1)" by (cases y)
        show ?thesis
        proof (cases go_on)
          case True
          then show ?thesis
            using \<open>ok\<close> Inr y less.IH [OF read_line_shorter [OF r], of e1 ss1]
            by (cases "session_loop (engine_ops h) e1 ss1 evs1") (auto simp: unf r fun_upd_same simp del: fun_upd_apply)
        next
          case False
          then show ?thesis
            using \<open>ok\<close> Inr y idle_events [of "\<lparr>n_eng = e1, n_conn = f(c := None)\<rparr>" c h evs1]
            by (simp add: unf r fun_upd_same del: fun_upd_apply)
        qed
      qed
    qed
  qed
qed

text \<open>
  Equivalence of the two views of a connection: running \<open>handle_client\<close> on the bytes the socket
  delivers, faults included, is processing the connection and then its lines one by one, while the
  other connections stand still.
\<close>

lemma handle_client_net:
  "net_run h \<lparr>n_eng = e, n_conn = f(c := None)\<rparr> (Connect c # client_events c evs) =
     R_bind (handle_client (engine_ops h) handle_init e evs) (\<lambda>(replies, ended, e', ss').
       Inr (map (Pair c) replies, \<lparr>n_eng = e', n_conn = f(c := if ended then None else Some ss')\<rparr>))"
  using session_loop_net [of h e f c "\<lparr>tx = handle_init, in_txn = False\<rparr>" evs]
  by (cases "session_loop (engine_ops h) e \<lparr>tx = handle_init, in_txn = False\<rparr> evs")
    (auto simp: handle_client_def net_upd fun_upd_same simp del: fun_upd_apply)

end
