(* ===== verification/Threads.thy ===== *)
theory Threads
  imports Prelude
begin

text \<open>
  Transactions of several threads at the granularity of the row latches. The other theories execute
  a whole call of the API at a time; here the steps of different threads interleave between any two
  operations on shared memory: the fetch-and-add of \<open>Manager::get_ts\<close>, \<open>Row_occ::access\<close> (under the
  row's mutex), and in \<open>OptCC::validate\<close> each \<open>latch\<close>, \<open>validate\<close>, \<open>write\<close> and \<open>release\<close> of a row.
  Rows are identified by their place in the order of the latches (\<open>'r\<close>) and hold a value of any type;
  the transactions read and update existing rows.
\<close>

section \<open>State\<close>

text \<open>A row: its contents, the time of its last update, and the thread that holds its mutex.\<close>

record 'v crow =
  cr_val :: 'v
  cr_wts :: u64
  cr_holder :: "nat option"

text \<open>An access: the row, its type, the local copy, and (for the specification only) what was read.\<close>

record ('r, 'v) cacc =
  ca_row :: 'r
  ca_wr :: bool
  ca_copy :: 'v
  ca_seen :: 'v

text \<open>
  Where a thread is: between transactions, in one, or inside \<open>OptCC::validate\<close>: about to latch the
  \<open>i\<close>-th access, to check it, to return the accesses below \<open>k\<close> (\<open>cleanup\<close> goes from the last to the
  first), or to release the \<open>i\<close>-th of \<open>m\<close> latched rows. \<open>Crashed\<close>: the assertion of \<open>Row_occ::write\<close>
  has failed.
\<close>

datatype phase =
    Idle
  | Active
  | Latching nat
  | Checking nat
  | Returning nat
  | Releasing nat nat
  | Crashed

record ('r, 'v) cthread =
  ct_start :: u64
  ct_end :: u64
  ct_accs :: "('r, 'v) cacc list"
  ct_phase :: phase

text \<open>The log, for the specification only: what the committed transactions read and wrote, in the order of their time stamps.\<close>

record ('r, 'v) centry =
  ce_thread :: nat
  ce_ts :: u64
  ce_reads :: "'r \<rightharpoonup> 'v"
  ce_writes :: "'r \<rightharpoonup> 'v"

text \<open>
  What the threads have been answered so far: the start time; the value copied by the first access of
  a row, or that it was refused; the value read again or written in the copy; and how the
  transaction ended, with the time stamp of a commit.
\<close>

datatype ('r, 'v) cout =
    Began u64
  | Fetched 'r 'v
  | Refused 'r
  | Reread 'r 'v
  | Wrote 'r 'v
  | Rolled_Back
  | Committed u64
  | Failed

record ('r, 'v) cstate =
  cs_rows :: "'r \<rightharpoonup> 'v crow"
  cs_clock :: u64
  cs_thr :: "nat \<Rightarrow> ('r, 'v) cthread"
  cs_log :: "('r, 'v) centry list"
  cs_out :: "(nat \<times> ('r, 'v) cout) list"

section \<open>Steps\<close>

abbreviation set_thr :: "nat \<Rightarrow> ('r, 'v) cthread \<Rightarrow> ('r, 'v) cstate \<Rightarrow> ('r, 'v) cstate" where
  "set_thr t th s \<equiv> s\<lparr>cs_thr := (cs_thr s)(t := th)\<rparr>"

abbreviation goto :: "nat \<Rightarrow> phase \<Rightarrow> ('r, 'v) cstate \<Rightarrow> ('r, 'v) cstate" where
  "goto t p s \<equiv> set_thr t ((cs_thr s t)\<lparr>ct_phase := p\<rparr>) s"

abbreviation set_row :: "'r \<Rightarrow> 'v crow \<Rightarrow> ('r, 'v) cstate \<Rightarrow> ('r, 'v) cstate" where
  "set_row r row s \<equiv> s\<lparr>cs_rows := (cs_rows s)(r \<mapsto> row)\<rparr>"

text \<open>The successor \<open>s'\<close> of \<open>s\<close>, with an answer to thread \<open>t\<close>.\<close>

abbreviation emit :: "('r, 'v) cstate \<Rightarrow> nat \<Rightarrow> ('r, 'v) cout \<Rightarrow> ('r, 'v) cstate \<Rightarrow> ('r, 'v) cstate" where
  "emit s t x s' \<equiv> s'\<lparr>cs_out := cs_out s @ [(t, x)]\<rparr>"

abbreviation accs_of :: "('r, 'v) cstate \<Rightarrow> nat \<Rightarrow> ('r, 'v) cacc list" where
  "accs_of s t \<equiv> ct_accs (cs_thr s t)"

abbreviation phase_of :: "('r, 'v) cstate \<Rightarrow> nat \<Rightarrow> phase" where
  "phase_of s t \<equiv> ct_phase (cs_thr s t)"

definition reads_of :: "('r, 'v) cacc list \<Rightarrow> 'r \<rightharpoonup> 'v" where
  "reads_of as = map_of (map (\<lambda>a. (ca_row a, ca_seen a)) as)"

definition writes_of :: "('r, 'v) cacc list \<Rightarrow> 'r \<rightharpoonup> 'v" where
  "writes_of as = map_of (map (\<lambda>a. (ca_row a, ca_copy a)) (filter ca_wr as))"

text \<open>
  \<open>cs_begin\<close>: \<open>begin_txn\<close> draws the start time. \<open>cs_fetch\<close>: the first access of a row copies it under its
  mutex; \<open>cs_refuse\<close>: the row is too new, the access is refused. \<open>cs_reread\<close>, \<open>cs_put\<close>: a row already
  accessed is read from the local copy, or written there and the access becomes a write.
  \<open>cs_rollback\<close>: \<open>abort_txn\<close>. The others are \<open>commit\<close>: sorting, then the loop of latches and checks
  (\<open>cs_fail\<close>: a row is too new), then the end time and the return of the accesses, then the release of
  the latches. The clock is assumed not to wrap.
\<close>

inductive cstep :: "('r::linorder, 'v) cstate \<Rightarrow> nat \<Rightarrow> ('r, 'v) cstate \<Rightarrow> bool" where
  cs_begin:
    "phase_of s t = Idle \<Longrightarrow> cs_clock s + 1 \<noteq> 0 \<Longrightarrow>
     cstep s t (emit s t (Began (cs_clock s))
       (set_thr t \<lparr>ct_start = cs_clock s, ct_end = 0, ct_accs = [], ct_phase = Active\<rparr>
         (s\<lparr>cs_clock := cs_clock s + 1\<rparr>)))"
| cs_fetch:
    "phase_of s t = Active \<Longrightarrow> cs_rows s r = Some row \<Longrightarrow> cr_holder row = None \<Longrightarrow>
     r \<notin> ca_row ` set (accs_of s t) \<Longrightarrow> \<not> ct_start (cs_thr s t) < cr_wts row \<Longrightarrow>
     cstep s t (emit s t (Fetched r (cr_val row)) (set_thr t ((cs_thr s t)\<lparr>ct_accs := accs_of s t @
       [\<lparr>ca_row = r, ca_wr = w, ca_copy = cr_val row, ca_seen = cr_val row\<rparr>]\<rparr>) s))"
| cs_refuse:
    "phase_of s t = Active \<Longrightarrow> cs_rows s r = Some row \<Longrightarrow> cr_holder row = None \<Longrightarrow>
     r \<notin> ca_row ` set (accs_of s t) \<Longrightarrow> ct_start (cs_thr s t) < cr_wts row \<Longrightarrow>
     cstep s t (emit s t (Refused r) s)"
| cs_reread:
    "phase_of s t = Active \<Longrightarrow> i < length (accs_of s t) \<Longrightarrow>
     cstep s t (emit s t (Reread (ca_row (accs_of s t ! i)) (ca_copy (accs_of s t ! i))) s)"
| cs_put:
    "phase_of s t = Active \<Longrightarrow> i < length (accs_of s t) \<Longrightarrow>
     cstep s t (emit s t (Wrote (ca_row (accs_of s t ! i)) v) (set_thr t ((cs_thr s t)\<lparr>ct_accs := (accs_of s t)
       [i := (accs_of s t ! i)\<lparr>ca_wr := True, ca_copy := v\<rparr>]\<rparr>) s))"
| cs_rollback:
    "phase_of s t = Active \<Longrightarrow> cstep s t (emit s t Rolled_Back (goto t Idle s))"
| cs_sort:
    "phase_of s t = Active \<Longrightarrow>
     cstep s t (set_thr t ((cs_thr s t)\<lparr>ct_accs := sort_key ca_row (accs_of s t), ct_phase := Latching 0\<rparr>) s)"
| cs_latch:
    "phase_of s t = Latching i \<Longrightarrow> i < length (accs_of s t) \<Longrightarrow> r = ca_row (accs_of s t ! i) \<Longrightarrow>
     cs_rows s r = Some row \<Longrightarrow> cr_holder row = None \<Longrightarrow>
     cstep s t (goto t (Checking i) (set_row r (row\<lparr>cr_holder := Some t\<rparr>) s))"
| cs_check:
    "phase_of s t = Checking i \<Longrightarrow> r = ca_row (accs_of s t ! i) \<Longrightarrow> cs_rows s r = Some row \<Longrightarrow>
     \<not> ct_start (cs_thr s t) < cr_wts row \<Longrightarrow> cstep s t (goto t (Latching (Suc i)) s)"
| cs_fail:
    "phase_of s t = Checking i \<Longrightarrow> r = ca_row (accs_of s t ! i) \<Longrightarrow> cs_rows s r = Some row \<Longrightarrow>
     ct_start (cs_thr s t) < cr_wts row \<Longrightarrow> cstep s t (emit s t Failed (goto t (Releasing 0 (Suc i)) s))"
| cs_stamp:
    "phase_of s t = Latching (length (accs_of s t)) \<Longrightarrow> cs_clock s + 1 \<noteq> 0 \<Longrightarrow>
     cstep s t (emit s t (Committed (cs_clock s))
       (set_thr t ((cs_thr s t)\<lparr>ct_end := cs_clock s, ct_phase := Returning (length (accs_of s t))\<rparr>)
         (s\<lparr>cs_clock := cs_clock s + 1,
            cs_log := cs_log s @ [\<lparr>ce_thread = t, ce_ts = cs_clock s, ce_reads = reads_of (accs_of s t),
              ce_writes = writes_of (accs_of s t)\<rparr>]\<rparr>)))"
| cs_write:
    "phase_of s t = Returning (Suc k) \<Longrightarrow> a = accs_of s t ! k \<Longrightarrow> ca_wr a \<Longrightarrow> cs_rows s (ca_row a) = Some row \<Longrightarrow>
     cr_wts row < ct_end (cs_thr s t) \<Longrightarrow>
     cstep s t (goto t (Returning k)
       (set_row (ca_row a) (row\<lparr>cr_val := ca_copy a, cr_wts := ct_end (cs_thr s t)\<rparr>) s))"
| cs_crash:
    "phase_of s t = Returning (Suc k) \<Longrightarrow> a = accs_of s t ! k \<Longrightarrow> ca_wr a \<Longrightarrow> cs_rows s (ca_row a) = Some row \<Longrightarrow>
     \<not> cr_wts row < ct_end (cs_thr s t) \<Longrightarrow> cstep s t (goto t Crashed s)"
| cs_return:
    "phase_of s t = Returning (Suc k) \<Longrightarrow> \<not> ca_wr (accs_of s t ! k) \<Longrightarrow> cstep s t (goto t (Returning k) s)"
| cs_returned:
    "phase_of s t = Returning 0 \<Longrightarrow> cstep s t (goto t (Releasing 0 (length (accs_of s t))) s)"
| cs_release:
    "phase_of s t = Releasing i m \<Longrightarrow> i < m \<Longrightarrow> r = ca_row (accs_of s t ! i) \<Longrightarrow> cs_rows s r = Some row \<Longrightarrow>
     cstep s t (goto t (Releasing (Suc i) m) (set_row r (row\<lparr>cr_holder := None\<rparr>) s))"
| cs_done:
    "phase_of s t = Releasing i m \<Longrightarrow> m \<le> i \<Longrightarrow> cstep s t (goto t Idle s)"

inductive csteps :: "('r::linorder, 'v) cstate \<Rightarrow> ('r, 'v) cstate \<Rightarrow> bool" where
  csteps_refl: "csteps s s"
| csteps_step: "csteps s s1 \<Longrightarrow> cstep s1 t s2 \<Longrightarrow> csteps s s2"

text \<open>A state in which nobody runs a transaction.\<close>

definition cinit :: "('r \<rightharpoonup> 'v \<times> u64) \<Rightarrow> u64 \<Rightarrow> ('r, 'v) cstate" where
  "cinit db clock = \<lparr>cs_rows = (\<lambda>r. map_option (\<lambda>(v, w). \<lparr>cr_val = v, cr_wts = w, cr_holder = None\<rparr>) (db r)),
     cs_clock = clock, cs_thr = (\<lambda>_. \<lparr>ct_start = 0, ct_end = 0, ct_accs = [], ct_phase = Idle\<rparr>), cs_log = [], cs_out = []\<rparr>"

section \<open>The serial database\<close>

text \<open>
  What the log means: the transactions executed one after the other. \<open>None\<close> if a transaction read a
  value that the serial execution does not have at this point. The second component of a row is its
  update time.
\<close>

fun replay :: "('r \<rightharpoonup> 'v \<times> u64) \<Rightarrow> ('r, 'v) centry list \<Rightarrow> ('r \<rightharpoonup> 'v \<times> u64) option" where
  "replay db [] = Some db"
| "replay db (e # es) =
     (if ce_reads e \<subseteq>\<^sub>m map_option fst \<circ> db
      then replay (db ++ (\<lambda>r. map_option (\<lambda>v. (v, ce_ts e)) (ce_writes e r))) es else None)"

lemma replay_snoc:
  "replay db (es @ [e]) = (case replay db es of None \<Rightarrow> None
     | Some d \<Rightarrow> if ce_reads e \<subseteq>\<^sub>m map_option fst \<circ> d
                then Some (d ++ (\<lambda>r. map_option (\<lambda>v. (v, ce_ts e)) (ce_writes e r))) else None)"
  by (induction es arbitrary: db) auto

section \<open>The invariant\<close>

definition rows_of :: "('r, 'v) cacc list \<Rightarrow> 'r set" where
  "rows_of as = ca_row ` set as"

text \<open>The rows whose mutex a thread holds, and the writes it has not carried out yet.\<close>

definition held :: "('r, 'v) cthread \<Rightarrow> 'r set" where
  "held th = (case ct_phase th of
      Latching i \<Rightarrow> rows_of (take i (ct_accs th))
    | Checking i \<Rightarrow> rows_of (take (Suc i) (ct_accs th))
    | Returning k \<Rightarrow> rows_of (ct_accs th)
    | Releasing i m \<Rightarrow> rows_of (drop i (take m (ct_accs th)))
    | _ \<Rightarrow> {})"

definition pending :: "('r, 'v) cthread \<Rightarrow> 'r \<rightharpoonup> 'v" where
  "pending th = (case ct_phase th of Returning k \<Rightarrow> writes_of (take k (ct_accs th)) | _ \<Rightarrow> Map.empty)"

text \<open>
  \<open>seen_ok\<close>: what a transaction has read still holds in the serial database, or the row is too new for
  the transaction to commit. \<open>checked\<close>: the rows of these accesses are old enough.
\<close>

definition seen_ok :: "('r \<rightharpoonup> 'v \<times> u64) \<Rightarrow> ('r, 'v) cthread \<Rightarrow> bool" where
  "seen_ok d th \<longleftrightarrow> (\<forall>a \<in> set (ct_accs th). \<exists>v w. d (ca_row a) = Some (v, w) \<and> (ct_start th < w \<or> v = ca_seen a))"

definition checked :: "('r \<rightharpoonup> 'v crow) \<Rightarrow> u64 \<Rightarrow> ('r, 'v) cacc list \<Rightarrow> bool" where
  "checked rows start as \<longleftrightarrow> (\<forall>a \<in> set as. \<exists>row. rows (ca_row a) = Some row \<and> \<not> start < cr_wts row)"

fun phase_ok :: "('r::linorder \<rightharpoonup> 'v crow) \<Rightarrow> ('r \<rightharpoonup> 'v \<times> u64) \<Rightarrow> u64 \<Rightarrow> ('r, 'v) cthread \<Rightarrow> phase \<Rightarrow> bool" where
  "phase_ok rows d clock th Idle \<longleftrightarrow> True"
| "phase_ok rows d clock th Active \<longleftrightarrow> seen_ok d th"
| "phase_ok rows d clock th (Latching i) \<longleftrightarrow> sorted (map ca_row (ct_accs th)) \<and> i \<le> length (ct_accs th) \<and>
     seen_ok d th \<and> checked rows (ct_start th) (take i (ct_accs th))"
| "phase_ok rows d clock th (Checking i) \<longleftrightarrow> sorted (map ca_row (ct_accs th)) \<and> i < length (ct_accs th) \<and>
     seen_ok d th \<and> checked rows (ct_start th) (take i (ct_accs th))"
| "phase_ok rows d clock th (Returning k) \<longleftrightarrow> sorted (map ca_row (ct_accs th)) \<and> k \<le> length (ct_accs th) \<and>
     ct_start th < ct_end th \<and> ct_end th < clock \<and> checked rows (ct_start th) (take k (ct_accs th))"
| "phase_ok rows d clock th (Releasing i m) \<longleftrightarrow> sorted (map ca_row (ct_accs th)) \<and> m \<le> length (ct_accs th)"
| "phase_ok rows d clock th Crashed \<longleftrightarrow> False"

definition thread_ok :: "('r::linorder \<rightharpoonup> 'v crow) \<Rightarrow> ('r \<rightharpoonup> 'v \<times> u64) \<Rightarrow> u64 \<Rightarrow> ('r, 'v) cthread \<Rightarrow> bool" where
  "thread_ok rows d clock th \<longleftrightarrow> distinct (map ca_row (ct_accs th)) \<and> rows_of (ct_accs th) \<subseteq> dom rows \<and>
     (ct_phase th \<noteq> Idle \<longrightarrow> ct_start th < clock) \<and> phase_ok rows d clock th (ct_phase th)"

text \<open>
  A row is held by the thread that latched it; its contents are those of the serial database unless
  the write of a committed transaction is still to come.
\<close>

definition row_ok :: "('r::linorder, 'v) cstate \<Rightarrow> ('r \<rightharpoonup> 'v \<times> u64) \<Rightarrow> 'r \<Rightarrow> 'v crow \<Rightarrow> bool" where
  "row_ok s d r row \<longleftrightarrow> cr_wts row < cs_clock s \<and>
     (\<forall>t. cr_holder row = Some t \<longleftrightarrow> r \<in> held (cs_thr s t)) \<and>
     (\<forall>t v. pending (cs_thr s t) r = Some v \<longrightarrow> d r = Some (v, ct_end (cs_thr s t))) \<and>
     ((\<forall>t. pending (cs_thr s t) r = None) \<longrightarrow> d r = Some (cr_val row, cr_wts row))"

definition cinv :: "('r::linorder, 'v) cstate \<Rightarrow> ('r \<rightharpoonup> 'v \<times> u64) \<Rightarrow> bool" where
  "cinv s d \<longleftrightarrow> (\<forall>t. thread_ok (cs_rows s) d (cs_clock s) (cs_thr s t)) \<and>
     (\<forall>r row. cs_rows s r = Some row \<longrightarrow> row_ok s d r row) \<and> dom d = dom (cs_rows s)"

lemma cinv_out [simp]: "cinv (s\<lparr>cs_out := os\<rparr>) d = cinv s d"
  by (simp add: cinv_def row_ok_def)

lemma cinvD:
  assumes "cinv s d"
  shows "thread_ok (cs_rows s) d (cs_clock s) (cs_thr s t)"
    and "cs_rows s r = Some row \<Longrightarrow> row_ok s d r row" and "dom d = dom (cs_rows s)"
  using assms by (simp_all add: cinv_def)

lemma cinv_init:
  assumes "\<forall>r v w. db r = Some (v, w) \<longrightarrow> w < clock"
  shows "cinv (cinit db clock) db"
  using assms by (auto simp: cinv_def cinit_def thread_ok_def rows_of_def row_ok_def held_def pending_def dom_def)

lemma pending_held: "r \<in> dom (pending th) \<Longrightarrow> r \<in> held th"
proof (cases "ct_phase th")
  case (Returning k)
  assume "r \<in> dom (pending th)"
  then have "r \<in> ca_row ` set (take k (ct_accs th))"
    using Returning by (auto simp: pending_def writes_of_def dom_map_of_conv_image_fst)
  then show ?thesis using Returning by (auto simp: held_def rows_of_def dest: in_set_takeD)
qed (simp_all add: pending_def)

lemma pending_unheld:
  assumes "cinv s d" and "cs_rows s r = Some row" and "cr_holder row \<noteq> Some t"
  shows "pending (cs_thr s t) r = None"
  using pending_held [of r "cs_thr s t"] cinvD(2) [OF assms(1,2)] assms(3) by (auto simp: row_ok_def)

text \<open>Rows nobody holds have the serial contents; so have those a thread has latched before its stamp.\<close>

lemma free_row_serial:
  assumes "cinv s d" and "cs_rows s r = Some row" and "cr_holder row = None"
  shows "d r = Some (cr_val row, cr_wts row)"
  using pending_unheld [OF assms(1,2)] cinvD(2) [OF assms(1,2)] assms(3) by (simp add: row_ok_def)

lemma own_row_serial:
  assumes "cinv s d" and "cs_rows s r = Some row" and "r \<in> held (cs_thr s t)" and "pending (cs_thr s t) r = None"
  shows "d r = Some (cr_val row, cr_wts row)"
proof -
  have h: "cr_holder row = Some t" using cinvD(2) [OF assms(1,2)] assms(3) by (simp add: row_ok_def)
  have "pending (cs_thr s u) r = None" for u
    using pending_unheld [OF assms(1,2), of u] h assms(4) by (cases "u = t") auto
  then show ?thesis using cinvD(2) [OF assms(1,2)] by (simp add: row_ok_def)
qed

text \<open>
  The frame rule for threads: a thread is not disturbed by time passing, by changes of rows it does
  not hold, or by later writes in the serial database.
\<close>

definition later :: "u64 \<Rightarrow> ('r \<rightharpoonup> 'v \<times> u64) \<Rightarrow> ('r \<rightharpoonup> 'v \<times> u64) \<Rightarrow> bool" where
  "later clock d d' \<longleftrightarrow> (\<forall>r v w. d r = Some (v, w) \<longrightarrow> (\<exists>v' w'. d' r = Some (v', w') \<and> (clock \<le> w' \<or> (v', w') = (v, w))))"

lemma later_refl [simp]: "later clock d d"
  by (auto simp: later_def)

lemma seen_ok_later:
  assumes "seen_ok d th" and "later clock d d'" and "ct_start th < clock"
  shows "seen_ok d' th"
  unfolding seen_ok_def
proof (intro ballI)
  fix a assume "a \<in> set (ct_accs th)"
  then obtain v w where "d (ca_row a) = Some (v, w)" "ct_start th < w \<or> v = ca_seen a"
    using assms(1) by (auto simp: seen_ok_def)
  then obtain v' w' where "d' (ca_row a) = Some (v', w')" "clock \<le> w' \<or> (v', w') = (v, w)"
    using assms(2) unfolding later_def by blast
  then show "\<exists>v w. d' (ca_row a) = Some (v, w) \<and> (ct_start th < w \<or> v = ca_seen a)"
    using \<open>ct_start th < w \<or> v = ca_seen a\<close> assms(3) by auto
qed

definition same_times :: "'r set \<Rightarrow> ('r \<rightharpoonup> 'v crow) \<Rightarrow> ('r \<rightharpoonup> 'v crow) \<Rightarrow> bool" where
  "same_times rs rows rows' \<longleftrightarrow> (\<forall>r \<in> rs. map_option cr_wts (rows' r) = map_option cr_wts (rows r))"

lemma same_times_refl [simp]: "same_times rs rows rows"
  by (simp add: same_times_def)

lemma checked_same:
  assumes "checked rows start as" and "same_times (rows_of as) rows rows'"
  shows "checked rows' start as"
  unfolding checked_def
proof (intro ballI)
  fix a assume a: "a \<in> set as"
  then obtain row where "rows (ca_row a) = Some row" "\<not> start < cr_wts row"
    using assms(1) by (auto simp: checked_def)
  moreover have "map_option cr_wts (rows' (ca_row a)) = map_option cr_wts (rows (ca_row a))"
    using assms(2) a by (auto simp: same_times_def rows_of_def)
  ultimately show "\<exists>row. rows' (ca_row a) = Some row \<and> \<not> start < cr_wts row" by auto
qed

lemma same_times_mono: "same_times rs rows rows' \<Longrightarrow> ss \<subseteq> rs \<Longrightarrow> same_times ss rows rows'"
  by (auto simp: same_times_def)

lemma rows_of_mono: "set as \<subseteq> set bs \<Longrightarrow> rows_of as \<subseteq> rows_of bs"
  by (auto simp: rows_of_def)

lemma take_rows: "rows_of (take i as) \<subseteq> rows_of (take (Suc i) as)" "rows_of (take i as) \<subseteq> rows_of as"
  by (simp_all add: rows_of_mono set_take_subset set_take_subset_set_take)

lemma thread_ok_frame:
  assumes "thread_ok rows d clock th" and "clock \<le> clock'" and "later clock d d'"
    and "same_times (held th) rows rows'" and "dom rows' = dom rows"
  shows "thread_ok rows' d' clock' th"
proof (cases "ct_phase th")
  case (Returning k)
  have "same_times (rows_of (take k (ct_accs th))) rows rows'"
    using same_times_mono [OF assms(4), of "rows_of (take k (ct_accs th))"] Returning
    by (simp add: held_def take_rows)
  then show ?thesis
    using assms Returning checked_same by (auto simp: thread_ok_def)
next
  case (Latching i)
  then show ?thesis
    using assms checked_same seen_ok_later by (auto simp: thread_ok_def held_def)
next
  case (Checking i)
  have "same_times (rows_of (take i (ct_accs th))) rows rows'"
    using same_times_mono [OF assms(4), of "rows_of (take i (ct_accs th))"] Checking
    by (simp add: held_def take_rows)
  then show ?thesis
    using assms Checking checked_same seen_ok_later by (auto simp: thread_ok_def)
next
  case Active
  then show ?thesis using assms seen_ok_later by (auto simp: thread_ok_def)
qed (use assms in \<open>auto simp: thread_ok_def\<close>)

section \<open>The steps keep the invariant\<close>

lemma cinv_step:
  assumes "cinv s d" and "cs_thr s' = (cs_thr s)(t := th)" and "cs_clock s \<le> cs_clock s'"
    and "later (cs_clock s) d d'" and "dom (cs_rows s') = dom (cs_rows s)" and "dom d' = dom d"
    and "thread_ok (cs_rows s') d' (cs_clock s') th"
    and "\<And>u. u \<noteq> t \<Longrightarrow> same_times (held (cs_thr s u)) (cs_rows s) (cs_rows s')"
    and "\<And>r row. cs_rows s' r = Some row \<Longrightarrow> row_ok s' d' r row"
  shows "cinv s' d'"
proof -
  have "thread_ok (cs_rows s') d' (cs_clock s') (cs_thr s' u)" for u
  proof (cases "u = t")
    case False
    then show ?thesis
      using thread_ok_frame [OF cinvD(1) [OF assms(1)] assms(3,4) assms(8) [OF False] assms(5)] assms(2) by simp
  qed (use assms(2,7) in simp)
  then show ?thesis using assms(5,6,9) cinvD(3) [OF assms(1)] by (simp add: cinv_def)
qed

lemma row_ok_frame:
  assumes "row_ok s d r row" and "cs_thr s' = (cs_thr s)(t := th)" and "cs_clock s \<le> cs_clock s'" and "d' r = d r"
    and "r \<in> held th \<longleftrightarrow> r \<in> held (cs_thr s t)" and "pending th r = pending (cs_thr s t) r"
    and "pending (cs_thr s t) r \<noteq> None \<Longrightarrow> ct_end th = ct_end (cs_thr s t)"
  shows "row_ok s' d' r row"
proof -
  have "r \<in> held (cs_thr s' u) \<longleftrightarrow> r \<in> held (cs_thr s u)" "pending (cs_thr s' u) r = pending (cs_thr s u) r"
    "pending (cs_thr s u) r \<noteq> None \<Longrightarrow> ct_end (cs_thr s' u) = ct_end (cs_thr s u)" for u
    using assms(2,5-7) by auto
  note same = this
  show ?thesis
    unfolding row_ok_def
  proof (intro conjI allI impI)
    show "cr_wts row < cs_clock s'" using assms(1,3) by (auto simp: row_ok_def)
    show "cr_holder row = Some u \<longleftrightarrow> r \<in> held (cs_thr s' u)" for u
      using assms(1) same(1) by (simp add: row_ok_def)
    show "d' r = Some (v, ct_end (cs_thr s' u))" if "pending (cs_thr s' u) r = Some v" for u v
      using assms(1,4) same(2,3) that by (simp add: row_ok_def)
    show "d' r = Some (cr_val row, cr_wts row)" if "\<forall>u. pending (cs_thr s' u) r = None"
      using assms(1,4) same(2) that by (simp add: row_ok_def)
  qed
qed

text \<open>A step that changes nothing but its own thread, and maybe the clock.\<close>

lemma cinv_thread:
  assumes "cinv s d" and "cs_thr s' = cs_thr s" and "cs_rows s' = cs_rows s" and "cs_clock s \<le> cs_clock s'"
    and "held th = held (cs_thr s t)" and "pending th = pending (cs_thr s t)"
    and "pending (cs_thr s t) \<noteq> Map.empty \<Longrightarrow> ct_end th = ct_end (cs_thr s t)"
    and "thread_ok (cs_rows s) d (cs_clock s') th"
  shows "cinv (set_thr t th s') d"
proof (rule cinv_step [OF assms(1), where t = t and th = th])
  fix r row assume "cs_rows (set_thr t th s') r = Some row"
  then have ok: "row_ok s d r row" using cinvD(2) [OF assms(1)] assms(3) by simp
  have "ct_end th = ct_end (cs_thr s t)" if "pending (cs_thr s t) r \<noteq> None"
    using that by (intro assms(7)) auto
  then show "row_ok (set_thr t th s') d r row"
    using assms(2,4-6) by (intro row_ok_frame [OF ok, where t = t and th = th]) simp_all
qed (use assms in simp_all)

text \<open>A step that changes one row as well.\<close>

lemma cinv_row:
  assumes inv: "cinv s d" and row: "cs_rows s r = Some row"
    and rest: "\<And>q. q \<noteq> r \<Longrightarrow> (q \<in> held th \<longleftrightarrow> q \<in> held (cs_thr s t)) \<and> pending th q = pending (cs_thr s t) q"
    and ends: "ct_end th = ct_end (cs_thr s t)"
    and times: "cr_wts row' = cr_wts row \<or> r \<in> held (cs_thr s t)"
    and ok: "thread_ok ((cs_rows s)(r \<mapsto> row')) d (cs_clock s) th"
    and rok: "row_ok (set_thr t th (set_row r row' s)) d r row'"
  shows "cinv (set_thr t th (set_row r row' s)) d"
proof (rule cinv_step [OF inv, where t = t and th = th])
  fix u assume u: "u \<noteq> t"
  have "r \<notin> held (cs_thr s u)" if "r \<in> held (cs_thr s t)"
    using cinvD(2) [OF inv row] that u unfolding row_ok_def by (metis option.inject)
  then show "same_times (held (cs_thr s u)) (cs_rows s) (cs_rows (set_thr t th (set_row r row' s)))"
    using times row by (auto simp: same_times_def)
next
  fix q qrow assume q: "cs_rows (set_thr t th (set_row r row' s)) q = Some qrow"
  show "row_ok (set_thr t th (set_row r row' s)) d q qrow"
  proof (cases "q = r")
    case False
    then have "row_ok s d q qrow" using q cinvD(2) [OF inv] by simp
    then show ?thesis
      by (rule row_ok_frame [where t = t and th = th]) (use rest [OF False] ends in simp_all)
  qed (use q rok in auto)
qed (use row ok in auto)

lemma rows_of_simps [simp]:
  "rows_of [] = {}" "rows_of (a # as) = insert (ca_row a) (rows_of as)" "rows_of (as @ bs) = rows_of as \<union> rows_of bs"
  by (auto simp: rows_of_def)

lemma rows_of_update [simp]: "ca_row b = ca_row (as ! i) \<Longrightarrow> rows_of (as[i := b]) = rows_of as"
  by (induction as arbitrary: i) (auto simp: rows_of_def split: nat.splits)

lemma map_row_update: "ca_row b = ca_row (as ! i) \<Longrightarrow> map ca_row (as[i := b]) = map ca_row as"
  by (metis list_update_id map_update)

lemma writes_of_take_Suc:
  assumes "k < length as" and "distinct (map ca_row as)"
  shows "writes_of (take (Suc k) as) = (if ca_wr (as ! k) then (writes_of (take k as))(ca_row (as ! k) \<mapsto> ca_copy (as ! k))
    else writes_of (take k as))"
proof -
  have "ca_row (as ! k) \<notin> rows_of (take k as)"
    using assms by (auto simp: rows_of_def in_set_conv_nth nth_eq_iff_index_eq distinct_conv_nth)
  then have "writes_of (take k as) (ca_row (as ! k)) = None"
    by (auto simp: writes_of_def map_of_eq_None_iff rows_of_def)
  then show ?thesis
    using assms(1) by (auto simp: writes_of_def take_Suc_conv_app_nth map_add_def fun_eq_iff split: option.splits)
qed

lemma phase_facts:
  assumes "cinv s d"
  shows "distinct (map ca_row (accs_of s t))" and "rows_of (accs_of s t) \<subseteq> dom (cs_rows s)"
    and "phase_of s t \<noteq> Idle \<Longrightarrow> ct_start (cs_thr s t) < cs_clock s"
    and "phase_ok (cs_rows s) d (cs_clock s) (cs_thr s t) (phase_of s t)"
  using cinvD(1) [OF assms, of t] by (simp_all add: thread_ok_def)

lemma inv_begin:
  assumes "cinv s d" and "phase_of s t = Idle" and "cs_clock s + 1 \<noteq> 0"
  shows "cinv (set_thr t \<lparr>ct_start = cs_clock s, ct_end = 0, ct_accs = [], ct_phase = Active\<rparr>
       (s\<lparr>cs_clock := cs_clock s + 1\<rparr>)) d"
  using assms u64_less_Suc [OF assms(3)]
  by (intro cinv_thread [OF assms(1)]) (auto simp: held_def pending_def thread_ok_def seen_ok_def)

lemma inv_fetch:
  assumes inv: "cinv s d" and p: "phase_of s t = Active" and row: "cs_rows s r = Some row" "cr_holder row = None"
    and new: "r \<notin> ca_row ` set (accs_of s t)"
  shows "cinv (set_thr t ((cs_thr s t)\<lparr>ct_accs := accs_of s t @
       [\<lparr>ca_row = r, ca_wr = w, ca_copy = cr_val row, ca_seen = cr_val row\<rparr>]\<rparr>) s) d"
proof (rule cinv_thread [OF inv])
  have "d r = Some (cr_val row, cr_wts row)" by (rule free_row_serial [OF inv row])
  then show "thread_ok (cs_rows s) d (cs_clock s)
     ((cs_thr s t)\<lparr>ct_accs := accs_of s t @ [\<lparr>ca_row = r, ca_wr = w, ca_copy = cr_val row, ca_seen = cr_val row\<rparr>]\<rparr>)"
    using phase_facts [OF inv, of t] p row(1) new by (auto simp: thread_ok_def seen_ok_def)
qed (use p in \<open>simp_all add: held_def pending_def\<close>)

lemma inv_put:
  assumes inv: "cinv s d" and p: "phase_of s t = Active" and i: "i < length (accs_of s t)"
  shows "cinv (set_thr t ((cs_thr s t)\<lparr>ct_accs := (accs_of s t)
       [i := (accs_of s t ! i)\<lparr>ca_wr := True, ca_copy := v\<rparr>]\<rparr>) s) d"
proof (rule cinv_thread [OF inv])
  let ?b = "(accs_of s t ! i)\<lparr>ca_wr := True, ca_copy := v\<rparr>"
  have "seen_ok d ((cs_thr s t)\<lparr>ct_accs := (accs_of s t)[i := ?b]\<rparr>)" if "seen_ok d (cs_thr s t)"
    unfolding seen_ok_def
  proof
    fix a assume "a \<in> set (ct_accs ((cs_thr s t)\<lparr>ct_accs := (accs_of s t)[i := ?b]\<rparr>))"
    then have "a \<in> set (accs_of s t) \<or> a = ?b" by (auto dest: set_update_subset_insert [THEN subsetD])
    moreover have "accs_of s t ! i \<in> set (accs_of s t)" using i by simp
    ultimately obtain a' where "a' \<in> set (accs_of s t)" "ca_row a = ca_row a'" "ca_seen a = ca_seen a'"
      by (cases "a = ?b") auto
    then show "\<exists>v w. d (ca_row a) = Some (v, w) \<and> (ct_start ((cs_thr s t)\<lparr>ct_accs := (accs_of s t)[i := ?b]\<rparr>) < w \<or> v = ca_seen a)"
      using that by (simp add: seen_ok_def)
  qed
  then show "thread_ok (cs_rows s) d (cs_clock s)
     ((cs_thr s t)\<lparr>ct_accs := (accs_of s t)[i := ?b]\<rparr>)"
    using phase_facts [OF inv, of t] p by (simp add: thread_ok_def map_row_update)
qed (use p in \<open>simp_all add: held_def pending_def\<close>)

lemma inv_rollback:
  assumes "cinv s d" and "phase_of s t = Active"
  shows "cinv (goto t Idle s) d"
  using phase_facts [OF assms(1), of t] assms(2)
  by (intro cinv_thread [OF assms(1)]) (simp_all add: held_def pending_def thread_ok_def)

lemma inv_sort:
  assumes "cinv s d" and "phase_of s t = Active"
  shows "cinv (set_thr t ((cs_thr s t)\<lparr>ct_accs := sort_key ca_row (accs_of s t), ct_phase := Latching 0\<rparr>) s) d"
proof (rule cinv_thread [OF assms(1)])
  have "distinct (map ca_row (sort_key ca_row (accs_of s t)))"
    using phase_facts(1) [OF assms(1), of t] by (simp add: distinct_map)
  then show "thread_ok (cs_rows s) d (cs_clock s)
     ((cs_thr s t)\<lparr>ct_accs := sort_key ca_row (accs_of s t), ct_phase := Latching 0\<rparr>)"
    using phase_facts [OF assms(1), of t] assms(2) by (simp add: thread_ok_def rows_of_def seen_ok_def checked_def)
qed (use assms(2) in \<open>simp_all add: held_def pending_def\<close>)

lemma rows_of_take_Suc: "i < length as \<Longrightarrow> rows_of (take (Suc i) as) = insert (ca_row (as ! i)) (rows_of (take i as))"
  by (simp add: take_Suc_conv_app_nth)

lemma row_holder:
  assumes "cinv s d" and "cs_rows s r = Some row"
  shows "cr_holder row = Some t \<longleftrightarrow> r \<in> held (cs_thr s t)"
  using cinvD(2) [OF assms] by (simp add: row_ok_def)

lemma acc_row:
  assumes "cinv s d" and "i < length (accs_of s t)"
  obtains row where "cs_rows s (ca_row (accs_of s t ! i)) = Some row"
  using phase_facts(2) [OF assms(1), of t] nth_mem [OF assms(2)] by (auto simp: rows_of_def)

lemma inv_latch:
  assumes inv: "cinv s d" and p: "phase_of s t = Latching i" and i: "i < length (accs_of s t)"
    and r: "r = ca_row (accs_of s t ! i)" and row: "cs_rows s r = Some row" "cr_holder row = None"
  shows "cinv (goto t (Checking i) (set_row r (row\<lparr>cr_holder := Some t\<rparr>) s)) d"
proof -
  let ?th = "(cs_thr s t)\<lparr>ct_phase := Checking i\<rparr>" and ?row = "row\<lparr>cr_holder := Some t\<rparr>"
  have held: "held ?th = insert r (held (cs_thr s t))" using p i r by (simp add: held_def rows_of_take_Suc)
  have pend: "pending ?th = pending (cs_thr s t)" using p by (simp add: pending_def)
  have "cinv (set_thr t ?th (set_row r ?row s)) d"
  proof (rule cinv_row [OF inv row(1)])
    have "checked ((cs_rows s)(r \<mapsto> ?row)) (ct_start (cs_thr s t)) (take i (accs_of s t))"
      using phase_facts(4) [OF inv, of t] p row(1) by (auto simp: checked_def)
    then show "thread_ok ((cs_rows s)(r \<mapsto> ?row)) d (cs_clock s) ?th"
      using phase_facts [OF inv, of t] p i by (auto simp: thread_ok_def seen_ok_def)
    have "r \<notin> held (cs_thr s u)" for u using row_holder [OF inv row(1)] row(2) by auto
    then show "row_ok (set_thr t ?th (set_row r ?row s)) d r ?row"
      using cinvD(2) [OF inv row(1)] held pend by (auto simp: row_ok_def)
  qed (use held pend in simp_all)
  then show ?thesis by simp
qed

lemma inv_check:
  assumes inv: "cinv s d" and p: "phase_of s t = Checking i"
    and r: "r = ca_row (accs_of s t ! i)" and row: "cs_rows s r = Some row"
    and old: "\<not> ct_start (cs_thr s t) < cr_wts row"
  shows "cinv (goto t (Latching (Suc i)) s) d"
proof (rule cinv_thread [OF inv])
  let ?th = "(cs_thr s t)\<lparr>ct_phase := Latching (Suc i)\<rparr>"
  show "thread_ok (cs_rows s) d (cs_clock s) ?th"
    using phase_facts [OF inv, of t] p r row old
    by (auto simp: thread_ok_def seen_ok_def checked_def take_Suc_conv_app_nth)
qed (use p in \<open>simp_all add: held_def pending_def\<close>)

lemma inv_fail:
  assumes inv: "cinv s d" and p: "phase_of s t = Checking i"
  shows "cinv (goto t (Releasing 0 (Suc i)) s) d"
  by (rule cinv_thread [OF inv])
    (use phase_facts [OF inv, of t] p in \<open>simp_all add: held_def pending_def thread_ok_def\<close>)

lemma inv_return:
  assumes inv: "cinv s d" and p: "phase_of s t = Returning (Suc k)" and a: "\<not> ca_wr (accs_of s t ! k)"
  shows "cinv (goto t (Returning k) s) d"
proof (rule cinv_thread [OF inv])
  have k: "k < length (accs_of s t)" using phase_facts(4) [OF inv, of t] p by simp
  show "pending ((cs_thr s t)\<lparr>ct_phase := Returning k\<rparr>) = pending (cs_thr s t)"
    using p a writes_of_take_Suc [OF k phase_facts(1) [OF inv]] by (simp add: pending_def)
  show "thread_ok (cs_rows s) d (cs_clock s) ((cs_thr s t)\<lparr>ct_phase := Returning k\<rparr>)"
    using phase_facts [OF inv, of t] p k by (auto simp: thread_ok_def checked_def take_Suc_conv_app_nth)
qed (use p in \<open>simp_all add: held_def\<close>)

lemma inv_returned:
  assumes inv: "cinv s d" and p: "phase_of s t = Returning 0"
  shows "cinv (goto t (Releasing 0 (length (accs_of s t))) s) d"
  by (rule cinv_thread [OF inv])
    (use phase_facts [OF inv, of t] p in \<open>simp_all add: held_def pending_def writes_of_def thread_ok_def\<close>)

lemma inv_done:
  assumes inv: "cinv s d" and p: "phase_of s t = Releasing i m" "m \<le> i"
  shows "cinv (goto t Idle s) d"
  by (rule cinv_thread [OF inv])
    (use phase_facts [OF inv, of t] p in \<open>simp_all add: held_def pending_def thread_ok_def\<close>)

lemma row_not_before:
  assumes "k < length as" and "distinct (map ca_row as)"
  shows "ca_row (as ! k) \<notin> rows_of (take k as)"
proof -
  have "distinct (map ca_row (take k as @ as ! k # drop (Suc k) as))"
    using assms id_take_nth_drop [OF assms(1)] by simp
  then show ?thesis by (simp add: rows_of_def)
qed

lemma writes_of_rows: "dom (writes_of as) \<subseteq> rows_of as"
  by (auto simp: writes_of_def rows_of_def dom_map_of_conv_image_fst)

lemma inv_write:
  assumes inv: "cinv s d" and p: "phase_of s t = Returning (Suc k)" and a: "a = accs_of s t ! k" "ca_wr a"
    and row: "cs_rows s (ca_row a) = Some row"
  shows "cinv (goto t (Returning k)
       (set_row (ca_row a) (row\<lparr>cr_val := ca_copy a, cr_wts := ct_end (cs_thr s t)\<rparr>) s)) d"
proof -
  let ?th = "(cs_thr s t)\<lparr>ct_phase := Returning k\<rparr>" and ?r = "ca_row a"
    and ?row = "row\<lparr>cr_val := ca_copy a, cr_wts := ct_end (cs_thr s t)\<rparr>"
  have k: "k < length (accs_of s t)" using phase_facts(4) [OF inv, of t] p by simp
  have held: "held ?th = held (cs_thr s t)" using p by (simp add: held_def)
  have mem: "?r \<in> held (cs_thr s t)" using p a(1) k by (auto simp: held_def rows_of_def)
  have pend: "pending (cs_thr s t) = (pending ?th)(?r \<mapsto> ca_copy a)"
    using p a writes_of_take_Suc [OF k phase_facts(1) [OF inv]] by (simp add: pending_def)
  have gone: "pending ?th ?r = None"
    using row_not_before [OF k phase_facts(1) [OF inv]] writes_of_rows [of "take k (accs_of s t)"] a(1)
    by (auto simp: pending_def)
  have times: "ct_start (cs_thr s t) < ct_end (cs_thr s t)" "ct_end (cs_thr s t) < cs_clock s"
    "checked (cs_rows s) (ct_start (cs_thr s t)) (take (Suc k) (accs_of s t))"
    using phase_facts(4) [OF inv, of t] p by simp_all
  have "cinv (set_thr t ?th (set_row ?r ?row s)) d"
  proof (rule cinv_row [OF inv row])
    have "same_times (rows_of (take k (accs_of s t))) (cs_rows s) ((cs_rows s)(?r \<mapsto> ?row))"
      using row_not_before [OF k phase_facts(1) [OF inv]] a(1) by (auto simp: same_times_def)
    moreover have "checked (cs_rows s) (ct_start (cs_thr s t)) (take k (accs_of s t))"
      using times(3) k by (auto simp: checked_def take_Suc_conv_app_nth)
    ultimately have "checked ((cs_rows s)(?r \<mapsto> ?row)) (ct_start (cs_thr s t)) (take k (accs_of s t))"
      by (rule checked_same [rotated])
    then show "thread_ok ((cs_rows s)(?r \<mapsto> ?row)) d (cs_clock s) ?th"
      using phase_facts [OF inv, of t] p k by (auto simp: thread_ok_def)
    have "d ?r = Some (ca_copy a, ct_end (cs_thr s t))"
      using cinvD(2) [OF inv row] pend by (simp add: row_ok_def)
    moreover have "pending (cs_thr s u) ?r = None" if "u \<noteq> t" for u
      using pending_unheld [OF inv row, of u] row_holder [OF inv row, of t] mem that by simp
    ultimately show "row_ok (set_thr t ?th (set_row ?r ?row s)) d ?r ?row"
      using cinvD(2) [OF inv row] held gone times(2) by (auto simp: row_ok_def split: if_splits)
  qed (use held mem pend in auto)
  then show ?thesis by simp
qed

lemma inv_release:
  assumes inv: "cinv s d" and p: "phase_of s t = Releasing i m" "i < m" and r: "r = ca_row (accs_of s t ! i)"
    and row: "cs_rows s r = Some row"
  shows "cinv (goto t (Releasing (Suc i) m) (set_row r (row\<lparr>cr_holder := None\<rparr>) s)) d"
proof -
  let ?th = "(cs_thr s t)\<lparr>ct_phase := Releasing (Suc i) m\<rparr>" and ?row = "row\<lparr>cr_holder := None\<rparr>"
  have m: "m \<le> length (accs_of s t)" using phase_facts(4) [OF inv, of t] p by simp
  let ?as = "take m (accs_of s t)"
  have split: "drop i ?as = accs_of s t ! i # drop (Suc i) ?as" using p(2) m Cons_nth_drop_Suc [of i ?as] by simp
  have held: "held (cs_thr s t) = insert r (held ?th)" using p r split by (simp add: held_def)
  have "distinct (map ca_row (drop i ?as))"
    using phase_facts(1) [OF inv, of t] by (simp add: drop_map [symmetric] take_map [symmetric])
  then have out: "r \<notin> held ?th" using split r by (simp add: held_def rows_of_def)
  have pend: "pending ?th = pending (cs_thr s t)" using p by (simp add: pending_def)
  have "cinv (set_thr t ?th (set_row r ?row s)) d"
  proof (rule cinv_row [OF inv row])
    show "thread_ok ((cs_rows s)(r \<mapsto> ?row)) d (cs_clock s) ?th"
      using phase_facts [OF inv, of t] p by (auto simp: thread_ok_def)
    have "r \<notin> held (cs_thr s u)" if "u \<noteq> t" for u
      using row_holder [OF inv row] held that by (metis insertI1 option.inject)
    then show "row_ok (set_thr t ?th (set_row r ?row s)) d r ?row"
      using cinvD(2) [OF inv row] out pend by (auto simp: row_ok_def)
  qed (use held pend in auto)
  then show ?thesis by simp
qed

text \<open>The stamp: what the transaction read is what the serial database holds at this moment.\<close>

lemma stamp_reads:
  assumes inv: "cinv s d" and p: "phase_of s t = Latching (length (accs_of s t))"
  shows "reads_of (accs_of s t) \<subseteq>\<^sub>m map_option fst \<circ> d"
proof (rule map_le_def [THEN iffD2], intro ballI)
  fix r assume "r \<in> dom (reads_of (accs_of s t))"
  then obtain v where v: "reads_of (accs_of s t) r = Some v" by blast
  then obtain a where a: "a \<in> set (accs_of s t)" "ca_row a = r" "ca_seen a = v"
    by (auto simp: reads_of_def dest!: map_of_SomeD)
  obtain row where row: "cs_rows s r = Some row" "\<not> ct_start (cs_thr s t) < cr_wts row"
    using phase_facts(4) [OF inv, of t] p a(1,2) by (auto simp: checked_def)
  have "r \<in> held (cs_thr s t)" using p a(1,2) by (auto simp: held_def rows_of_def)
  then have "d r = Some (cr_val row, cr_wts row)"
    using own_row_serial [OF inv row(1)] p by (simp add: pending_def)
  moreover have "seen_ok d (cs_thr s t)" using phase_facts(4) [OF inv, of t] p by simp
  ultimately have "d r = Some (v, cr_wts row)" using a row(2) by (fastforce simp: seen_ok_def)
  then show "reads_of (accs_of s t) r = (map_option fst \<circ> d) r" using v by simp
qed

lemma inv_stamp:
  assumes inv: "cinv s d" and p: "phase_of s t = Latching (length (accs_of s t))" and nowrap: "cs_clock s + 1 \<noteq> 0"
    and d': "d' = d ++ (\<lambda>r. map_option (\<lambda>v. (v, cs_clock s)) (writes_of (accs_of s t) r))"
  shows "cinv (set_thr t ((cs_thr s t)\<lparr>ct_end := cs_clock s, ct_phase := Returning (length (accs_of s t))\<rparr>)
       (s\<lparr>cs_clock := cs_clock s + 1, cs_log := l\<rparr>)) d'" (is "cinv (set_thr t ?th ?s) d'")
proof (rule cinv_step [OF inv, where t = t and th = ?th])
  note less = u64_less_Suc [OF nowrap]
  have at: "d' r = (case writes_of (accs_of s t) r of None \<Rightarrow> d r | Some v \<Rightarrow> Some (v, cs_clock s))" for r
    by (simp add: d' map_add_def split: option.splits)
  show "cs_clock s \<le> cs_clock (set_thr t ?th ?s)" using less by simp
  show "later (cs_clock s) d d'" by (auto simp: later_def at split: option.splits)
  have rows: "rows_of (accs_of s t) \<subseteq> dom d" using phase_facts(2) [OF inv] cinvD(3) [OF inv] by simp
  have "dom (writes_of (accs_of s t)) \<subseteq> dom d" by (rule subset_trans [OF writes_of_rows rows])
  then show "dom d' = dom d" by (auto simp: d' dom_def map_add_def split: option.splits)
  show "thread_ok (cs_rows (set_thr t ?th ?s)) d' (cs_clock (set_thr t ?th ?s)) ?th"
    using phase_facts [OF inv, of t] p less by (auto simp: thread_ok_def)
  fix r row assume "cs_rows (set_thr t ?th ?s) r = Some row"
  then have row: "cs_rows s r = Some row" by simp
  note ok = cinvD(2) [OF inv row]
  have mine: "held ?th = held (cs_thr s t)" "held (cs_thr s t) = rows_of (accs_of s t)"
    "pending (cs_thr s t) = Map.empty" "pending ?th = writes_of (accs_of s t)"
    using p by (simp_all add: held_def pending_def)
  have other: "d' r = d r" if "u \<noteq> t" "pending (cs_thr s u) r = Some v" for u v
  proof -
    have "r \<in> held (cs_thr s u)" using pending_held [of r "cs_thr s u"] that(2) by blast
    then have "r \<notin> rows_of (accs_of s t)" using row_holder [OF inv row] mine(2) that(1) by (metis option.inject)
    then show ?thesis using writes_of_rows [of "accs_of s t"] by (auto simp: at split: option.splits)
  qed
  show "row_ok (set_thr t ?th ?s) d' r row"
    unfolding row_ok_def
  proof (intro conjI allI impI)
    show "cr_wts row < cs_clock (set_thr t ?th ?s)" using ok less by (auto simp: row_ok_def)
    show "cr_holder row = Some u \<longleftrightarrow> r \<in> held (cs_thr (set_thr t ?th ?s) u)" for u
      using row_holder [OF inv row, of u] mine(1) by simp
    show "d' r = Some (v, ct_end (cs_thr (set_thr t ?th ?s) u))"
      if v: "pending (cs_thr (set_thr t ?th ?s) u) r = Some v" for u v
    proof (cases "u = t")
      case True
      then show ?thesis using v mine(4) by (simp add: at)
    next
      case False
      then have "pending (cs_thr s u) r = Some v" using v by simp
      then show ?thesis using other [OF False] ok False by (simp add: row_ok_def)
    qed
    assume none: "\<forall>u. pending (cs_thr (set_thr t ?th ?s) u) r = None"
    have "pending ?th r = None" using none [rule_format, of t] by simp
    then have "writes_of (accs_of s t) r = None" using mine(4) by simp
    moreover have "pending (cs_thr s u) r = None" for u
      using none [rule_format, of u] mine(3) by (cases "u = t") simp_all
    ultimately show "d' r = Some (cr_val row, cr_wts row)" using ok by (simp add: at row_ok_def)
  qed
qed simp_all

lemma inv_no_crash:
  assumes inv: "cinv s d" and p: "phase_of s t = Returning (Suc k)" and a: "a = accs_of s t ! k"
    and row: "cs_rows s (ca_row a) = Some row"
  shows "cr_wts row < ct_end (cs_thr s t)"
proof -
  have k: "Suc k \<le> length (accs_of s t)" "ct_start (cs_thr s t) < ct_end (cs_thr s t)"
    "checked (cs_rows s) (ct_start (cs_thr s t)) (take (Suc k) (accs_of s t))"
    using phase_facts(4) [OF inv, of t] p by simp_all
  then have "\<not> ct_start (cs_thr s t) < cr_wts row"
    using a row by (auto simp: checked_def take_Suc_conv_app_nth)
  then show ?thesis using k(2) by auto
qed

lemma cinv_cstep:
  assumes "cstep s t s'" and "cinv s d" and "replay db (cs_log s) = Some d"
  shows "\<exists>d'. cinv s' d' \<and> replay db (cs_log s') = Some d'"
  using assms
proof (induction rule: cstep.induct)
  case (cs_begin s t)
  then show ?case using inv_begin by fastforce
next
  case (cs_fetch s t r row w)
  then show ?case using inv_fetch by fastforce
next
  case (cs_put s t i v)
  then show ?case using inv_put by fastforce
next
  case (cs_rollback s t)
  then show ?case using inv_rollback by fastforce
next
  case (cs_sort s t)
  then show ?case using inv_sort by fastforce
next
  case (cs_latch s t i r row)
  then show ?case using inv_latch by fastforce
next
  case (cs_check s t i r row)
  then show ?case using inv_check by fastforce
next
  case (cs_fail s t i r row)
  then show ?case using inv_fail by fastforce
next
  case (cs_stamp s t)
  let ?d = "d ++ (\<lambda>r. map_option (\<lambda>v. (v, cs_clock s)) (writes_of (accs_of s t) r))"
  show ?case
  proof (intro exI conjI)
    show "cinv (emit s t (Committed (cs_clock s))
       (set_thr t ((cs_thr s t)\<lparr>ct_end := cs_clock s, ct_phase := Returning (length (accs_of s t))\<rparr>)
         (s\<lparr>cs_clock := cs_clock s + 1,
            cs_log := cs_log s @ [\<lparr>ce_thread = t, ce_ts = cs_clock s, ce_reads = reads_of (accs_of s t),
              ce_writes = writes_of (accs_of s t)\<rparr>]\<rparr>))) ?d"
      using inv_stamp [OF cs_stamp(3,1,2) refl] by simp
  qed (use cs_stamp(4) stamp_reads [OF cs_stamp(3,1)] in \<open>simp add: replay_snoc\<close>)
next
  case (cs_write s t k a row)
  then show ?case using inv_write by fastforce
next
  case (cs_crash s t k a row)
  then show ?case using inv_no_crash [OF cs_crash(6,1,2,4)] by blast
next
  case (cs_return s t k)
  then show ?case using inv_return by fastforce
next
  case (cs_returned s t)
  then show ?case using inv_returned by fastforce
next
  case (cs_release s t i m r row)
  then show ?case using inv_release by fastforce
next
  case (cs_done s t i m)
  then show ?case using inv_done by fastforce
qed auto

lemma csteps_inv:
  assumes "csteps s s'" and "cinv s d" and "replay db (cs_log s) = Some d"
  shows "\<exists>d'. cinv s' d' \<and> replay db (cs_log s') = Some d'"
  using assms
proof (induction rule: csteps.induct)
  case (csteps_step s s1 t s2)
  then show ?case using cinv_cstep by blast
qed blast

text \<open>The time stamps in the log increase.\<close>

definition log_ok :: "('r, 'v) cstate \<Rightarrow> bool" where
  "log_ok s \<longleftrightarrow> sorted_wrt (<) (map ce_ts (cs_log s)) \<and> (\<forall>e \<in> set (cs_log s). ce_ts e < cs_clock s)"

lemma log_ok_later: "log_ok s \<Longrightarrow> cs_log s' = cs_log s \<Longrightarrow> cs_clock s \<le> cs_clock s' \<Longrightarrow> log_ok s'"
  by (auto simp: log_ok_def)

lemma log_ok_cstep: "cstep s t s' \<Longrightarrow> log_ok s \<Longrightarrow> log_ok s'"
proof (induction rule: cstep.induct)
  case (cs_begin s t)
  then show ?case using u64_less_Suc [of "cs_clock s"] by (auto elim!: log_ok_later)
next
  case (cs_stamp s t)
  then show ?case using u64_less_Suc [of "cs_clock s"] by (auto simp: log_ok_def sorted_wrt_append)
qed (auto elim: log_ok_later)

lemma log_ok_csteps: "csteps s s' \<Longrightarrow> log_ok s \<Longrightarrow> log_ok s'"
  by (induction rule: csteps.induct) (auto dest: log_ok_cstep)

definition contents :: "('r, 'v) cstate \<Rightarrow> 'r \<rightharpoonup> 'v \<times> u64" where
  "contents s = (\<lambda>r. map_option (\<lambda>row. (cr_val row, cr_wts row)) (cs_rows s r))"

definition committing :: "('r, 'v) cstate \<Rightarrow> nat \<Rightarrow> bool" where
  "committing s t \<longleftrightarrow> phase_of s t \<noteq> Idle \<and> phase_of s t \<noteq> Active"

lemma quiet_contents:
  assumes inv: "cinv s d" and quiet: "\<forall>t. \<not> committing s t"
  shows "d = contents s"
proof
  fix r
  show "d r = contents s r"
  proof (cases "cs_rows s r")
    case None
    then show ?thesis using cinvD(3) [OF inv] by (auto simp: contents_def)
  next
    case (Some row)
    have "pending (cs_thr s t) r = None" for t
      using quiet [rule_format, of t] by (auto simp: committing_def pending_def split: phase.splits)
    then show ?thesis using cinvD(2) [OF inv Some] Some by (simp add: row_ok_def contents_def)
  qed
qed

lemma reach_inv:
  assumes "\<forall>r v w. db r = Some (v, w) \<longrightarrow> w < clock" and "csteps (cinit db clock) s"
  obtains d where "cinv s d" "replay db (cs_log s) = Some d"
  using csteps_inv [OF assms(2) cinv_init [OF assms(1)], of db] by (auto simp: cinit_def)

section \<open>Progress\<close>

text \<open>
  A thread inside \<open>OptCC::validate\<close> that cannot take a step waits for a row held by another one that is
  further in the order of the rows; so not all of them wait.
\<close>

definition waits :: "('r, 'v) cstate \<Rightarrow> nat \<Rightarrow> 'r \<Rightarrow> nat \<Rightarrow> bool" where
  "waits s t r u \<longleftrightarrow> (\<exists>i row. phase_of s t = Latching i \<and> i < length (accs_of s t) \<and> r = ca_row (accs_of s t ! i) \<and>
     cs_rows s r = Some row \<and> cr_holder row = Some u)"

lemma step_or_wait:
  assumes inv: "cinv s d" and com: "committing s t" and nowrap: "cs_clock s + 1 \<noteq> 0"
  shows "(\<exists>s'. cstep s t s') \<or> (\<exists>r u. waits s t r u)"
proof (cases "phase_of s t")
  case (Latching i)
  show ?thesis
  proof (cases "i < length (accs_of s t)")
    case True
    obtain row where row: "cs_rows s (ca_row (accs_of s t ! i)) = Some row" by (rule acc_row [OF inv True])
    show ?thesis
    proof (cases "cr_holder row")
      case None
      then show ?thesis using cs_latch [OF Latching True refl row] by blast
    next
      case (Some u)
      then show ?thesis using Latching True row unfolding waits_def by blast
    qed
  next
    case False
    then have "phase_of s t = Latching (length (accs_of s t))"
      using Latching phase_facts(4) [OF inv, of t] by simp
    then show ?thesis using cs_stamp [OF _ nowrap] by blast
  qed
next
  case (Checking i)
  then have "i < length (accs_of s t)" using phase_facts(4) [OF inv, of t] by simp
  then obtain row where "cs_rows s (ca_row (accs_of s t ! i)) = Some row" by (rule acc_row [OF inv])
  then show ?thesis using cs_check [OF Checking refl] cs_fail [OF Checking refl] by blast
next
  case (Returning k)
  show ?thesis
  proof (cases k)
    case 0
    then show ?thesis using Returning cs_returned by blast
  next
    case (Suc j)
    then have "j < length (accs_of s t)" using Returning phase_facts(4) [OF inv, of t] by simp
    then obtain row where row: "cs_rows s (ca_row (accs_of s t ! j)) = Some row" by (rule acc_row [OF inv])
    note p = Returning [unfolded Suc]
    show ?thesis
    proof (cases "ca_wr (accs_of s t ! j)")
      case True
      then show ?thesis using cs_write [OF p refl True row inv_no_crash [OF inv p refl row]] by blast
    next
      case False
      then show ?thesis using cs_return [OF p] by blast
    qed
  qed
next
  case (Releasing i m)
  show ?thesis
  proof (cases "i < m")
    case True
    then have "i < length (accs_of s t)" using Releasing phase_facts(4) [OF inv, of t] by simp
    then obtain row where "cs_rows s (ca_row (accs_of s t ! i)) = Some row" by (rule acc_row [OF inv])
    then show ?thesis using cs_release [OF Releasing True refl] by blast
  next
    case False
    then show ?thesis using cs_done [OF Releasing] by (meson not_less)
  qed
next
  case Crashed
  then show ?thesis using phase_facts(4) [OF inv, of t] by simp
qed (use com in \<open>simp_all add: committing_def\<close>)

lemma waits_unique: "waits s t r u \<Longrightarrow> waits s t r' u' \<Longrightarrow> r = r' \<and> u = u'"
  by (auto simp: waits_def)

lemma waits_order:
  assumes inv: "cinv s d" and w: "waits s t r u" and w': "waits s u q v"
  shows "r < q"
proof -
  obtain row where row: "cs_rows s r = Some row" "cr_holder row = Some u" using w by (auto simp: waits_def)
  obtain j where j: "phase_of s u = Latching j" "j < length (accs_of s u)" "q = ca_row (accs_of s u ! j)"
    using w' by (auto simp: waits_def)
  have "r \<in> rows_of (take j (accs_of s u))" using row_holder [OF inv row(1), of u] row(2) j(1) by (simp add: held_def)
  then obtain i where i: "i < j" "r = ca_row (accs_of s u ! i)"
    using j(2) by (auto simp: rows_of_def in_set_conv_nth)
  have srt: "sorted (map ca_row (accs_of s u))" "distinct (map ca_row (accs_of s u))"
    using phase_facts [OF inv, of u] j(1) by simp_all
  then have "sorted_wrt (<) (map ca_row (accs_of s u))" by (simp add: strict_sorted_iff)
  then show ?thesis using i j(2,3) sorted_wrt_nth_less [of "(<)" "map ca_row (accs_of s u)" i j] by simp
qed

lemma waits_committing:
  assumes inv: "cinv s d" and w: "waits s t r u"
  shows "committing s u"
proof -
  obtain row where row: "cs_rows s r = Some row" "cr_holder row = Some u" using w by (auto simp: waits_def)
  then have "r \<in> held (cs_thr s u)" using row_holder [OF inv row(1), of u] by simp
  then show ?thesis by (auto simp: held_def committing_def split: phase.splits)
qed

lemma some_step:
  assumes inv: "cinv s d" and fin: "finite {t. committing s t}" and com: "committing s t" and nowrap: "cs_clock s + 1 \<noteq> 0"
  shows "\<exists>u s'. committing s u \<and> cstep s u s'"
proof (rule ccontr)
  assume no: "\<not> (\<exists>u s'. committing s u \<and> cstep s u s')"
  then have "\<forall>u \<in> {u. committing s u}. \<exists>r v. waits s u r v"
    using step_or_wait [OF inv _ nowrap] by blast
  then obtain R V where w: "\<And>u. committing s u \<Longrightarrow> waits s u (R u) (V u)"
    using bchoice [of "{u. committing s u}" "\<lambda>u r. \<exists>v. waits s u r v"]
      bchoice [of "{u. committing s u}"] by (metis mem_Collect_eq)
  let ?m = "Max (R ` {u. committing s u})"
  have "?m \<in> R ` {u. committing s u}" using fin com by (intro Max_in) auto
  then obtain u where u: "committing s u" "R u = ?m" by auto
  have v: "committing s (V u)" by (rule waits_committing [OF inv w [OF u(1)]])
  have "R u < R (V u)" by (rule waits_order [OF inv w [OF u(1)] w [OF v]])
  moreover have "R (V u) \<le> ?m" using fin v by (intro Max_ge) auto
  ultimately show False using u(2) by simp
qed

text \<open>How many steps are left to a thread inside \<open>OptCC::validate\<close>, at most.\<close>

definition left :: "('r, 'v) cthread \<Rightarrow> nat" where
  "left th = (let n = length (ct_accs th) in case ct_phase th of
      Latching i \<Rightarrow> 2 * (n - i) + 2 * n + 3
    | Checking i \<Rightarrow> 2 * (n - i) + 2 * n + 2
    | Returning k \<Rightarrow> k + n + 2
    | Releasing i m \<Rightarrow> m - i + 1
    | _ \<Rightarrow> 0)"

text \<open>One step of a thread inside \<open>OptCC::validate\<close>: all other threads stay where they are.\<close>

lemma commit_step_left:
  assumes "cstep s t s'" and "cinv s d" and "committing s t"
  shows "left (cs_thr s' t) < left (cs_thr s t) \<and> (\<forall>u. u \<noteq> t \<longrightarrow> cs_thr s' u = cs_thr s u) \<and>
    unat (cs_clock s') \<le> Suc (unat (cs_clock s))"
  using assms
proof (induction rule: cstep.induct)
  case (cs_check s t i r row)
  have "i < length (accs_of s t)" using phase_facts(4) [OF cs_check(5), of t] cs_check(1) by simp
  then show ?case using cs_check by (auto simp: left_def Let_def)
next
  case (cs_fail s t i r row)
  have "i < length (accs_of s t)" using phase_facts(4) [OF cs_fail(5), of t] cs_fail(1) by simp
  then show ?case using cs_fail by (auto simp: left_def Let_def)
next
  case (cs_stamp s t)
  then show ?case by (auto simp: left_def Let_def unatSuc [of "cs_clock s"] add.commute)
next
  case (cs_crash s t k a row)
  then show ?case using inv_no_crash by blast
next
  case (cs_returned s t)
  then show ?case by (auto simp: left_def Let_def)
qed (auto simp: left_def Let_def committing_def)

lemma steps_finite: "csteps s s' \<Longrightarrow> finite {t. phase_of s t \<noteq> Idle} \<Longrightarrow> finite {t. phase_of s' t \<noteq> Idle}"
proof (induction rule: csteps.induct)
  case (csteps_step s s1 t s2)
  have "phase_of s2 u = phase_of s1 u" if "u \<noteq> t" for u
    using csteps_step(2) that by (induction rule: cstep.induct) auto
  then have "{u. phase_of s2 u \<noteq> Idle} \<subseteq> insert t {u. phase_of s1 u \<noteq> Idle}" by force
  then show ?case using csteps_step by (meson finite_insert finite_subset)
qed

definition work_left :: "('r, 'v) cstate \<Rightarrow> nat" where
  "work_left s = (\<Sum>t \<in> {t. committing s t}. left (cs_thr s t))"

text \<open>A step of some thread inside \<open>OptCC::validate\<close>.\<close>

definition commit_step :: "('r::linorder, 'v) cstate \<Rightarrow> ('r, 'v) cstate \<Rightarrow> bool" where
  "commit_step s s' \<longleftrightarrow> (\<exists>t. committing s t \<and> cstep s t s')"

lemma left_pos: "committing s t \<Longrightarrow> phase_of s t \<noteq> Crashed \<Longrightarrow> 0 < left (cs_thr s t)"
  by (auto simp: left_def Let_def committing_def split: phase.splits)

lemma left_zero: "\<not> committing s t \<Longrightarrow> left (cs_thr s t) = 0"
  by (auto simp: left_def Let_def committing_def)

lemma work_step:
  assumes st: "cstep s t s'" and inv: "cinv s d" and com: "committing s t" and fin: "finite {u. committing s u}"
  shows "work_left s' < work_left s" and "finite {u. committing s' u}" and "unat (cs_clock s') \<le> Suc (unat (cs_clock s))"
proof -
  note one = commit_step_left [OF st inv com]
  have sub: "{u. committing s' u} \<subseteq> {u. committing s u}" using one com by (auto simp: committing_def)
  show "finite {u. committing s' u}" by (rule finite_subset [OF sub fin])
  have "work_left s' = (\<Sum>u \<in> {u. committing s u}. left (cs_thr s' u))"
    unfolding work_left_def by (rule sum.mono_neutral_left [OF fin sub]) (simp add: left_zero)
  also have "\<dots> < work_left s"
    unfolding work_left_def
  proof (rule sum_strict_mono_ex1 [OF fin])
    show "\<forall>u \<in> {u. committing s u}. left (cs_thr s' u) \<le> left (cs_thr s u)"
      using one by (metis le_eq_less_or_eq)
  qed (use one com in auto)
  finally show "work_left s' < work_left s" .
  show "unat (cs_clock s') \<le> Suc (unat (cs_clock s))" using one by simp
qed

lemma commits_finish:
  assumes "cinv s d" and "replay db (cs_log s) = Some d" and "finite {t. committing s t}"
    and "unat (cs_clock s) + work_left s < 2 ^ 64"
  shows "\<exists>s'. commit_step\<^sup>*\<^sup>* s s' \<and> (\<forall>t. \<not> committing s' t)"
  using assms
proof (induction "work_left s" arbitrary: s d rule: less_induct)
  case less
  show ?case
  proof (cases "\<exists>t. committing s t")
    case False
    then show ?thesis by blast
  next
    case True
    then obtain t where t: "committing s t" by blast
    have "phase_of s t \<noteq> Crashed" using phase_facts(4) [OF less.prems(1), of t] by auto
    then have "0 < work_left s"
      unfolding work_left_def using left_pos [OF t] t less.prems(3) by (intro sum_pos2 [where i = t]) auto
    then have "unat (cs_clock s) + Suc 0 < 2 ^ 64" using less.prems(4) by simp
    then have nowrap: "cs_clock s + 1 \<noteq> 0" using unat_Suc_bound by blast
    obtain u s1 where u: "committing s u" "cstep s u s1" using some_step [OF less.prems(1,3) t nowrap] by blast
    note w = work_step [OF u(2) less.prems(1) u(1) less.prems(3)]
    obtain d1 where d1: "cinv s1 d1" "replay db (cs_log s1) = Some d1"
      using cinv_cstep [OF u(2) less.prems(1,2)] by blast
    have "unat (cs_clock s1) + work_left s1 < 2 ^ 64" using w less.prems(4) by simp
    from less.hyps [OF w(1) d1 w(2) this] obtain s' where "commit_step\<^sup>*\<^sup>* s1 s'" "\<forall>t. \<not> committing s' t" by blast
    moreover have "commit_step s s1" using u by (auto simp: commit_step_def)
    ultimately show ?thesis by (meson converse_rtranclp_into_rtranclp)
  qed
qed

end
