(* ===== verification/Thread_Props.thy ===== *)
theory Thread_Props
  imports Threads
begin

text \<open>
  What the interleavings of \<open>Threads\<close> guarantee: serializability in the order of the time stamps, no
  failing assertion, mutual exclusion, no deadlock, and the end of every commit. The witnesses run
  two transactions that race for the same row.
\<close>

section \<open>An example\<close>

definition two :: "('r, 'v) cthread \<Rightarrow> ('r, 'v) cthread \<Rightarrow> nat \<Rightarrow> ('r, 'v) cthread" where
  "two a b = (\<lambda>t. if t = 0 then a else if t = 1 then b
     else \<lparr>ct_start = 0, ct_end = 0, ct_accs = [], ct_phase = Idle\<rparr>)"

lemma two_simps [simp]:
  "two a b 0 = a" "two a b (Suc 0) = b" "(two a b)(0 := c) = two c b" "(two a b)(Suc 0 := c) = two a c"
  by (auto simp: two_def fun_eq_iff)

definition ex_rows :: "nat \<rightharpoonup> string \<times> u64" where
  "ex_rows = [3 \<mapsto> (''a'', 0)]"

definition ex_state :: "string crow \<Rightarrow> u64 \<Rightarrow> (nat, string) cthread \<Rightarrow> (nat, string) cthread \<Rightarrow>
    (nat, string) centry list \<Rightarrow> (nat \<times> (nat, string) cout) list \<Rightarrow> (nat, string) cstate" where
  "ex_state row c a b l os = \<lparr>cs_rows = [3 \<mapsto> row], cs_clock = c, cs_thr = two a b, cs_log = l, cs_out = os\<rparr>"

text \<open>What the threads are answered, in the order of the steps.\<close>

definition ex_out :: "(nat \<times> (nat, string) cout) list" where
  "ex_out = [(0, Began 1), (1, Began 2), (0, Fetched 3 ''a''), (1, Fetched 3 ''a''), (0, Wrote 3 ''x''),
     (0, Committed 3), (1, Failed)]"

abbreviation ex_row :: "string \<Rightarrow> u64 \<Rightarrow> nat option \<Rightarrow> string crow" where
  "ex_row v w hold \<equiv> \<lparr>cr_val = v, cr_wts = w, cr_holder = hold\<rparr>"

abbreviation ex_thread :: "u64 \<Rightarrow> u64 \<Rightarrow> (nat, string) cacc list \<Rightarrow> phase \<Rightarrow> (nat, string) cthread" where
  "ex_thread b e as p \<equiv> \<lparr>ct_start = b, ct_end = e, ct_accs = as, ct_phase = p\<rparr>"

text \<open>Thread 0 writes row 3, thread 1 reads it.\<close>

abbreviation ex_write :: "string \<Rightarrow> (nat, string) cacc list" where
  "ex_write v \<equiv> [\<lparr>ca_row = 3, ca_wr = True, ca_copy = v, ca_seen = ''a''\<rparr>]"

abbreviation ex_read :: "(nat, string) cacc list" where
  "ex_read \<equiv> [\<lparr>ca_row = 3, ca_wr = False, ca_copy = ''a'', ca_seen = ''a''\<rparr>]"

definition ex_log :: "(nat, string) centry list" where
  "ex_log = [\<lparr>ce_thread = 0, ce_ts = 3, ce_reads = [3 \<mapsto> ''a''], ce_writes = [3 \<mapsto> ''x'']\<rparr>]"

lemma step_to: "csteps s s1 \<Longrightarrow> cstep s1 t s2 \<Longrightarrow> s2 = s3 \<Longrightarrow> csteps s s3"
  using csteps_step by blast

lemmas ex_simps = ex_state_def ex_out_def reads_of_def writes_of_def ex_log_def

lemma ex_init: "cinit ex_rows 1 = ex_state (ex_row ''a'' 0 None) 1 (ex_thread 0 0 [] Idle) (ex_thread 0 0 [] Idle) [] []"
  by (auto simp: cinit_def ex_rows_def ex_state_def two_def fun_eq_iff)

text \<open>Both have started and accessed the row.\<close>

lemma ex_active:
  "csteps (cinit ex_rows 1) (ex_state (ex_row ''a'' 0 None) 3 (ex_thread 1 0 (ex_write ''x'') Active) (ex_thread 2 0 ex_read Active) [] (take 5 ex_out))"
proof -
  have "csteps (cinit ex_rows 1) (ex_state (ex_row ''a'' 0 None) 2 (ex_thread 1 0 [] Active) (ex_thread 0 0 [] Idle) [] (take 1 ex_out))"
    unfolding ex_init by (rule step_to [OF csteps_refl cs_begin [where t = 0]]) (simp_all add: ex_simps)
  then have "csteps (cinit ex_rows 1) (ex_state (ex_row ''a'' 0 None) 3 (ex_thread 1 0 [] Active) (ex_thread 2 0 [] Active) [] (take 2 ex_out))"
    by (rule step_to [OF _ cs_begin [where t = 1]]) (simp_all add: ex_simps)
  then have "csteps (cinit ex_rows 1) (ex_state (ex_row ''a'' 0 None) 3 (ex_thread 1 0 (ex_write ''a'') Active) (ex_thread 2 0 [] Active) [] (take 3 ex_out))"
    by (rule step_to [OF _ cs_fetch [where t = 0 and r = 3 and row = "ex_row ''a'' 0 None" and w = True]]) (simp_all add: ex_simps)
  then have "csteps (cinit ex_rows 1) (ex_state (ex_row ''a'' 0 None) 3 (ex_thread 1 0 (ex_write ''a'') Active) (ex_thread 2 0 ex_read Active) [] (take 4 ex_out))"
    by (rule step_to [OF _ cs_fetch [where t = 1 and r = 3 and row = "ex_row ''a'' 0 None" and w = False]]) (simp_all add: ex_simps)
  then show ?thesis
    by (rule step_to [OF _ cs_put [where t = 0 and i = 0 and v = "''x''"]]) (simp_all add: ex_simps)
qed

text \<open>Thread 0 holds the row and has drawn its time stamp, thread 1 waits for the row.\<close>

lemma ex_race:
  "csteps (cinit ex_rows 1) (ex_state (ex_row ''a'' 0 (Some 0)) 4 (ex_thread 1 3 (ex_write ''x'') (Returning 1))
     (ex_thread 2 0 ex_read (Latching 0)) ex_log (take 6 ex_out))"
proof -
  have "csteps (cinit ex_rows 1) (ex_state (ex_row ''a'' 0 None) 3 (ex_thread 1 0 (ex_write ''x'') (Latching 0)) (ex_thread 2 0 ex_read Active) [] (take 5 ex_out))"
    by (rule step_to [OF ex_active cs_sort [where t = 0]]) (simp_all add: ex_simps)
  then have "csteps (cinit ex_rows 1) (ex_state (ex_row ''a'' 0 None) 3 (ex_thread 1 0 (ex_write ''x'') (Latching 0)) (ex_thread 2 0 ex_read (Latching 0)) [] (take 5 ex_out))"
    by (rule step_to [OF _ cs_sort [where t = 1]]) (simp_all add: ex_simps)
  then have "csteps (cinit ex_rows 1) (ex_state (ex_row ''a'' 0 (Some 0)) 3 (ex_thread 1 0 (ex_write ''x'') (Checking 0)) (ex_thread 2 0 ex_read (Latching 0)) [] (take 5 ex_out))"
    by (rule step_to [OF _ cs_latch [where t = 0 and i = 0 and r = 3 and row = "ex_row ''a'' 0 None"]]) (simp_all add: ex_simps)
  then have "csteps (cinit ex_rows 1) (ex_state (ex_row ''a'' 0 (Some 0)) 3 (ex_thread 1 0 (ex_write ''x'') (Latching 1)) (ex_thread 2 0 ex_read (Latching 0)) [] (take 5 ex_out))"
    by (rule step_to [OF _ cs_check [where t = 0 and i = 0 and r = 3 and row = "ex_row ''a'' 0 (Some 0)"]]) (simp_all add: ex_simps)
  then show ?thesis
    by (rule step_to [OF _ cs_stamp [where t = 0]]) (simp_all add: ex_simps)
qed

text \<open>Both are through: thread 0 has committed, thread 1 has failed its check.\<close>

lemma ex_end:
  "csteps (cinit ex_rows 1) (ex_state (ex_row ''x'' 3 None) 4 (ex_thread 1 3 (ex_write ''x'') Idle) (ex_thread 2 0 ex_read Idle) ex_log ex_out)"
proof -
  have "csteps (cinit ex_rows 1) (ex_state (ex_row ''x'' 3 (Some 0)) 4 (ex_thread 1 3 (ex_write ''x'') (Returning 0)) (ex_thread 2 0 ex_read (Latching 0)) ex_log (take 6 ex_out))"
    by (rule step_to [OF ex_race cs_write [where t = 0 and k = 0 and row = "ex_row ''a'' 0 (Some 0)", OF _ refl]]) (simp_all add: ex_simps)
  then have "csteps (cinit ex_rows 1) (ex_state (ex_row ''x'' 3 (Some 0)) 4 (ex_thread 1 3 (ex_write ''x'') (Releasing 0 1)) (ex_thread 2 0 ex_read (Latching 0)) ex_log (take 6 ex_out))"
    by (rule step_to [OF _ cs_returned [where t = 0]]) (simp_all add: ex_simps)
  then have "csteps (cinit ex_rows 1) (ex_state (ex_row ''x'' 3 None) 4 (ex_thread 1 3 (ex_write ''x'') (Releasing 1 1)) (ex_thread 2 0 ex_read (Latching 0)) ex_log (take 6 ex_out))"
    by (rule step_to [OF _ cs_release [where t = 0 and i = 0 and m = 1 and r = 3 and row = "ex_row ''x'' 3 (Some 0)"]]) (simp_all add: ex_simps)
  then have "csteps (cinit ex_rows 1) (ex_state (ex_row ''x'' 3 None) 4 (ex_thread 1 3 (ex_write ''x'') Idle) (ex_thread 2 0 ex_read (Latching 0)) ex_log (take 6 ex_out))"
    by (rule step_to [OF _ cs_done [where t = 0 and i = 1 and m = 1]]) (simp_all add: ex_simps)
  then have "csteps (cinit ex_rows 1) (ex_state (ex_row ''x'' 3 (Some 1)) 4 (ex_thread 1 3 (ex_write ''x'') Idle) (ex_thread 2 0 ex_read (Checking 0)) ex_log (take 6 ex_out))"
    by (rule step_to [OF _ cs_latch [where t = 1 and i = 0 and r = 3 and row = "ex_row ''x'' 3 None"]]) (simp_all add: ex_simps)
  then have "csteps (cinit ex_rows 1) (ex_state (ex_row ''x'' 3 (Some 1)) 4 (ex_thread 1 3 (ex_write ''x'') Idle) (ex_thread 2 0 ex_read (Releasing 0 1)) ex_log ex_out)"
    by (rule step_to [OF _ cs_fail [where t = 1 and i = 0 and r = 3 and row = "ex_row ''x'' 3 (Some 1)"]]) (simp_all add: ex_simps)
  then have "csteps (cinit ex_rows 1) (ex_state (ex_row ''x'' 3 None) 4 (ex_thread 1 3 (ex_write ''x'') Idle) (ex_thread 2 0 ex_read (Releasing 1 1)) ex_log ex_out)"
    by (rule step_to [OF _ cs_release [where t = 1 and i = 0 and m = 1 and r = 3 and row = "ex_row ''x'' 3 (Some 1)"]]) (simp_all add: ex_simps)
  then show ?thesis
    by (rule step_to [OF _ cs_done [where t = 1 and i = 1 and m = 1]]) (simp_all add: ex_simps)
qed

section \<open>Properties\<close>

lemma ex_times: "\<forall>r v w. ex_rows r = Some (v, w) \<longrightarrow> w < 1"
  by (simp add: ex_rows_def)

lemma ex_quiet: "\<not> committing (ex_state row c (ex_thread a b as Idle) (ex_thread a' b' as' Idle) l os) t"
  by (simp add: committing_def ex_state_def two_def)

text \<open>
  C4. Serializability of any interleaving of the latch operations, reads, writes and time stamps of any
  number of threads, without the assumption that calls are atomic: the transactions that passed
  validation have increasing time stamps; executed one after the other in this order on the initial
  rows, every read returns the value it returned; and whenever no thread is inside \<open>validate\<close> the rows
  and their update times are those of this serial execution.
\<close>

theorem threads_serializable:
  assumes "\<forall>r v w. db r = Some (v, w) \<longrightarrow> w < clock" and "csteps (cinit db clock) s"
  shows "\<exists>d. replay db (cs_log s) = Some d \<and> sorted_wrt (<) (map ce_ts (cs_log s)) \<and>
    ((\<forall>t. \<not> committing s t) \<longrightarrow> contents s = d)"
proof -
  obtain d where "cinv s d" "replay db (cs_log s) = Some d" by (rule reach_inv [OF assms])
  moreover have "log_ok s" by (rule log_ok_csteps [OF assms(2)]) (simp add: log_ok_def cinit_def)
  ultimately show ?thesis using quiet_contents [of s d] by (auto simp: log_ok_def)
qed

theorem threads_serializable_witness:
  "replay ex_rows ex_log = Some [3 \<mapsto> (''x'', 3)]"
proof -
  obtain d where d: "replay ex_rows ex_log = Some d"
    "contents (ex_state (ex_row ''x'' 3 None) 4 (ex_thread 1 3 (ex_write ''x'') Idle) (ex_thread 2 0 ex_read Idle) ex_log ex_out) = d"
    using threads_serializable [OF ex_times ex_end] ex_quiet by (auto simp: ex_state_def)
  moreover have "contents (ex_state (ex_row ''x'' 3 None) 4 (ex_thread 1 3 (ex_write ''x'') Idle) (ex_thread 2 0 ex_read Idle) ex_log ex_out) =
      [3 \<mapsto> (''x'', 3)]"
    by (auto simp: contents_def ex_state_def fun_eq_iff)
  ultimately show ?thesis by simp
qed

text \<open>
  C6. Mutual exclusion and the assertion of \<open>Row_occ::write\<close>: in every reachable state the mutex of a row
  is held by exactly the thread that has latched and not yet released it, the row a committing thread
  is about to write is its own and older than its time stamp, and no thread has failed the assertion.
\<close>

theorem threads_exclusive:
  assumes "\<forall>r v w. db r = Some (v, w) \<longrightarrow> w < clock" and "csteps (cinit db clock) s"
  shows "phase_of s t \<noteq> Crashed \<and>
    (\<forall>r row. cs_rows s r = Some row \<longrightarrow> (cr_holder row = Some t \<longleftrightarrow> r \<in> held (cs_thr s t))) \<and>
    (\<forall>k. phase_of s t = Returning (Suc k) \<longrightarrow> (\<exists>row. cs_rows s (ca_row (accs_of s t ! k)) = Some row \<and>
       cr_holder row = Some t \<and> cr_wts row < ct_end (cs_thr s t)))"
proof -
  obtain d where inv: "cinv s d" by (rule reach_inv [OF assms])
  have "phase_of s t \<noteq> Crashed" using phase_facts(4) [OF inv, of t] by auto
  moreover have "\<exists>row. cs_rows s (ca_row (accs_of s t ! k)) = Some row \<and>
      cr_holder row = Some t \<and> cr_wts row < ct_end (cs_thr s t)" if p: "phase_of s t = Returning (Suc k)" for k
  proof -
    have k: "k < length (accs_of s t)" using phase_facts(4) [OF inv, of t] p by simp
    obtain row where row: "cs_rows s (ca_row (accs_of s t ! k)) = Some row" by (rule acc_row [OF inv k])
    have "ca_row (accs_of s t ! k) \<in> held (cs_thr s t)" using p k by (simp add: held_def rows_of_def)
    then show ?thesis using row row_holder [OF inv row, of t] inv_no_crash [OF inv p refl row] by simp
  qed
  ultimately show ?thesis using row_holder [OF inv] by blast
qed

theorem threads_exclusive_witness:
  "held (cs_thr (ex_state (ex_row ''a'' 0 (Some 0)) 4 (ex_thread 1 3 (ex_write ''x'') (Returning 1))
     (ex_thread 2 0 ex_read (Latching 0)) ex_log (take 6 ex_out)) 0) = {3} \<and>
   (3 :: nat) \<notin> held (cs_thr (ex_state (ex_row ''a'' 0 (Some 0)) 4 (ex_thread 1 3 (ex_write ''x'') (Returning 1))
     (ex_thread 2 0 ex_read (Latching 0)) ex_log (take 6 ex_out)) 1)"
  using threads_exclusive [OF ex_times ex_race, of 1] by (auto simp: held_def ex_state_def rows_of_def)

text \<open>
  C7. No deadlock: in every reachable state in which threads are inside \<open>validate\<close>, one of them can take
  its next step, because they latch their rows in the same order.
\<close>

theorem threads_progress:
  assumes "\<forall>r v w. db r = Some (v, w) \<longrightarrow> w < clock" and "csteps (cinit db clock) s"
    and "committing s t" and "cs_clock s + 1 \<noteq> 0"
  shows "\<exists>u s'. committing s u \<and> cstep s u s'"
proof -
  obtain d where inv: "cinv s d" by (rule reach_inv [OF assms(1,2)])
  have "finite {t. phase_of s t \<noteq> Idle}" by (rule steps_finite [OF assms(2)]) (simp add: cinit_def)
  then have "finite {t. committing s t}" by (rule rev_finite_subset) (auto simp: committing_def)
  from some_step [OF inv this assms(3,4)] show ?thesis .
qed

theorem threads_progress_witness:
  "\<exists>u s'. committing (ex_state (ex_row ''a'' 0 (Some 0)) 4 (ex_thread 1 3 (ex_write ''x'') (Returning 1))
     (ex_thread 2 0 ex_read (Latching 0)) ex_log (take 6 ex_out)) u \<and>
   cstep (ex_state (ex_row ''a'' 0 (Some 0)) 4 (ex_thread 1 3 (ex_write ''x'') (Returning 1))
     (ex_thread 2 0 ex_read (Latching 0)) ex_log (take 6 ex_out)) u s'"
  by (rule threads_progress [OF ex_times ex_race, of 1]) (simp_all add: committing_def ex_state_def)

text \<open>
  C8. Every commit ends: from every reachable state the threads inside \<open>validate\<close> can all be run to the
  end without the help of any other thread, as long as the clock does not wrap on the way.
\<close>

theorem threads_finish:
  assumes "\<forall>r v w. db r = Some (v, w) \<longrightarrow> w < clock" and "csteps (cinit db clock) s"
    and "unat (cs_clock s) + work_left s < 2 ^ 64"
  shows "\<exists>s'. commit_step\<^sup>*\<^sup>* s s' \<and> (\<forall>t. \<not> committing s' t)"
proof -
  obtain d where inv: "cinv s d" "replay db (cs_log s) = Some d" by (rule reach_inv [OF assms(1,2)])
  have "finite {t. phase_of s t \<noteq> Idle}" by (rule steps_finite [OF assms(2)]) (simp add: cinit_def)
  then have "finite {t. committing s t}" by (rule rev_finite_subset) (auto simp: committing_def)
  from commits_finish [OF inv this assms(3)] show ?thesis .
qed

theorem threads_finish_witness:
  "\<exists>s'. commit_step\<^sup>*\<^sup>* (ex_state (ex_row ''a'' 0 (Some 0)) 4 (ex_thread 1 3 (ex_write ''x'') (Returning 1))
     (ex_thread 2 0 ex_read (Latching 0)) ex_log (take 6 ex_out)) s' \<and> (\<forall>t. \<not> committing s' t)"
proof (rule threads_finish [OF ex_times ex_race])
  let ?s = "ex_state (ex_row ''a'' 0 (Some 0)) 4 (ex_thread 1 3 (ex_write ''x'') (Returning 1))
     (ex_thread 2 0 ex_read (Latching 0)) ex_log (take 6 ex_out)"
  have "{t. committing ?s t} = {0, 1}" by (auto simp: committing_def ex_state_def two_def)
  then show "unat (cs_clock ?s) + work_left ?s < 2 ^ 64"
    by (simp add: work_left_def ex_state_def left_def)
qed

end
