(* ===== verification/Thread_Linear.thy ===== *)
theory Thread_Linear
  imports Thread_Props
begin

text \<open>
  Calls are atomic: the threads of \<open>Threads\<close>, whose commits are sequences of latch operations, checks,
  writes and releases that interleave with those of other threads, refine a machine that executes
  each call in one step (\<open>atomic\<close>). The abstraction function \<open>lin\<close> fixes the linearization points: a
  successful commit happens when it draws its time stamp, a failed one at the check that fails, an
  access while it holds the mutex of its row. The two machines give the same answers (\<open>cs_out\<close>,
  \<open>am_out\<close>): a refusal and a failed commit are steps of the atomic machine, with a guard of their own.
\<close>

section \<open>The atomic machine\<close>

text \<open>
  A transaction that runs has a start time and its accesses by row; one that has ended has the time
  stamp of its commit, or 0 if it did not commit.
\<close>

datatype ('r, 'v) atrans = Running u64 "'r \<rightharpoonup> ('r, 'v) cacc" | Ended u64

record ('r, 'v) amach =
  am_db :: "'r \<rightharpoonup> 'v \<times> u64"
  am_clock :: u64
  am_thr :: "nat \<Rightarrow> ('r, 'v) atrans"
  am_out :: "(nat \<times> ('r, 'v) cout) list"

abbreviation set_trans :: "nat \<Rightarrow> ('r, 'v) atrans \<Rightarrow> ('r, 'v) amach \<Rightarrow> ('r, 'v) amach" where
  "set_trans t x a \<equiv> a\<lparr>am_thr := (am_thr a)(t := x)\<rparr>"

abbreviation answer :: "('r, 'v) amach \<Rightarrow> nat \<Rightarrow> ('r, 'v) cout \<Rightarrow> ('r, 'v) amach \<Rightarrow> ('r, 'v) amach" where
  "answer a t x a' \<equiv> a'\<lparr>am_out := am_out a @ [(t, x)]\<rparr>"

definition too_new :: "('r \<rightharpoonup> 'v \<times> u64) \<Rightarrow> u64 \<Rightarrow> 'r \<Rightarrow> bool" where
  "too_new db start r \<longleftrightarrow> (\<exists>v w. db r = Some (v, w) \<and> start < w)"

definition write_accs :: "('r \<rightharpoonup> 'v \<times> u64) \<Rightarrow> ('r \<rightharpoonup> ('r, 'v) cacc) \<Rightarrow> u64 \<Rightarrow> 'r \<rightharpoonup> 'v \<times> u64" where
  "write_accs db A ts = (\<lambda>r. case A r of
      Some x \<Rightarrow> if ca_wr x then Some (ca_copy x, ts) else db r
    | None \<Rightarrow> db r)"

inductive atomic :: "('r, 'v) amach \<Rightarrow> nat \<Rightarrow> ('r, 'v) amach \<Rightarrow> bool" where
  at_begin:
    "am_thr a t = Ended e \<Longrightarrow> am_clock a + 1 \<noteq> 0 \<Longrightarrow>
     atomic a t (answer a t (Began (am_clock a))
       (set_trans t (Running (am_clock a) Map.empty) (a\<lparr>am_clock := am_clock a + 1\<rparr>)))"
| at_access:
    "am_thr a t = Running start A \<Longrightarrow> A r = None \<Longrightarrow> am_db a r = Some (v, w) \<Longrightarrow> \<not> start < w \<Longrightarrow>
     atomic a t (answer a t (Fetched r v)
       (set_trans t (Running start (A(r \<mapsto> \<lparr>ca_row = r, ca_wr = wr, ca_copy = v, ca_seen = v\<rparr>))) a))"
| at_refuse:
    "am_thr a t = Running start A \<Longrightarrow> A r = None \<Longrightarrow> too_new (am_db a) start r \<Longrightarrow>
     atomic a t (answer a t (Refused r) a)"
| at_reread:
    "am_thr a t = Running start A \<Longrightarrow> A r = Some x \<Longrightarrow> atomic a t (answer a t (Reread r (ca_copy x)) a)"
| at_put:
    "am_thr a t = Running start A \<Longrightarrow> A r = Some x \<Longrightarrow>
     atomic a t (answer a t (Wrote r v) (set_trans t (Running start (A(r \<mapsto> x\<lparr>ca_wr := True, ca_copy := v\<rparr>))) a))"
| at_rollback:
    "am_thr a t = Running start A \<Longrightarrow> atomic a t (answer a t Rolled_Back (set_trans t (Ended 0) a))"
| at_commit:
    "am_thr a t = Running start A \<Longrightarrow> \<forall>r \<in> dom A. \<not> too_new (am_db a) start r \<Longrightarrow> am_clock a + 1 \<noteq> 0 \<Longrightarrow>
     atomic a t (answer a t (Committed (am_clock a)) (set_trans t (Ended (am_clock a))
       (a\<lparr>am_db := write_accs (am_db a) A (am_clock a), am_clock := am_clock a + 1\<rparr>)))"
| at_fail:
    "am_thr a t = Running start A \<Longrightarrow> r \<in> dom A \<Longrightarrow> too_new (am_db a) start r \<Longrightarrow>
     atomic a t (answer a t Failed (set_trans t (Ended 0) a))"

inductive atomics :: "('r, 'v) amach \<Rightarrow> ('r, 'v) amach \<Rightarrow> bool" where
  atomics_refl: "atomics a a"
| atomics_step: "atomics a a1 \<Longrightarrow> atomic a1 t a2 \<Longrightarrow> atomics a a2"

section \<open>The abstraction\<close>

definition acc_fun :: "('r, 'v) cacc list \<Rightarrow> 'r \<rightharpoonup> ('r, 'v) cacc" where
  "acc_fun as = map_of (map (\<lambda>a. (ca_row a, a)) as)"

text \<open>A transaction is running until the step at which its commit takes effect or fails.\<close>

definition lin_thr :: "('r, 'v) cthread \<Rightarrow> ('r, 'v) atrans" where
  "lin_thr th = (case ct_phase th of
      Active \<Rightarrow> Running (ct_start th) (acc_fun (ct_accs th))
    | Latching i \<Rightarrow> Running (ct_start th) (acc_fun (ct_accs th))
    | Checking i \<Rightarrow> Running (ct_start th) (acc_fun (ct_accs th))
    | _ \<Rightarrow> Ended (ct_end th))"

definition lin :: "('r, 'v) cstate \<Rightarrow> ('r \<rightharpoonup> 'v \<times> u64) \<Rightarrow> ('r, 'v) amach" where
  "lin s d = \<lparr>am_db = d, am_clock = cs_clock s, am_thr = (\<lambda>t. lin_thr (cs_thr s t)), am_out = cs_out s\<rparr>"

lemma lin_simps [simp]:
  "am_db (lin s d) = d" "am_clock (lin s d) = cs_clock s" "am_thr (lin s d) t = lin_thr (cs_thr s t)"
  "am_out (lin s d) = cs_out s"
  by (simp_all add: lin_def)

lemma amach_eqI:
  "am_db a = am_db b \<Longrightarrow> am_clock a = am_clock b \<Longrightarrow> (\<And>t. am_thr a t = am_thr b t) \<Longrightarrow>
   am_out a = am_out b \<Longrightarrow> (a :: ('r, 'v) amach) = b"
  by (rule amach.equality) auto

lemma acc_fun_iff:
  assumes "distinct (map ca_row as)"
  shows "acc_fun as r = Some a \<longleftrightarrow> a \<in> set as \<and> ca_row a = r"
proof -
  have "distinct (map fst (map (\<lambda>a. (ca_row a, a)) as))" using assms by (simp add: comp_def)
  then show ?thesis by (auto simp: acc_fun_def)
qed

lemma dom_acc_fun: "dom (acc_fun as) = rows_of as"
  by (auto simp: acc_fun_def rows_of_def dom_map_of_conv_image_fst image_image)

lemma acc_fun_cong:
  assumes "distinct (map ca_row as)" and "distinct (map ca_row bs)" and "set as = set bs"
  shows "acc_fun as = acc_fun bs"
proof
  fix r show "acc_fun as r = acc_fun bs r"
    using acc_fun_iff [OF assms(1), of r] acc_fun_iff [OF assms(2), of r] assms(3) by (metis not_Some_eq)
qed

lemma acc_fun_snoc:
  assumes "ca_row a \<notin> rows_of as"
  shows "acc_fun (as @ [a]) = (acc_fun as)(ca_row a \<mapsto> a)"
proof -
  have none: "acc_fun as (ca_row a) = None" using assms dom_acc_fun [of as] by blast
  have "acc_fun (as @ [a]) = [ca_row a \<mapsto> a] ++ acc_fun as" by (simp add: acc_fun_def)
  then show ?thesis using none by (auto simp: map_add_def fun_eq_iff split: option.splits)
qed

lemma acc_fun_update:
  assumes "distinct (map ca_row as)" and "i < length as" and "ca_row b = ca_row (as ! i)"
  shows "acc_fun (as[i := b]) = (acc_fun as)(ca_row b \<mapsto> b)"
proof
  fix r
  have dis: "distinct (map ca_row (as[i := b]))" using assms(1,3) by (simp add: map_row_update)
  have "acc_fun (as[i := b]) r = Some a \<longleftrightarrow> ((acc_fun as)(ca_row b \<mapsto> b)) r = Some a" for a
    using assms acc_fun_iff [OF dis, of r a] acc_fun_iff [OF assms(1), of r a]
    by (auto simp: in_set_conv_nth nth_list_update distinct_conv_nth split: if_splits)
  then show "acc_fun (as[i := b]) r = ((acc_fun as)(ca_row b \<mapsto> b)) r" by (metis not_Some_eq)
qed

section \<open>The simulation\<close>

text \<open>A transaction that has not drawn its stamp has no end time yet.\<close>

definition ends_ok :: "('r, 'v) cstate \<Rightarrow> bool" where
  "ends_ok s \<longleftrightarrow> (\<forall>t start A. lin_thr (cs_thr s t) = Running start A \<longrightarrow> ct_end (cs_thr s t) = 0)"

lemma lin_thr_phase:
  "ct_phase th = Idle \<Longrightarrow> lin_thr th = Ended (ct_end th)"
  "ct_phase th = Active \<Longrightarrow> lin_thr th = Running (ct_start th) (acc_fun (ct_accs th))"
  "ct_phase th = Latching i \<Longrightarrow> lin_thr th = Running (ct_start th) (acc_fun (ct_accs th))"
  "ct_phase th = Checking i \<Longrightarrow> lin_thr th = Running (ct_start th) (acc_fun (ct_accs th))"
  "ct_phase th = Returning i \<Longrightarrow> lin_thr th = Ended (ct_end th)"
  "ct_phase th = Releasing i m \<Longrightarrow> lin_thr th = Ended (ct_end th)"
  "ct_phase th = Crashed \<Longrightarrow> lin_thr th = Ended (ct_end th)"
  by (simp_all add: lin_thr_def)

lemma ends_ok_cstep: "cstep s t s' \<Longrightarrow> ends_ok s \<Longrightarrow> ends_ok s'"
  by (induction rule: cstep.induct) (auto simp: ends_ok_def lin_thr_def split: phase.splits if_splits)

lemma ends_ok_csteps: "csteps s s' \<Longrightarrow> ends_ok s \<Longrightarrow> ends_ok s'"
  by (induction rule: csteps.induct) (auto dest: ends_ok_cstep)

text \<open>A step that moves only its own thread, between phases that mean the same, is invisible.\<close>

lemma lin_same:
  assumes "cs_clock s' = cs_clock s" and "lin_thr th = lin_thr (cs_thr s t)" and "cs_thr s' = (cs_thr s)(t := th)"
    and "cs_out s' = cs_out s"
  shows "lin s' d = lin s d"
  using assms by (intro amach_eqI) auto

lemma lin_thread:
  assumes "cs_clock s' = cs_clock s" and "lin_thr th = x" and "cs_thr s' = (cs_thr s)(t := th)"
    and "cs_out s' = cs_out s @ [(t, y)]"
  shows "lin s' d = answer (lin s d) t y (set_trans t x (lin s d))"
  using assms by (intro amach_eqI) auto

lemma lin_answer: "lin (s\<lparr>cs_out := os\<rparr>) d = (lin s d)\<lparr>am_out := os\<rparr>"
  by (rule amach_eqI) simp_all

lemma held_row_serial:
  assumes "cinv s d" and "a \<in> set (accs_of s t)" and "ca_row a \<in> held (cs_thr s t)" and "pending (cs_thr s t) = Map.empty"
    and "cs_rows s (ca_row a) = Some row"
  shows "too_new d start (ca_row a) \<longleftrightarrow> start < cr_wts row"
  using own_row_serial [OF assms(1,5,3)] assms(4) by (simp add: too_new_def)

lemma write_accs_of:
  assumes "distinct (map ca_row as)"
  shows "d ++ (\<lambda>r. map_option (\<lambda>v. (v, ts)) (writes_of as r)) = write_accs d (acc_fun as) ts"
proof
  fix r
  have "distinct (map fst (map (\<lambda>a. (ca_row a, ca_copy a)) (filter ca_wr as)))"
    using distinct_map_filter [OF assms, of ca_wr] by (simp add: comp_def)
  then have w: "writes_of as r = Some v \<longleftrightarrow> (\<exists>a \<in> set as. ca_wr a \<and> ca_row a = r \<and> ca_copy a = v)" for v
    by (auto simp: writes_of_def)
  have f: "acc_fun as r = Some a \<longleftrightarrow> a \<in> set as \<and> ca_row a = r" for a by (rule acc_fun_iff [OF assms])
  show "(d ++ (\<lambda>r. map_option (\<lambda>v. (v, ts)) (writes_of as r))) r = write_accs d (acc_fun as) ts r"
  proof (cases "acc_fun as r")
    case None
    then have "writes_of as r = None" using w f by (metis not_Some_eq)
    then show ?thesis using None by (simp add: map_add_def write_accs_def)
  next
    case (Some a)
    have "writes_of as r = (if ca_wr a then Some (ca_copy a) else None)"
      using w f Some by (cases "writes_of as r") (auto, metis option.inject)
    then show ?thesis using Some by (simp add: map_add_def write_accs_def)
  qed
qed

lemma checked_rows:
  assumes inv: "cinv s d" and p: "phase_of s t = Latching (length (accs_of s t))"
  shows "\<forall>r \<in> dom (acc_fun (accs_of s t)). \<not> too_new d (ct_start (cs_thr s t)) r"
proof
  fix r assume "r \<in> dom (acc_fun (accs_of s t))"
  then obtain a where a: "a \<in> set (accs_of s t)" "ca_row a = r" by (auto simp: dom_acc_fun rows_of_def)
  then obtain row where row: "cs_rows s (ca_row a) = Some row" "\<not> ct_start (cs_thr s t) < cr_wts row"
    using phase_facts(4) [OF inv, of t] p by (auto simp: checked_def)
  have "ca_row a \<in> held (cs_thr s t)" using p a(1) by (simp add: held_def rows_of_def)
  then show "\<not> too_new d (ct_start (cs_thr s t)) r"
    using held_row_serial [OF inv a(1) _ _ row(1)] p row(2) a(2) by (simp add: pending_def)
qed

lemma lin_quiet_step:
  assumes st: "cstep s t s'" and inv: "cinv s d" and ends: "ends_ok s" and log: "cs_log s' = cs_log s"
  shows "lin s' d = lin s d \<or> atomic (lin s d) t (lin s' d)"
  using assms
proof (induction rule: cstep.induct)
  case (cs_begin s t)
  have "lin (emit s t (Began (cs_clock s)) (set_thr t \<lparr>ct_start = cs_clock s, ct_end = 0, ct_accs = [], ct_phase = Active\<rparr>
        (s\<lparr>cs_clock := cs_clock s + 1\<rparr>))) d =
      answer (lin s d) t (Began (am_clock (lin s d)))
        (set_trans t (Running (am_clock (lin s d)) Map.empty) ((lin s d)\<lparr>am_clock := am_clock (lin s d) + 1\<rparr>))"
    by (rule amach_eqI) (auto simp: lin_thr_phase(2) acc_fun_def)
  then show ?case using at_begin [of "lin s d" t "ct_end (cs_thr s t)"] cs_begin by (simp add: lin_thr_phase)
next
  case (cs_fetch s t r row w)
  let ?a = "\<lparr>ca_row = r, ca_wr = w, ca_copy = cr_val row, ca_seen = cr_val row\<rparr>" and ?th = "cs_thr s t"
  have d: "d r = Some (cr_val row, cr_wts row)" by (rule free_row_serial [OF cs_fetch(6,2,3)])
  have out: "r \<notin> rows_of (accs_of s t)" using cs_fetch(4) by (simp add: rows_of_def)
  then have "acc_fun (accs_of s t) r = None" using dom_acc_fun [of "accs_of s t"] by blast
  then have "atomic (lin s d) t (answer (lin s d) t (Fetched r (cr_val row))
      (set_trans t (Running (ct_start ?th) ((acc_fun (accs_of s t))(r \<mapsto> ?a))) (lin s d)))"
    using at_access [of "lin s d" t "ct_start ?th" "acc_fun (accs_of s t)" r "cr_val row" "cr_wts row" w] d cs_fetch(1,5)
    by (simp add: lin_thr_phase)
  moreover have "lin (emit s t (Fetched r (cr_val row)) (set_thr t (?th\<lparr>ct_accs := accs_of s t @ [?a]\<rparr>) s)) d =
      answer (lin s d) t (Fetched r (cr_val row))
        (set_trans t (Running (ct_start ?th) ((acc_fun (accs_of s t))(r \<mapsto> ?a))) (lin s d))"
    by (rule lin_thread) (use cs_fetch(1) acc_fun_snoc [of ?a "accs_of s t"] out in \<open>simp_all add: lin_thr_def\<close>)
  ultimately show ?case by simp
next
  case (cs_refuse s t r row)
  have "d r = Some (cr_val row, cr_wts row)" by (rule free_row_serial [OF cs_refuse(6,2,3)])
  then have "too_new d (ct_start (cs_thr s t)) r" using cs_refuse(5) by (simp add: too_new_def)
  moreover have "r \<notin> rows_of (accs_of s t)" using cs_refuse(4) by (simp add: rows_of_def)
  then have "acc_fun (accs_of s t) r = None" using dom_acc_fun [of "accs_of s t"] by blast
  ultimately have "atomic (lin s d) t (answer (lin s d) t (Refused r) (lin s d))"
    using at_refuse [of "lin s d" t "ct_start (cs_thr s t)" "acc_fun (accs_of s t)" r] cs_refuse(1) by (simp add: lin_thr_phase)
  then show ?case by (simp add: lin_answer)
next
  case (cs_reread s t i)
  let ?x = "accs_of s t ! i"
  have "acc_fun (accs_of s t) (ca_row ?x) = Some ?x"
    using acc_fun_iff [OF phase_facts(1) [OF cs_reread(3), of t]] cs_reread(2) by simp
  then have "atomic (lin s d) t (answer (lin s d) t (Reread (ca_row ?x) (ca_copy ?x)) (lin s d))"
    using at_reread [of "lin s d" t "ct_start (cs_thr s t)" "acc_fun (accs_of s t)" "ca_row ?x" ?x] cs_reread(1)
    by (simp add: lin_thr_phase)
  then show ?case by (simp add: lin_answer)
next
  case (cs_put s t i v)
  let ?th = "cs_thr s t" and ?x = "accs_of s t ! i"
  let ?b = "?x\<lparr>ca_wr := True, ca_copy := v\<rparr>"
  note dis = phase_facts(1) [OF cs_put(3), of t]
  have "acc_fun (accs_of s t) (ca_row ?x) = Some ?x" using acc_fun_iff [OF dis] cs_put(2) by simp
  then have "atomic (lin s d) t (answer (lin s d) t (Wrote (ca_row ?x) v)
      (set_trans t (Running (ct_start ?th) ((acc_fun (accs_of s t))(ca_row ?x \<mapsto> ?b))) (lin s d)))"
    using at_put [of "lin s d" t "ct_start ?th" "acc_fun (accs_of s t)" "ca_row ?x" ?x v] cs_put(1)
    by (simp add: lin_thr_phase)
  moreover have "lin (emit s t (Wrote (ca_row ?x) v) (set_thr t (?th\<lparr>ct_accs := (accs_of s t)[i := ?b]\<rparr>) s)) d =
      answer (lin s d) t (Wrote (ca_row ?x) v)
        (set_trans t (Running (ct_start ?th) ((acc_fun (accs_of s t))(ca_row ?x \<mapsto> ?b))) (lin s d))"
    by (rule lin_thread) (use cs_put(1) acc_fun_update [OF dis cs_put(2), of ?b] in \<open>simp_all add: lin_thr_def\<close>)
  ultimately show ?case by simp
next
  case (cs_rollback s t)
  have "ct_end (cs_thr s t) = 0" using cs_rollback(1,3) by (auto simp: ends_ok_def lin_thr_phase)
  then have "lin (emit s t Rolled_Back (goto t Idle s)) d = answer (lin s d) t Rolled_Back (set_trans t (Ended 0) (lin s d))"
    by (intro lin_thread) (simp_all add: lin_thr_phase)
  then show ?case
    using at_rollback [of "lin s d" t "ct_start (cs_thr s t)" "acc_fun (accs_of s t)"] cs_rollback(1) by (simp add: lin_thr_phase)
next
  case (cs_sort s t)
  have "acc_fun (sort_key ca_row (accs_of s t)) = acc_fun (accs_of s t)"
    using phase_facts(1) [OF cs_sort(2), of t] by (intro acc_fun_cong) (simp_all add: distinct_map)
  then have "lin (set_thr t ((cs_thr s t)\<lparr>ct_accs := sort_key ca_row (accs_of s t), ct_phase := Latching 0\<rparr>) s) d = lin s d"
    using cs_sort(1) by (intro lin_same) (simp_all add: lin_thr_phase)
  then show ?case by simp
next
  case (cs_latch s t i r row)
  then have "lin (goto t (Checking i) (set_row r (row\<lparr>cr_holder := Some t\<rparr>) s)) d = lin s d"
    by (intro lin_same) (simp_all add: lin_thr_phase)
  then show ?case by simp
next
  case (cs_check s t i r row)
  then have "lin (goto t (Latching (Suc i)) s) d = lin s d" by (intro lin_same) (simp_all add: lin_thr_phase)
  then show ?case by simp
next
  case (cs_fail s t i r row)
  let ?th = "cs_thr s t" and ?a = "accs_of s t ! i"
  have i: "i < length (accs_of s t)" using phase_facts(4) [OF cs_fail(5), of t] cs_fail(1) by simp
  then have a: "?a \<in> set (accs_of s t)" "ca_row ?a \<in> held ?th" "pending ?th = Map.empty"
    using cs_fail(1) by (simp_all add: held_def rows_of_take_Suc pending_def)
  have new: "too_new d (ct_start ?th) r"
    using held_row_serial [OF cs_fail(5) a] cs_fail(2-4) by simp
  have "ct_end ?th = 0" using cs_fail(1,6) by (auto simp: ends_ok_def lin_thr_phase)
  then have "lin (emit s t Failed (goto t (Releasing 0 (Suc i)) s)) d = answer (lin s d) t Failed (set_trans t (Ended 0) (lin s d))"
    by (intro lin_thread) (simp_all add: lin_thr_phase)
  moreover have "r \<in> dom (acc_fun (accs_of s t))" using a(1) cs_fail(2) by (simp add: dom_acc_fun rows_of_def)
  ultimately show ?case
    using at_fail [of "lin s d" t "ct_start ?th" "acc_fun (accs_of s t)" r] new cs_fail(1) by (simp add: lin_thr_phase)
next
  case (cs_write s t k a row)
  then have "lin (goto t (Returning k) (set_row (ca_row a) (row\<lparr>cr_val := ca_copy a, cr_wts := ct_end (cs_thr s t)\<rparr>) s)) d = lin s d"
    by (intro lin_same) (simp_all add: lin_thr_phase)
  then show ?case by simp
next
  case (cs_crash s t k a row)
  then show ?case using inv_no_crash by blast
next
  case (cs_return s t k)
  then have "lin (goto t (Returning k) s) d = lin s d" by (intro lin_same) (simp_all add: lin_thr_phase)
  then show ?case by simp
next
  case (cs_returned s t)
  then have "lin (goto t (Releasing 0 (length (accs_of s t))) s) d = lin s d"
    by (intro lin_same) (simp_all add: lin_thr_phase)
  then show ?case by simp
next
  case (cs_release s t i m r row)
  then have "lin (goto t (Releasing (Suc i) m) (set_row r (row\<lparr>cr_holder := None\<rparr>) s)) d = lin s d"
    by (intro lin_same) (simp_all add: lin_thr_phase)
  then show ?case by simp
next
  case (cs_done s t i m)
  then have "lin (goto t Idle s) d = lin s d" by (intro lin_same) (simp_all add: lin_thr_phase)
  then show ?case by simp
qed auto

lemma lin_stamp:
  assumes inv: "cinv s d" and p: "phase_of s t = Latching (length (accs_of s t))" and nowrap: "cs_clock s + 1 \<noteq> 0"
  shows "atomic (lin s d) t (lin (emit s t (Committed (cs_clock s))
       (set_thr t ((cs_thr s t)\<lparr>ct_end := cs_clock s, ct_phase := Returning n\<rparr>)
         (s\<lparr>cs_clock := cs_clock s + 1, cs_log := l\<rparr>))) (d ++ (\<lambda>r. map_option (\<lambda>v. (v, cs_clock s)) (writes_of (accs_of s t) r))))"
    (is "atomic _ _ ?a")
proof -
  have "?a = answer (lin s d) t (Committed (am_clock (lin s d))) (set_trans t (Ended (am_clock (lin s d)))
      ((lin s d)\<lparr>am_db := write_accs (am_db (lin s d)) (acc_fun (accs_of s t)) (am_clock (lin s d)),
        am_clock := am_clock (lin s d) + 1\<rparr>))"
    by (rule amach_eqI) (simp_all add: write_accs_of [OF phase_facts(1) [OF inv]] lin_thr_phase)
  then show ?thesis
    using at_commit [of "lin s d" t "ct_start (cs_thr s t)" "acc_fun (accs_of s t)"] checked_rows [OF inv p] p nowrap
    by (simp add: lin_thr_phase)
qed

text \<open>Forward simulation: each step is one atomic step of the same thread, or none.\<close>

lemma lin_step:
  assumes st: "cstep s t s'" and inv: "cinv s d" and log: "replay db (cs_log s) = Some d" and ends: "ends_ok s"
  shows "\<exists>d'. cinv s' d' \<and> replay db (cs_log s') = Some d' \<and> (lin s' d' = lin s d \<or> atomic (lin s d) t (lin s' d'))"
proof (cases "cs_log s' = cs_log s")
  case True
  obtain d' where "cinv s' d'" "replay db (cs_log s') = Some d'" using cinv_cstep [OF st inv log] by blast
  then show ?thesis using lin_quiet_step [OF st inv ends True] log True by auto
next
  case False
  from st inv log False show ?thesis
  proof (induction rule: cstep.induct)
    case (cs_stamp s t)
    show ?case
      by (intro exI conjI disjI2, simp only: cinv_out, rule inv_stamp [OF cs_stamp(3,1,2) refl])
        (use cs_stamp(4) stamp_reads [OF cs_stamp(3,1)] lin_stamp [OF cs_stamp(3,1,2)] in \<open>simp_all add: replay_snoc\<close>)
  qed simp_all
qed

lemma lin_steps:
  assumes "csteps s s'" and "cinv s d" and "replay db (cs_log s) = Some d" and "ends_ok s"
  shows "\<exists>d'. cinv s' d' \<and> replay db (cs_log s') = Some d' \<and> atomics (lin s d) (lin s' d')"
  using assms
proof (induction rule: csteps.induct)
  case (csteps_refl s)
  then show ?case using atomics_refl by blast
next
  case (csteps_step s s1 t s2)
  then obtain d1 where d1: "cinv s1 d1" "replay db (cs_log s1) = Some d1" "atomics (lin s d) (lin s1 d1)" by blast
  have "ends_ok s1" by (rule ends_ok_csteps [OF csteps_step(1,6)])
  from lin_step [OF csteps_step(2) d1(1,2) this] show ?case using d1(3) atomics_step by metis
qed

section \<open>Properties\<close>

lemma ends_ok_init: "ends_ok (cinit db clock)"
  by (simp add: ends_ok_def cinit_def lin_thr_def)

text \<open>
  C5. Calls are atomic, refinement: for every interleaving of the latch operations, checks, reads,
  writes and releases of any number of threads there is a run of the machine that executes each call
  (begin, access, reread, put, rollback, commit) in one step and gives the same answers in the same
  order: the start times, the values read and written, the refused accesses, the rollbacks, the commits
  with their time stamps and the failed commits. A refusal needs a row that is too new, a failed
  commit an accessed row that is too new. Each step of a thread is one atomic step of this thread or
  invisible, so the atomic step of a call lies between its first and its last step; and when no thread
  is inside \<open>validate\<close> the rows are those of the machine.
\<close>

theorem threads_linearizable:
  assumes "\<forall>r v w. db r = Some (v, w) \<longrightarrow> w < clock" and "csteps (cinit db clock) s"
  shows "\<exists>d. replay db (cs_log s) = Some d \<and> atomics (lin (cinit db clock) db) (lin s d) \<and>
    am_out (lin s d) = cs_out s \<and>
    (\<forall>t s'. cstep s t s' \<longrightarrow> (\<exists>d'. replay db (cs_log s') = Some d' \<and>
       (lin s' d' = lin s d \<or> atomic (lin s d) t (lin s' d')))) \<and>
    ((\<forall>t. \<not> committing s t) \<longrightarrow> d = contents s)"
proof -
  have "replay db (cs_log (cinit db clock)) = Some db" by (simp add: cinit_def)
  from lin_steps [OF assms(2) cinv_init [OF assms(1)] this ends_ok_init] obtain d
    where d: "cinv s d" "replay db (cs_log s) = Some d" "atomics (lin (cinit db clock) db) (lin s d)" by blast
  have ends: "ends_ok s" by (rule ends_ok_csteps [OF assms(2) ends_ok_init])
  show ?thesis using d lin_simps(4) [of s] lin_step [OF _ d(1,2) ends] quiet_contents [OF d(1)] by blast
qed

theorem threads_linearizable_witness:
  "atomics \<lparr>am_db = ex_rows, am_clock = 1, am_thr = (\<lambda>_. Ended 0), am_out = []\<rparr>
     \<lparr>am_db = [3 \<mapsto> (''x'', 3)], am_clock = 4, am_thr = (\<lambda>_. Ended 0)(0 := Ended 3),
      am_out = [(0, Began 1), (1, Began 2), (0, Fetched 3 ''a''), (1, Fetched 3 ''a''), (0, Wrote 3 ''x''),
        (0, Committed 3), (1, Failed)]\<rparr>"
proof -
  let ?s = "ex_state (ex_row ''x'' 3 None) 4 (ex_thread 1 3 (ex_write ''x'') Idle) (ex_thread 2 0 ex_read Idle) ex_log ex_out"
  obtain d where d: "atomics (lin (cinit ex_rows 1) ex_rows) (lin ?s d)" "d = contents ?s"
    using threads_linearizable [OF ex_times ex_end] ex_quiet by blast
  have "contents ?s = [3 \<mapsto> (''x'', 3)]" by (auto simp: contents_def ex_state_def fun_eq_iff)
  moreover have "lin (cinit ex_rows 1) ex_rows = \<lparr>am_db = ex_rows, am_clock = 1, am_thr = (\<lambda>_. Ended 0), am_out = []\<rparr>"
    by (simp add: lin_def cinit_def lin_thr_def)
  moreover have "lin ?s [3 \<mapsto> (''x'', 3)] =
      \<lparr>am_db = [3 \<mapsto> (''x'', 3)], am_clock = 4, am_thr = (\<lambda>_. Ended 0)(0 := Ended 3), am_out = ex_out\<rparr>"
    by (auto simp: lin_def ex_state_def two_def lin_thr_def fun_eq_iff)
  ultimately show ?thesis using d by (simp add: ex_out_def)
qed

end
