(* ===== verification/Thread_Bridge.thy ===== *)
theory Thread_Bridge
  imports Demo Threads
begin

text \<open>
  The two models of concurrency agree: executing the calls of the API one at a time, as \<open>System\<close> does
  on the concrete engine, is one of the interleavings of \<open>Threads\<close>. Rows are identified by their primary
  keys (there is one table, so this is the order of the latches) and hold a key and a value.
\<close>

type_synonym kv_acc = "(u64, string \<times> string) cacc"
type_synonym kv_out = "(u64, string \<times> string) cout"
type_synonym kv_state = "(u64, string \<times> string) cstate"
type_synonym kv_rows = "u64 \<rightharpoonup> (string \<times> string) crow"

section \<open>Chains of steps of one thread\<close>

text \<open>The state in which only the rows and the phase of thread \<open>t\<close> differ from \<open>s\<close>.\<close>

definition at_phase :: "('r, 'v) cstate \<Rightarrow> nat \<Rightarrow> ('r \<rightharpoonup> 'v crow) \<Rightarrow> phase \<Rightarrow> ('r, 'v) cstate" where
  "at_phase s t R p = s\<lparr>cs_rows := R, cs_thr := (cs_thr s)(t := (cs_thr s t)\<lparr>ct_phase := p\<rparr>)\<rparr>"

lemma at_phase_simps [simp]:
  "cs_rows (at_phase s t R p) = R" "cs_clock (at_phase s t R p) = cs_clock s"
  "cs_thr (at_phase s t R p) t = (cs_thr s t)\<lparr>ct_phase := p\<rparr>"
  "set_thr t ((cs_thr s t)\<lparr>ct_phase := q\<rparr>) (at_phase s t R p) = at_phase s t R q"
  "(at_phase s t R p)\<lparr>cs_rows := R', cs_thr := (cs_thr (at_phase s t R p))(t := (cs_thr s t)\<lparr>ct_phase := q\<rparr>)\<rparr> = at_phase s t R' q"
  by (simp_all add: at_phase_def)

lemma csteps_trans: "csteps s1 s2 \<Longrightarrow> csteps s s1 \<Longrightarrow> csteps s s2"
  by (induction rule: csteps.induct) (auto intro: csteps_step)

lemma csteps_one: "cstep s t s' \<Longrightarrow> csteps s s'"
  by (rule csteps_step [OF csteps_refl])

lemma csteps_front: "cstep s t s1 \<Longrightarrow> csteps s1 s2 \<Longrightarrow> csteps s s2"
  using csteps_trans csteps_one by blast

text \<open>Setting the holder of some rows.\<close>

definition hold :: "nat option \<Rightarrow> 'r set \<Rightarrow> ('r \<rightharpoonup> 'v crow) \<Rightarrow> 'r \<rightharpoonup> 'v crow" where
  "hold x S R = (\<lambda>r. if r \<in> S then map_option (\<lambda>row. row\<lparr>cr_holder := x\<rparr>) (R r) else R r)"

lemma hold_empty [simp]: "hold x {} R = R"
  by (simp add: hold_def)

lemma hold_insert: "R r = Some row \<Longrightarrow> r \<notin> S \<Longrightarrow> hold x (insert r S) R = hold x S (R(r \<mapsto> row\<lparr>cr_holder := x\<rparr>))"
  by (auto simp: hold_def fun_eq_iff)

lemma drop_rows:
  assumes "i < m" and "m \<le> length as" and "distinct (map ca_row as)"
  shows "rows_of (drop i (take m as)) = insert (ca_row (as ! i)) (rows_of (drop (Suc i) (take m as)))"
    and "ca_row (as ! i) \<notin> rows_of (drop (Suc i) (take m as))"
proof -
  have split: "drop i (take m as) = as ! i # drop (Suc i) (take m as)"
    using assms(1,2) Cons_nth_drop_Suc [of i "take m as"] by simp
  then show "rows_of (drop i (take m as)) = insert (ca_row (as ! i)) (rows_of (drop (Suc i) (take m as)))" by simp
  have "distinct (map ca_row (drop i (take m as)))"
    using assms(3) by (simp add: drop_map [symmetric] take_map [symmetric])
  then show "ca_row (as ! i) \<notin> rows_of (drop (Suc i) (take m as))" using split by (simp add: rows_of_def)
qed

definition free_valid :: "('r \<rightharpoonup> 'v crow) \<Rightarrow> u64 \<Rightarrow> 'r \<Rightarrow> bool" where
  "free_valid R start r \<longleftrightarrow> (\<exists>row. R r = Some row \<and> cr_holder row = None \<and> \<not> start < cr_wts row)"

lemma lock_loop:
  assumes "distinct (map ca_row (accs_of s t))" and "m \<le> length (accs_of s t)"
    and "\<And>j. i \<le> j \<Longrightarrow> j < m \<Longrightarrow> free_valid R (ct_start (cs_thr s t)) (ca_row (accs_of s t ! j))"
    and "i \<le> m"
  shows "csteps (at_phase s t R (Latching i)) (at_phase s t (hold (Some t) (rows_of (drop i (take m (accs_of s t)))) R) (Latching m))"
  using assms(3,4)
proof (induction "m - i" arbitrary: i R)
  case 0
  then show ?case using assms(2) csteps_refl by simp
next
  case (Suc k)
  let ?as = "accs_of s t" let ?r = "ca_row (?as ! i)"
  have i: "i < m" using Suc.hyps(2) by simp
  obtain row where row: "R ?r = Some row" "cr_holder row = None" "\<not> ct_start (cs_thr s t) < cr_wts row"
    using Suc.prems(1) [OF order_refl i] by (auto simp: free_valid_def)
  let ?R = "R(?r \<mapsto> row\<lparr>cr_holder := Some t\<rparr>)"
  note drop = drop_rows [OF i assms(2,1)]
  have 1: "cstep (at_phase s t R (Latching i)) t (at_phase s t ?R (Checking i))"
    using cs_latch [of "at_phase s t R (Latching i)" t i ?r row] i assms(2) row by simp
  have 2: "cstep (at_phase s t ?R (Checking i)) t (at_phase s t ?R (Latching (Suc i)))"
    using cs_check [of "at_phase s t ?R (Checking i)" t i ?r "row\<lparr>cr_holder := Some t\<rparr>"] row by simp
  have "free_valid ?R (ct_start (cs_thr s t)) (ca_row (?as ! j))" if j: "Suc i \<le> j" "j < m" for j
  proof -
    have "ca_row (?as ! j) \<noteq> ?r"
      using assms(1,2) j i nth_eq_iff_index_eq [of "map ca_row ?as" j i] by simp
    then show ?thesis using Suc.prems(1) [of j] j by (simp add: free_valid_def)
  qed
  then have "csteps (at_phase s t ?R (Latching (Suc i)))
      (at_phase s t (hold (Some t) (rows_of (drop (Suc i) (take m ?as))) ?R) (Latching m))"
    using Suc.hyps(1) [of "Suc i" ?R] Suc.hyps(2) i by simp
  then show ?case
    using csteps_front [OF 1 csteps_front [OF 2]] by (simp add: drop(1) hold_insert [of R ?r row, OF row(1) drop(2)])
qed

lemma release_loop:
  assumes "distinct (map ca_row (accs_of s t))" and "m \<le> length (accs_of s t)" and "rows_of (accs_of s t) \<subseteq> dom R"
    and "i \<le> m"
  shows "csteps (at_phase s t R (Releasing i m)) (at_phase s t (hold None (rows_of (drop i (take m (accs_of s t)))) R) Idle)"
  using assms(3,4)
proof (induction "m - i" arbitrary: i R)
  case 0
  then show ?case using csteps_one [OF cs_done [of "at_phase s t R (Releasing i m)" t i m]] by simp
next
  case (Suc k)
  let ?as = "accs_of s t" let ?r = "ca_row (?as ! i)"
  have i: "i < m" using Suc.hyps(2) by simp
  have "?r \<in> rows_of ?as" using i assms(2) by (simp add: rows_of_def)
  then have "?r \<in> dom R" using Suc.prems(1) by blast
  then obtain row where row: "R ?r = Some row" by blast
  let ?R = "R(?r \<mapsto> row\<lparr>cr_holder := None\<rparr>)"
  note drop = drop_rows [OF i assms(2,1)]
  have "cstep (at_phase s t R (Releasing i m)) t (at_phase s t ?R (Releasing (Suc i) m))"
    using cs_release [of "at_phase s t R (Releasing i m)" t i m ?r row] i row by simp
  moreover have "csteps (at_phase s t ?R (Releasing (Suc i) m))
      (at_phase s t (hold None (rows_of (drop (Suc i) (take m ?as))) ?R) Idle)"
    by (rule Suc.hyps(1)) (use Suc.hyps(2) Suc.prems(1) i in auto)
  ultimately show ?case
    using csteps_front by (simp add: drop(1) hold_insert [of R ?r row, OF row drop(2)])
qed

text \<open>Returning the accesses below \<open>k\<close>.\<close>

definition written :: "u64 \<Rightarrow> ('r \<rightharpoonup> 'v) \<Rightarrow> ('r \<rightharpoonup> 'v crow) \<Rightarrow> 'r \<rightharpoonup> 'v crow" where
  "written ts ws R = (\<lambda>r. case ws r of None \<Rightarrow> R r | Some v \<Rightarrow> map_option (\<lambda>row. row\<lparr>cr_val := v, cr_wts := ts\<rparr>) (R r))"

lemma return_loop:
  assumes "distinct (map ca_row (accs_of s t))" and "k \<le> length (accs_of s t)"
    and "\<And>j. j < k \<Longrightarrow> \<exists>row. R (ca_row (accs_of s t ! j)) = Some row \<and> cr_wts row < ct_end (cs_thr s t)"
  shows "csteps (at_phase s t R (Returning k))
    (at_phase s t (written (ct_end (cs_thr s t)) (writes_of (take k (accs_of s t))) R) (Returning 0))"
  using assms(2,3)
proof (induction k arbitrary: R)
  case 0
  then show ?case using csteps_refl by (simp add: writes_of_def written_def)
next
  case (Suc k)
  let ?as = "accs_of s t" let ?a = "?as ! k" and ?e = "ct_end (cs_thr s t)"
  have k: "k < length ?as" using Suc.prems(1) by simp
  obtain row where row: "R (ca_row ?a) = Some row" "cr_wts row < ?e" using Suc.prems(2) [of k] by auto
  have ne: "ca_row (?as ! j) \<noteq> ca_row ?a" if "j < k" for j
    using assms(1) k that nth_eq_iff_index_eq [of "map ca_row ?as" j k] by simp
  have none: "writes_of (take k ?as) (ca_row ?a) = None"
    using row_not_before [OF k assms(1)] writes_of_rows [of "take k ?as"] by auto
  show ?case
  proof (cases "ca_wr ?a")
    case True
    let ?R = "R(ca_row ?a \<mapsto> row\<lparr>cr_val := ca_copy ?a, cr_wts := ?e\<rparr>)"
    have step: "cstep (at_phase s t R (Returning (Suc k))) t (at_phase s t ?R (Returning k))"
      using cs_write [of "at_phase s t R (Returning (Suc k))" t k ?a row] True row by simp
    have "\<exists>row. ?R (ca_row (?as ! j)) = Some row \<and> cr_wts row < ?e" if "j < k" for j
      using Suc.prems(2) [of j] ne [OF that] that by simp
    then have rest: "csteps (at_phase s t ?R (Returning k)) (at_phase s t (written ?e (writes_of (take k ?as)) ?R) (Returning 0))"
      using k by (intro Suc.IH) simp_all
    have "written ?e (writes_of (take k ?as)) ?R = written ?e (writes_of (take (Suc k) ?as)) R"
      using none row(1) True by (auto simp: written_def writes_of_take_Suc [OF k assms(1)] fun_eq_iff split: option.splits)
    then show ?thesis using csteps_front [OF step rest] by simp
  next
    case False
    have "cstep (at_phase s t R (Returning (Suc k))) t (at_phase s t R (Returning k))"
      using cs_return [of "at_phase s t R (Returning (Suc k))" t k] False by simp
    moreover have "csteps (at_phase s t R (Returning k)) (at_phase s t (written ?e (writes_of (take k ?as)) R) (Returning 0))"
      using Suc.IH [of R] k Suc.prems(2) by (simp add: less_SucI)
    ultimately show ?thesis using csteps_front False by (simp add: writes_of_take_Suc [OF k assms(1)])
  qed
qed

section \<open>A whole commit\<close>

lemma writes_of_iff:
  assumes "distinct (map ca_row as)"
  shows "writes_of as r = Some v \<longleftrightarrow> (\<exists>a \<in> set as. ca_wr a \<and> ca_row a = r \<and> ca_copy a = v)"
proof -
  have "distinct (map fst (map (\<lambda>a. (ca_row a, ca_copy a)) (filter ca_wr as)))"
    using distinct_map_filter [OF assms, of ca_wr] by (simp add: comp_def)
  then show ?thesis by (auto simp: writes_of_def)
qed

lemma writes_of_same_set:
  assumes "distinct (map ca_row as)" and "distinct (map ca_row bs)" and "set as = set bs"
  shows "writes_of as = writes_of bs"
proof
  fix r
  have "writes_of as r = Some v \<longleftrightarrow> writes_of bs r = Some v" for v
    using writes_of_iff [OF assms(1)] writes_of_iff [OF assms(2)] assms(3) by simp
  then show "writes_of as r = writes_of bs r" by (metis not_Some_eq)
qed

lemma hold_twice: "(\<And>r row. r \<in> S \<Longrightarrow> R r = Some row \<Longrightarrow> cr_holder row = None) \<Longrightarrow> hold None S (hold x S R) = R"
  by (auto simp: hold_def fun_eq_iff option.map_comp comp_def intro!: option.map_ident_strong)

lemma hold_written: "hold x S (written ts ws R) = written ts ws (hold x S R)"
proof
  fix r
  show "hold x S (written ts ws R) r = written ts ws (hold x S R) r"
    by (cases "ws r"; cases "R r") (auto simp: hold_def written_def intro: crow.equality)
qed

lemma commit_ok:
  assumes p: "phase_of s t = Active" and dis: "distinct (map ca_row (accs_of s t))"
    and valid: "\<And>r. r \<in> rows_of (accs_of s t) \<Longrightarrow> free_valid (cs_rows s) (ct_start (cs_thr s t)) r"
    and start: "ct_start (cs_thr s t) < cs_clock s" and nowrap: "cs_clock s + 1 \<noteq> 0"
  shows "\<exists>s'. csteps s s' \<and> cs_clock s' = cs_clock s + 1 \<and> (\<forall>u. u \<noteq> t \<longrightarrow> cs_thr s' u = cs_thr s u) \<and>
    phase_of s' t = Idle \<and> cs_rows s' = written (cs_clock s) (writes_of (accs_of s t)) (cs_rows s) \<and>
    cs_out s' = cs_out s @ [(t, Committed (cs_clock s))]"
proof -
  let ?as = "sort_key ca_row (accs_of s t)" and ?R = "cs_rows s" and ?n = "length (accs_of s t)" and ?ts = "cs_clock s"
  define b where "b = set_thr t ((cs_thr s t)\<lparr>ct_accs := ?as\<rparr>) s"
  define c where "c = emit s t (Committed ?ts) (set_thr t ((cs_thr s t)\<lparr>ct_accs := ?as, ct_end := ?ts\<rparr>) (s\<lparr>cs_clock := ?ts + 1,
     cs_log := cs_log s @ [\<lparr>ce_thread = t, ce_ts = ?ts, ce_reads = reads_of ?as, ce_writes = writes_of ?as\<rparr>]\<rparr>))"
  have as: "distinct (map ca_row ?as)" "rows_of ?as = rows_of (accs_of s t)" "writes_of ?as = writes_of (accs_of s t)"
    using dis writes_of_same_set [of ?as "accs_of s t"] by (simp_all add: distinct_map rows_of_def)
  have b: "accs_of b t = ?as" "ct_start (cs_thr b t) = ct_start (cs_thr s t)" by (simp_all add: b_def)
  have c: "accs_of c t = ?as" "ct_end (cs_thr c t) = ?ts" by (simp_all add: c_def)
  have row: "ca_row (?as ! j) \<in> rows_of (accs_of s t)" if "j < ?n" for j
    using that as(2) by (metis image_eqI length_sort nth_mem rows_of_def)
  let ?H = "hold (Some t) (rows_of ?as) ?R" and ?W = "written ?ts (writes_of ?as)"
  have 1: "cstep s t (at_phase b t ?R (Latching 0))"
    using cs_sort [OF p] by (simp add: b_def at_phase_def)
  have 2: "csteps (at_phase b t ?R (Latching 0)) (at_phase b t ?H (Latching ?n))"
    using lock_loop [of b t ?n 0 ?R] as(1) valid [OF row] by (simp add: b)
  have "cstep (at_phase b t ?H (Latching ?n)) t (at_phase c t ?H (Returning ?n))"
  proof (rule back_subst [of "cstep (at_phase b t ?H (Latching ?n)) t", OF cs_stamp])
    show "phase_of (at_phase b t ?H (Latching ?n)) t = Latching (length (accs_of (at_phase b t ?H (Latching ?n)) t))"
      by (simp add: b)
  qed (use nowrap in \<open>simp_all add: b_def c_def at_phase_def\<close>)
  note 3 = csteps_one [OF this]
  have late: "\<exists>r. ?H (ca_row (?as ! j)) = Some r \<and> cr_wts r < ?ts" if "j < ?n" for j
    using valid [OF row [OF that]] start by (fastforce simp: free_valid_def hold_def)
  then have 4: "csteps (at_phase c t ?H (Returning ?n)) (at_phase c t (?W ?H) (Returning 0))"
    using return_loop [of c t ?n ?H] as(1) by (simp add: c)
  have 5: "cstep (at_phase c t (?W ?H) (Returning 0)) t (at_phase c t (?W ?H) (Releasing 0 ?n))"
    using cs_returned [of "at_phase c t (?W ?H) (Returning 0)" t] by (simp add: c)
  have "rows_of ?as \<subseteq> dom (?W ?H)"
    using valid as(2) by (fastforce simp: free_valid_def written_def hold_def split: option.splits)
  then have 6: "csteps (at_phase c t (?W ?H) (Releasing 0 ?n)) (at_phase c t (hold None (rows_of ?as) (?W ?H)) Idle)"
    using release_loop [of c t ?n "?W ?H" 0] as(1) by (simp add: c)
  have "hold None (rows_of ?as) (?W ?H) = ?W ?R"
  proof -
    have "cr_holder row = None" if "r \<in> rows_of ?as" "?R r = Some row" for r row
      using valid [of r] that as(2) by (simp add: free_valid_def)
    then show ?thesis by (subst hold_written, subst hold_twice) simp_all
  qed
  with 6 have 6: "csteps (at_phase c t (?W ?H) (Releasing 0 ?n)) (at_phase c t (?W ?R) Idle)" by simp
  have "csteps s (at_phase c t (?W ?R) Idle)"
    by (rule csteps_front [OF 1 csteps_trans [OF csteps_trans [OF csteps_trans [OF csteps_front [OF 5 6] 4] 3] 2]])
  then show ?thesis
    using as(3) by (intro exI [of _ "at_phase c t (?W ?R) Idle"]) (simp add: c_def at_phase_def)
qed

lemma commit_fail:
  assumes p: "phase_of s t = Active" and dis: "distinct (map ca_row (accs_of s t))"
    and free: "\<And>r. r \<in> rows_of (accs_of s t) \<Longrightarrow> \<exists>row. cs_rows s r = Some row \<and> cr_holder row = None"
    and bad: "\<exists>r \<in> rows_of (accs_of s t). \<not> free_valid (cs_rows s) (ct_start (cs_thr s t)) r"
  shows "\<exists>s'. csteps s s' \<and> cs_clock s' = cs_clock s \<and> (\<forall>u. u \<noteq> t \<longrightarrow> cs_thr s' u = cs_thr s u) \<and>
    phase_of s' t = Idle \<and> cs_rows s' = cs_rows s \<and> cs_out s' = cs_out s @ [(t, Failed)]"
proof -
  let ?as = "sort_key ca_row (accs_of s t)" and ?R = "cs_rows s" and ?n = "length (accs_of s t)"
    and ?ok = "\<lambda>j. free_valid (cs_rows s) (ct_start (cs_thr s t)) (ca_row (sort_key ca_row (accs_of s t) ! j))"
  define b where "b = set_thr t ((cs_thr s t)\<lparr>ct_accs := ?as\<rparr>) s"
  define f where "f = emit b t Failed b"
  have as: "distinct (map ca_row ?as)" "rows_of ?as = rows_of (accs_of s t)"
    using dis by (simp_all add: distinct_map rows_of_def)
  have b: "accs_of b t = ?as" "ct_start (cs_thr b t) = ct_start (cs_thr s t)" "cs_thr f = cs_thr b"
    by (simp_all add: b_def f_def)
  obtain r where r: "r \<in> rows_of (accs_of s t)" "\<not> free_valid ?R (ct_start (cs_thr s t)) r" using bad by blast
  then obtain a where a: "a \<in> set ?as" "r = ca_row a" by (auto simp: rows_of_def)
  obtain j0 where "j0 < length ?as" "?as ! j0 = a" using a(1) by (auto simp only: in_set_conv_nth)
  then have j0: "j0 < ?n \<and> \<not> ?ok j0" using r(2) a(2) by simp
  define j where "j = (LEAST j. j < ?n \<and> \<not> ?ok j)"
  have "j < ?n \<and> \<not> ?ok j" unfolding j_def by (rule LeastI [of "\<lambda>j. j < ?n \<and> \<not> ?ok j", OF j0])
  moreover have "?ok i" if "i < j" for i
    using not_less_Least [OF that [unfolded j_def]] that calculation by simp
  ultimately have j: "j < ?n" "\<not> ?ok j" "\<And>i. i < j \<Longrightarrow> ?ok i" by blast+
  let ?r = "ca_row (?as ! j)" and ?S = "rows_of (take j ?as)"
  have "?r \<in> rows_of (accs_of s t)" using j(1) as(2) by (metis image_eqI length_sort nth_mem rows_of_def)
  then obtain row where row: "?R ?r = Some row" "cr_holder row = None" using free by blast
  have out: "?r \<notin> ?S" using row_not_before [of j ?as] j(1) as(1) by simp
  let ?H = "hold (Some t) ?S ?R"
  let ?G = "?H(?r \<mapsto> row\<lparr>cr_holder := Some t\<rparr>)"
  have H: "?H ?r = Some row" using out row(1) by (simp add: hold_def)
  have late: "ct_start (cs_thr s t) < cr_wts row" using j(2) row by (simp add: free_valid_def)
  have 1: "cstep s t (at_phase b t ?R (Latching 0))"
    using cs_sort [OF p] by (simp add: b_def at_phase_def)
  have 2: "csteps (at_phase b t ?R (Latching 0)) (at_phase b t ?H (Latching j))"
    using lock_loop [of b t j 0 ?R] as(1) j(1,3) by (simp add: b)
  have 3: "cstep (at_phase b t ?H (Latching j)) t (at_phase b t ?G (Checking j))"
    using cs_latch [of "at_phase b t ?H (Latching j)" t j ?r row] j(1) H row(2) by (simp add: b)
  have "emit (at_phase b t ?G (Checking j)) t Failed (goto t (Releasing 0 (Suc j)) (at_phase b t ?G (Checking j))) =
      at_phase f t ?G (Releasing 0 (Suc j))"
    by (simp add: at_phase_def f_def)
  moreover have "cstep (at_phase b t ?G (Checking j)) t
      (emit (at_phase b t ?G (Checking j)) t Failed (goto t (Releasing 0 (Suc j)) (at_phase b t ?G (Checking j))))"
    by (rule cs_fail [of _ t j ?r "row\<lparr>cr_holder := Some t\<rparr>"]) (use late in \<open>simp_all add: b\<close>)
  ultimately have 4: "cstep (at_phase b t ?G (Checking j)) t (at_phase f t ?G (Releasing 0 (Suc j)))" by metis
  have G: "?G = hold (Some t) (rows_of (take (Suc j) ?as)) ?R"
    using j(1) row(1) by (auto simp: rows_of_take_Suc hold_def fun_eq_iff)
  have sub: "rows_of (take (Suc j) ?as) \<subseteq> rows_of (accs_of s t)" using take_rows(2) [of "Suc j" ?as] as(2) by simp
  have "rows_of ?as \<subseteq> dom ?G" using free as(2) by (fastforce simp: hold_def)
  then have 5: "csteps (at_phase f t ?G (Releasing 0 (Suc j))) (at_phase f t (hold None (rows_of (take (Suc j) ?as)) ?G) Idle)"
    using release_loop [of f t "Suc j" ?G 0] as(1) j(1) by (simp add: b)
  have "hold None (rows_of (take (Suc j) ?as)) ?G = ?R"
    unfolding G by (rule hold_twice) (use sub free in fastforce)
  with 5 have 5: "csteps (at_phase f t ?G (Releasing 0 (Suc j))) (at_phase f t ?R Idle)" by simp
  have "csteps s (at_phase f t ?R Idle)"
    by (rule csteps_front [OF 1 csteps_trans [OF csteps_front [OF 3 csteps_front [OF 4 5]] 2]])
  then show ?thesis by (intro exI [of _ "at_phase f t ?R Idle"]) (simp add: f_def b_def at_phase_def)
qed

section \<open>The correspondence\<close>

definition db_rows :: "adb \<Rightarrow> kv_rows" where
  "db_rows db = (\<lambda>pk. map_option (\<lambda>row. \<lparr>cr_val = (a_key row, a_val row), cr_wts = a_wts row, cr_holder = None\<rparr>) (db pk))"

definition acc_of :: "kv_acc \<Rightarrow> aacc" where
  "acc_of a = \<lparr>aw = ca_wr a, ak = fst (ca_copy a), av = snd (ca_copy a)\<rparr>"

definition acc_map :: "kv_acc list \<Rightarrow> aset" where
  "acc_map as = map_of (map (\<lambda>a. (ca_row a, acc_of a)) as)"

definition thr_sim :: "atxn option \<Rightarrow> (u64, string \<times> string) cthread \<Rightarrow> bool" where
  "thr_sim x th \<longleftrightarrow> (case x of None \<Rightarrow> ct_phase th = Idle
     | Some t \<Rightarrow> ct_phase th = Active \<and> ct_start th = at_start t \<and> at_acc t = acc_map (ct_accs th))"

definition bridge :: "asys \<Rightarrow> kv_state \<Rightarrow> bool" where
  "bridge a s \<longleftrightarrow> cs_rows s = db_rows (a_db a) \<and> cs_clock s = a_time a \<and> (\<forall>c. thr_sim (a_txns a c) (cs_thr s c))"

text \<open>
  The answers the threads' steps give to a call, matched with the reply of the engine: \<open>accessed\<close>: the
  row was copied, or was there already and becomes a write access if \<open>wr\<close>. A \<open>get\<close> that succeeds returns
  the value of the access, a \<open>put\<close> that succeeds writes its value; they fail because there is no row
  (\<open>D\<close> is the set of rows), the access was refused, or the row belongs to another key.
\<close>

definition accessed :: "u64 \<Rightarrow> bool \<Rightarrow> string \<times> string \<Rightarrow> kv_out list \<Rightarrow> bool" where
  "accessed pk wr kv os \<longleftrightarrow> os = [Fetched pk kv] \<or> os = [Reread pk kv] \<or> (wr \<and> os = [Reread pk kv, Wrote pk kv])"

fun matches :: "(string \<Rightarrow> u64) \<Rightarrow> u64 set \<Rightarrow> api_call \<Rightarrow> Rc \<Rightarrow> string \<Rightarrow> kv_out list \<Rightarrow> bool" where
  "matches h D Begin_txn rc v os \<longleftrightarrow> rc = Rc_OK \<and> (\<exists>ts. os = [Began ts] \<or> os = [Rolled_Back, Began ts])"
| "matches h D (Get key) rc v os \<longleftrightarrow>
     (if rc = Rc_OK then accessed (h key) False (c_str key, v) os
      else if rc = Rc_NOT_FOUND then (os = [] \<and> h key \<notin> D) \<or> os = [Refused (h key)] \<or>
        (\<exists>k v'. k \<noteq> c_str key \<and> accessed (h key) False (k, v') os)
      else os = [])"
| "matches h D (Put key val) rc v os \<longleftrightarrow>
     (if rc = Rc_OK
      then \<exists>os1 v'. accessed (h key) True (c_str key, v') os1 \<and> os = os1 @ [Wrote (h key) (c_str key, trunc_val val)]
      else os = [] \<or> os = [Refused (h key)] \<or> (\<exists>k v'. k \<noteq> c_str key \<and> accessed (h key) True (k, v') os))"
| "matches h D Commit_txn rc v os \<longleftrightarrow>
     (if rc = Rc_OK then \<exists>ts. os = [Committed ts] else os = (if rc = Rc_ABORT then [Failed] else []))"
| "matches h D Abort_txn rc v os \<longleftrightarrow> os = (if rc = Rc_OK then [Rolled_Back] else [])"

text \<open>A chain of steps that gives these answers to thread \<open>t\<close>.\<close>

definition runs_to :: "('r::linorder, 'v) cstate \<Rightarrow> nat \<Rightarrow> ('r, 'v) cout list \<Rightarrow> ('r, 'v) cstate \<Rightarrow> bool" where
  "runs_to s t os s' \<longleftrightarrow> csteps s s' \<and> cs_out s' = cs_out s @ map (Pair t) os"

lemma runs_refl: "runs_to s t [] s"
  by (simp add: runs_to_def csteps_refl)

lemma runs_trans: "runs_to s t os s1 \<Longrightarrow> runs_to s1 t os' s2 \<Longrightarrow> runs_to s t (os @ os') s2"
  using csteps_trans by (auto simp: runs_to_def)

lemma runs_emit: "cstep s t (emit s t x s') \<Longrightarrow> runs_to s t [x] (emit s t x s')"
  by (simp add: runs_to_def csteps_one)

lemma bridge_out [simp]: "bridge a (s\<lparr>cs_out := os\<rparr>) = bridge a s"
  by (simp add: bridge_def)

lemma dom_acc_map: "dom (acc_map as) = rows_of as"
  by (auto simp: acc_map_def rows_of_def dom_map_of_conv_image_fst image_image)

lemma acc_map_iff:
  assumes "distinct (map ca_row as)"
  shows "acc_map as r = Some l \<longleftrightarrow> (\<exists>a \<in> set as. ca_row a = r \<and> acc_of a = l)"
proof -
  have "distinct (map fst (map (\<lambda>a. (ca_row a, acc_of a)) as))" using assms by (simp add: comp_def)
  then show ?thesis by (auto simp: acc_map_def)
qed

lemma acc_map_snoc: "ca_row a \<notin> rows_of as \<Longrightarrow> acc_map (as @ [a]) = (acc_map as)(ca_row a \<mapsto> acc_of a)"
proof -
  assume "ca_row a \<notin> rows_of as"
  then have "acc_map as (ca_row a) = None" using dom_acc_map [of as] by blast
  then show ?thesis by (auto simp: acc_map_def map_add_def fun_eq_iff split: option.splits)
qed

lemma acc_map_Cons: "acc_map (a # as) = (acc_map as)(ca_row a \<mapsto> acc_of a)"
  by (simp add: acc_map_def)

lemma acc_map_update:
  assumes "i < length as" and "distinct (map ca_row as)" and "ca_row b = ca_row (as ! i)"
  shows "acc_map (as[i := b]) = (acc_map as)(ca_row (as ! i) \<mapsto> acc_of b)"
  using assms
proof (induction as arbitrary: i)
  case (Cons a as)
  show ?case
  proof (cases i)
    case 0
    then show ?thesis using Cons.prems by (simp add: acc_map_Cons del: fun_upd_apply)
  next
    case (Suc j)
    then have "ca_row (as ! j) \<in> set (map ca_row as)" using Cons.prems by simp
    moreover have "ca_row a \<notin> set (map ca_row as)" using Cons.prems by simp
    ultimately have "ca_row (as ! j) \<noteq> ca_row a" by metis
    then show ?thesis using Suc Cons.prems Cons.IH [of j] by (simp add: acc_map_Cons fun_upd_twist del: fun_upd_apply)
  qed
qed simp

lemma bridge_active:
  assumes "bridge a s" and "a_txns a c = Some x"
  shows "phase_of s c = Active" "ct_start (cs_thr s c) = at_start x" "at_acc x = acc_map (accs_of s c)"
proof -
  have "thr_sim (a_txns a c) (cs_thr s c)" using assms(1) by (simp add: bridge_def)
  then show "phase_of s c = Active" "ct_start (cs_thr s c) = at_start x" "at_acc x = acc_map (accs_of s c)"
    using assms(2) by (simp_all add: thr_sim_def)
qed

text \<open>A step that only changes the accesses of an active transaction.\<close>

lemma bridge_accs:
  assumes br: "bridge a s" and x: "a_txns a c = Some x" and acc: "acc = acc_map as"
  shows "bridge (set_txn a c (Some (x\<lparr>at_acc := acc\<rparr>))) (set_thr c ((cs_thr s c)\<lparr>ct_accs := as\<rparr>) s)"
  using br bridge_active [OF br x] acc by (auto simp: bridge_def thr_sim_def)

lemma bridge_local:
  assumes br: "bridge a s" and inv: "cinv s d" and x: "a_txns a c = Some x" and l: "at_acc x pk = Some l"
  obtains i where "i < length (accs_of s c)" "ca_row (accs_of s c ! i) = pk" "ca_copy (accs_of s c ! i) = (ak l, av l)"
    "acc_of (accs_of s c ! i) = l"
proof -
  obtain e where "e \<in> set (accs_of s c)" "ca_row e = pk" "acc_of e = l"
    using l bridge_active(3) [OF br x] acc_map_iff [OF phase_facts(1) [OF inv, of c]] by auto
  then show ?thesis using that by (auto simp: in_set_conv_nth acc_of_def)
qed

lemma bridge_put:
  assumes br: "bridge a s" and inv: "cinv s d" and x: "a_txns a c = Some x" and l: "at_acc x pk = Some l"
  shows "\<exists>s'. runs_to s c [Wrote pk (ak l, v)] s' \<and>
    bridge (set_txn a c (Some (x\<lparr>at_acc := (at_acc x)(pk \<mapsto> l\<lparr>aw := True, av := v\<rparr>)\<rparr>))) s'"
proof -
  note act = bridge_active [OF br x] and dis = phase_facts(1) [OF inv, of c]
  obtain i where i: "i < length (accs_of s c)" "ca_row (accs_of s c ! i) = pk" "acc_of (accs_of s c ! i) = l"
    by (rule bridge_local [OF br inv x l])
  let ?b = "(accs_of s c ! i)\<lparr>ca_wr := True, ca_copy := (ak l, v)\<rparr>"
  let ?s = "set_thr c ((cs_thr s c)\<lparr>ct_accs := (accs_of s c)[i := ?b]\<rparr>) s"
  have "runs_to s c [Wrote pk (ak l, v)] (emit s c (Wrote pk (ak l, v)) ?s)"
    using runs_emit [OF cs_put [OF act(1) i(1), of "(ak l, v)"]] i(2) by simp
  moreover have "acc_map ((accs_of s c)[i := ?b]) = (at_acc x)(pk \<mapsto> l\<lparr>aw := True, av := v\<rparr>)"
    using acc_map_update [OF i(1) dis, of ?b] i(2,3) act(3) by (cases l) (auto simp: acc_of_def)
  then have "bridge (set_txn a c (Some (x\<lparr>at_acc := (at_acc x)(pk \<mapsto> l\<lparr>aw := True, av := v\<rparr>)\<rparr>))) (emit s c (Wrote pk (ak l, v)) ?s)"
    unfolding bridge_out by (intro bridge_accs [OF br x]) simp
  ultimately show ?thesis by blast
qed

lemma bridge_reread:
  assumes br: "bridge a s" and inv: "cinv s d" and x: "a_txns a c = Some x" and l: "at_acc x pk = Some l"
  shows "\<exists>s'. runs_to s c [Reread pk (ak l, av l)] s' \<and> bridge a s' \<and> cinv s' d"
proof -
  obtain i where i: "i < length (accs_of s c)" "ca_row (accs_of s c ! i) = pk" "ca_copy (accs_of s c ! i) = (ak l, av l)"
    by (rule bridge_local [OF br inv x l])
  have "runs_to s c [Reread pk (ak l, av l)] (emit s c (Reread pk (ak l, av l)) s)"
    using runs_emit [OF cs_reread [OF bridge_active(1) [OF br x] i(1)]] i(2,3) by simp
  then show ?thesis using bridge_out [THEN iffD2, OF br] cinv_out [THEN iffD2, OF inv] by blast
qed

lemma bridge_access:
  assumes br: "bridge a s" and inv: "cinv s d" and x: "a_txns a c = Some x"
    and acc: "a_access (a_db a) (at_acc x) (at_start x) pk wr = Some acc'" and l': "acc' pk = Some l'"
  shows "\<exists>s' os. runs_to s c os s' \<and> accessed pk wr (ak l', av l') os \<and> bridge (set_txn a c (Some (x\<lparr>at_acc := acc'\<rparr>))) s'"
proof (cases "at_acc x pk")
  case (Some l)
  obtain s1 where s1: "runs_to s c [Reread pk (ak l, av l)] s1" "bridge a s1" "cinv s1 d"
    using bridge_reread [OF br inv x Some] by blast
  have same: "ak l' = ak l" "av l' = av l" using acc Some l' by (auto simp: a_access_def)
  show ?thesis
  proof (cases "wr \<and> \<not> aw l")
    case True
    then have "acc' = (at_acc x)(pk \<mapsto> l\<lparr>aw := True, av := av l\<rparr>)" using acc Some by (auto simp: a_access_def)
    then obtain s2 where "runs_to s1 c [Wrote pk (ak l, av l)] s2" "bridge (set_txn a c (Some (x\<lparr>at_acc := acc'\<rparr>))) s2"
      using bridge_put [OF s1(2,3) x Some, of "av l"] by auto
    moreover have "accessed pk wr (ak l', av l') ([Reread pk (ak l, av l)] @ [Wrote pk (ak l, av l)])"
      using True same by (simp add: accessed_def)
    ultimately show ?thesis using runs_trans [OF s1(1)] by blast
  next
    case False
    then have "l\<lparr>aw := aw l \<or> wr\<rparr> = l" by (cases l) auto
    then have "acc' = at_acc x" using acc Some by (auto simp: a_access_def)
    then have "set_txn a c (Some (x\<lparr>at_acc := acc'\<rparr>)) = a" using set_txn_same [OF x] by simp
    moreover have "accessed pk wr (ak l', av l') [Reread pk (ak l, av l)]" using same by (simp add: accessed_def)
    ultimately show ?thesis using s1(1,2) by metis
  qed
next
  case None
  then obtain row where row: "a_db a pk = Some row" "\<not> at_start x < a_wts row"
    "acc' = (at_acc x)(pk \<mapsto> \<lparr>aw = wr, ak = a_key row, av = a_val row\<rparr>)"
    using acc by (auto simp: a_access_def split: option.splits if_splits)
  note act = bridge_active [OF br x]
  let ?row = "\<lparr>cr_val = (a_key row, a_val row), cr_wts = a_wts row, cr_holder = None\<rparr>"
  let ?e = "\<lparr>ca_row = pk, ca_wr = wr, ca_copy = (a_key row, a_val row), ca_seen = (a_key row, a_val row)\<rparr>"
  let ?s = "set_thr c ((cs_thr s c)\<lparr>ct_accs := accs_of s c @ [?e]\<rparr>) s" and ?o = "Fetched pk (a_key row, a_val row)"
  have r: "cs_rows s pk = Some ?row" using br row(1) by (simp add: bridge_def db_rows_def)
  have new: "pk \<notin> rows_of (accs_of s c)" using None act(3) dom_acc_map [of "accs_of s c"] by auto
  have "runs_to s c [?o] (emit s c ?o ?s)"
    using runs_emit [OF cs_fetch [OF act(1) r, of wr]] new row(2) act(2) by (simp add: rows_of_def)
  moreover have "acc_map (accs_of s c @ [?e]) = acc'"
    using acc_map_snoc [of ?e "accs_of s c"] new act(3) row(3) by (simp add: acc_of_def)
  then have "bridge (set_txn a c (Some (x\<lparr>at_acc := acc'\<rparr>))) (emit s c ?o ?s)"
    unfolding bridge_out by (intro bridge_accs [OF br x]) simp
  moreover have "accessed pk wr (ak l', av l') [?o]" using row(3) l' by (auto simp: accessed_def)
  ultimately show ?thesis by blast
qed

text \<open>An access that is refused.\<close>

lemma bridge_refuse:
  assumes br: "bridge a s" and x: "a_txns a c = Some x" and row: "a_db a pk \<noteq> None"
    and acc: "a_access (a_db a) (at_acc x) (at_start x) pk wr = None"
  shows "\<exists>s'. runs_to s c [Refused pk] s' \<and> bridge a s'"
proof -
  note act = bridge_active [OF br x]
  obtain r where r: "a_db a pk = Some r" "at_acc x pk = None" "at_start x < a_wts r"
    using row acc by (auto simp: a_access_def split: option.splits if_splits)
  have "cs_rows s pk = Some \<lparr>cr_val = (a_key r, a_val r), cr_wts = a_wts r, cr_holder = None\<rparr>"
    using br r(1) by (simp add: bridge_def db_rows_def)
  moreover have "pk \<notin> ca_row ` set (accs_of s c)" using r(2) act(3) dom_acc_map [of "accs_of s c"] by (auto simp: rows_of_def)
  ultimately have "runs_to s c [Refused pk] (emit s c (Refused pk) s)"
    using runs_emit [OF cs_refuse [OF act(1)]] r(3) act(2) by simp
  then show ?thesis using bridge_out [THEN iffD2, OF br] by blast
qed

lemma csteps_replay:
  assumes "csteps s s'" and "cinv s d" and "replay db (cs_log s) = Some d"
  obtains d' where "cinv s' d'" "replay db (cs_log s') = Some d'"
  using csteps_inv [OF assms] by blast

lemma a_access_has: "a_access db acc start pk wr = Some acc' \<Longrightarrow> \<exists>l. acc' pk = Some l \<and> (wr \<longrightarrow> aw l)"
  by (auto simp: a_access_def split: option.splits if_splits)

lemma bridge_get:
  assumes br: "bridge a s" and inv: "cinv s d" and x: "a_txns a c = Some x"
    and st: "a_step h a c (Get key) = (rc, v, a')"
  shows "\<exists>s' os. runs_to s c os s' \<and> bridge a' s' \<and> matches h (dom (a_db a)) (Get key) rc v os"
proof (cases "a_db a (h key) = None")
  case True
  then have "a' = a \<and> rc = Rc_NOT_FOUND" using st x set_txn_same [OF x] by (auto simp: a_read_def)
  then show ?thesis using br runs_refl True by fastforce
next
  case row: False
  show ?thesis
  proof (cases "a_access (a_db a) (at_acc x) (at_start x) (h key) False")
    case None
    then have "a' = a \<and> rc = Rc_NOT_FOUND" using st x row set_txn_same [OF x] by (auto simp: a_read_def)
    then show ?thesis using bridge_refuse [OF br x row None] by fastforce
  next
    case (Some acc')
    obtain l where l: "acc' (h key) = Some l" using a_access_has [OF Some] by blast
    have a': "a' = set_txn a c (Some (x\<lparr>at_acc := acc'\<rparr>))"
      and rc: "if ak l = c_str key then rc = Rc_OK \<and> v = av l else rc = Rc_NOT_FOUND"
      using st x row Some l by (auto simp: a_read_def split: if_splits)
    obtain s' os where s': "runs_to s c os s'" "accessed (h key) False (ak l, av l) os" "bridge a' s'"
      using bridge_access [OF br inv x Some l] a' by blast
    have "matches h (dom (a_db a)) (Get key) rc v os" using rc s'(2) by (auto split: if_splits)
    then show ?thesis using s' by blast
  qed
qed

lemma bridge_update:
  assumes br: "bridge a s" and inv: "cinv s d" and log: "replay db (cs_log s) = Some d" and x: "a_txns a c = Some x"
    and old: "a_db a (h key) \<noteq> None" and st: "a_step h a c (Put key val) = (rc, v, a')"
  shows "\<exists>s' os. runs_to s c os s' \<and> bridge a' s' \<and> matches h (dom (a_db a)) (Put key val) rc v os"
proof (cases "a_access (a_db a) (at_acc x) (at_start x) (h key) True")
  case None
  then have "a' = a \<and> rc = Rc_ERROR" using st x old set_txn_same [OF x] by (auto simp: a_update_def)
  then show ?thesis using bridge_refuse [OF br x old None] by fastforce
next
  case (Some acc')
  obtain l where l: "acc' (h key) = Some l" "aw l" using a_access_has [OF Some] by auto
  obtain s1 os where s1: "runs_to s c os s1" "accessed (h key) True (ak l, av l) os"
    "bridge (set_txn a c (Some (x\<lparr>at_acc := acc'\<rparr>))) s1"
    using bridge_access [OF br inv x Some l(1)] by blast
  show ?thesis
  proof (cases "ak l = c_str key")
    case True
    then have a': "a' = set_txn a c (Some (x\<lparr>at_acc := acc'(h key \<mapsto> l\<lparr>av := trunc_val val\<rparr>)\<rparr>))" and rc: "rc = Rc_OK"
      using st x old Some l by (auto simp: a_update_def)
    obtain d1 where inv1: "cinv s1 d1" using csteps_replay [OF _ inv log] s1(1) by (auto simp: runs_to_def)
    have "l\<lparr>aw := True, av := trunc_val val\<rparr> = l\<lparr>av := trunc_val val\<rparr>" using l(2) by (cases l) simp
    then obtain s2 where "runs_to s1 c [Wrote (h key) (ak l, trunc_val val)] s2" "bridge a' s2"
      using bridge_put [OF s1(3) inv1, of c "x\<lparr>at_acc := acc'\<rparr>" "h key" l "trunc_val val"] l(1) a' by auto
    moreover have "matches h (dom (a_db a)) (Put key val) rc v (os @ [Wrote (h key) (ak l, trunc_val val)])"
      using s1(2) True rc by auto
    ultimately show ?thesis using runs_trans [OF s1(1)] by blast
  next
    case False
    then have a': "a' = set_txn a c (Some (x\<lparr>at_acc := acc'\<rparr>))" and rc: "rc = Rc_ERROR"
      using st x old Some l by (auto simp: a_update_def)
    have "matches h (dom (a_db a)) (Put key val) rc v os" using s1(2) False rc by auto
    then show ?thesis using s1 a' by blast
  qed
qed

text \<open>Ending a transaction: the others and the clock as the abstract step says.\<close>

lemma bridge_end:
  assumes br: "bridge a s" and a': "a' = a\<lparr>a_db := db, a_time := ts, a_txns := (a_txns a)(c := None)\<rparr>"
    and s': "cs_rows s' = db_rows db" "cs_clock s' = ts" "phase_of s' c = Idle" "\<forall>u. u \<noteq> c \<longrightarrow> cs_thr s' u = cs_thr s u"
  shows "bridge a' s'"
  unfolding bridge_def
proof (intro conjI allI)
  fix u
  show "thr_sim (a_txns a' u) (cs_thr s' u)"
    using br s'(3,4) by (cases "u = c") (simp_all add: a' bridge_def thr_sim_def)
qed (use a' s' in simp_all)

lemma bridge_commit:
  assumes br: "bridge a s" and inv: "cinv s d" and x: "a_txns a c = Some x" and nowrap: "a_time a + 1 \<noteq> 0"
    and st: "a_step h a c Commit_txn = (rc, v, a')"
  shows "\<exists>s' os. runs_to s c os s' \<and> bridge a' s' \<and> matches h (dom (a_db a)) Commit_txn rc v os"
proof -
  note act = bridge_active [OF br x] and facts = phase_facts [OF inv, of c]
  have rows: "cs_rows s = db_rows (a_db a)" and clock: "cs_clock s = a_time a" using br by (simp_all add: bridge_def)
  have dom: "dom (at_acc x) = rows_of (accs_of s c)" using act(3) dom_acc_map by simp
  have row: "\<exists>row. a_db a pk = Some row" if "pk \<in> rows_of (accs_of s c)" for pk
    using facts(2) that rows by (auto simp: db_rows_def)
  have valid: "free_valid (cs_rows s) (ct_start (cs_thr s c)) pk \<longleftrightarrow> (\<forall>row. a_db a pk = Some row \<longrightarrow> a_wts row \<le> at_start x)"
    if "pk \<in> rows_of (accs_of s c)" for pk
    using row [OF that] act(2) by (auto simp: free_valid_def rows db_rows_def not_less)
  show ?thesis
  proof (cases "a_valid (a_db a) (at_acc x) (at_start x)")
    case True
    then have a': "a' = a\<lparr>a_db := a_write_back (a_db a) (at_acc x) (a_time a), a_time := a_time a + 1, a_txns := (a_txns a)(c := None)\<rparr>"
      using st x by simp
    have "free_valid (cs_rows s) (ct_start (cs_thr s c)) pk" if "pk \<in> rows_of (accs_of s c)" for pk
      using True valid [OF that] that dom by (simp add: a_valid_def)
    then obtain s' where s': "csteps s s'" "cs_clock s' = cs_clock s + 1" "\<forall>u. u \<noteq> c \<longrightarrow> cs_thr s' u = cs_thr s u"
      "phase_of s' c = Idle" "cs_rows s' = written (cs_clock s) (writes_of (accs_of s c)) (cs_rows s)"
      "cs_out s' = cs_out s @ [(c, Committed (cs_clock s))]"
      using commit_ok [OF act(1) facts(1)] facts(3) act(1) nowrap clock by auto
    have "written (a_time a) (writes_of (accs_of s c)) (db_rows (a_db a)) pk =
        db_rows (a_write_back (a_db a) (at_acc x) (a_time a)) pk" for pk
    proof (cases "at_acc x pk")
      case None
      then have "writes_of (accs_of s c) pk = None" using dom writes_of_rows [of "accs_of s c"] by blast
      then show ?thesis using None by (simp add: written_def db_rows_def a_write_back_def)
    next
      case (Some l)
      then obtain e where e: "e \<in> set (accs_of s c)" "ca_row e = pk" "acc_of e = l"
        using act(3) acc_map_iff [OF facts(1)] by auto
      have l: "l = \<lparr>aw = ca_wr e, ak = fst (ca_copy e), av = snd (ca_copy e)\<rparr>" using e(3) by (simp add: acc_of_def)
      have same: "e' = e" if "e' \<in> set (accs_of s c)" "ca_row e' = pk" for e'
        using facts(1) e(1,2) that by (auto simp: distinct_map inj_on_def)
      have "pk \<in> rows_of (accs_of s c)" using e by (auto simp: rows_of_def)
      then obtain row where "a_db a pk = Some row" using row by blast
      moreover have "writes_of (accs_of s c) pk = (if ca_wr e then Some (ca_copy e) else None)"
      proof (cases "ca_wr e")
        case True
        then show ?thesis using writes_of_iff [OF facts(1), of pk "ca_copy e"] e by auto
      next
        case False
        then have "writes_of (accs_of s c) pk \<noteq> Some z" for z
          using writes_of_iff [OF facts(1), of pk z] same by auto
        then show ?thesis using False by (cases "writes_of (accs_of s c) pk") auto
      qed
      ultimately show ?thesis using Some l by (simp add: written_def db_rows_def a_write_back_def)
    qed
    then have "cs_rows s' = db_rows (a_write_back (a_db a) (at_acc x) (a_time a))"
      using s'(5) rows clock by (simp add: fun_eq_iff)
    then have "bridge a' s'" using bridge_end [OF br a'] s' clock by simp
    moreover have "runs_to s c [Committed (cs_clock s)] s'" using s'(1,6) by (simp add: runs_to_def)
    moreover have "rc = Rc_OK" using True st x by simp
    then have "matches h (dom (a_db a)) Commit_txn rc v [Committed (cs_clock s)]" by simp
    ultimately show ?thesis by blast
  next
    case False
    then have a': "a' = a\<lparr>a_db := a_db a, a_time := a_time a, a_txns := (a_txns a)(c := None)\<rparr>" using st x by simp
    obtain pk where "pk \<in> dom (at_acc x)" "\<not> (\<forall>row. a_db a pk = Some row \<longrightarrow> a_wts row \<le> at_start x)"
      using False by (auto simp: a_valid_def)
    then have bad: "\<exists>r \<in> rows_of (accs_of s c). \<not> free_valid (cs_rows s) (ct_start (cs_thr s c)) r"
      using valid dom by auto
    have "\<exists>row. cs_rows s r = Some row \<and> cr_holder row = None" if "r \<in> rows_of (accs_of s c)" for r
      using row [OF that] by (auto simp: rows db_rows_def)
    from commit_fail [OF act(1) facts(1) this bad] obtain s' where s': "csteps s s'" "cs_clock s' = cs_clock s"
      "\<forall>u. u \<noteq> c \<longrightarrow> cs_thr s' u = cs_thr s u" "phase_of s' c = Idle" "cs_rows s' = cs_rows s"
      "cs_out s' = cs_out s @ [(c, Failed)]" by blast
    then have "bridge a' s'" using bridge_end [OF br a'] rows clock by simp
    moreover have "runs_to s c [Failed] s'" using s'(1,6) by (simp add: runs_to_def)
    moreover have "rc = Rc_ABORT" using False st x by simp
    then have "matches h (dom (a_db a)) Commit_txn rc v [Failed]" by simp
    ultimately show ?thesis by blast
  qed
qed

lemma bridge_begin:
  assumes br: "bridge a s" and nowrap: "a_time a + 1 \<noteq> 0" and st: "a_step h a c Begin_txn = (rc, v, a')"
  shows "\<exists>s' os. runs_to s c os s' \<and> bridge a' s' \<and> matches h (dom (a_db a)) Begin_txn rc v os"
proof -
  let ?th = "\<lparr>ct_start = cs_clock s, ct_end = 0, ct_accs = [], ct_phase = Active\<rparr>"
  have clock: "cs_clock s = a_time a" using br by (simp add: bridge_def)
  obtain s1 os where s1: "runs_to s c os s1" "phase_of s1 c = Idle" "cs_clock s1 = cs_clock s" "cs_rows s1 = cs_rows s"
    "\<forall>u. u \<noteq> c \<longrightarrow> cs_thr s1 u = cs_thr s u" "os = [] \<or> os = [Rolled_Back]"
  proof (cases "a_txns a c")
    case None
    then have "phase_of s c = Idle" using br by (auto simp: bridge_def thr_sim_def dest: spec [of _ c])
    then show ?thesis using that [OF runs_refl] by blast
  next
    case (Some x)
    from runs_emit [OF cs_rollback [OF bridge_active(1) [OF br Some]]] show ?thesis by (rule that) simp_all
  qed
  let ?s = "emit s1 c (Began (cs_clock s1)) (set_thr c ?th (s1\<lparr>cs_clock := cs_clock s1 + 1\<rparr>))"
  have "runs_to s1 c [Began (cs_clock s1)] ?s"
    using runs_emit [OF cs_begin [OF s1(2)]] s1(3) nowrap clock by simp
  then have "runs_to s c (os @ [Began (cs_clock s1)]) ?s" by (rule runs_trans [OF s1(1)])
  moreover have "bridge a' ?s"
    unfolding bridge_out unfolding bridge_def
  proof (intro conjI allI)
    fix u
    show "thr_sim (a_txns a' u) (cs_thr (set_thr c ?th (s1\<lparr>cs_clock := cs_clock s1 + 1\<rparr>)) u)"
      using br st s1(5) clock by (cases "u = c") (auto simp: bridge_def thr_sim_def acc_map_def)
  qed (use br st s1(3,4) in \<open>auto simp: bridge_def\<close>)
  moreover have "matches h (dom (a_db a)) Begin_txn rc v (os @ [Began (cs_clock s1)])" using st s1(6) by auto
  ultimately show ?thesis by blast
qed

lemma bridge_abort:
  assumes br: "bridge a s" and x: "a_txns a c = Some x" and st: "a_step h a c Abort_txn = (rc, v, a')"
  shows "\<exists>s' os. runs_to s c os s' \<and> bridge a' s' \<and> matches h (dom (a_db a)) Abort_txn rc v os"
proof -
  have "a' = a\<lparr>a_db := a_db a, a_time := a_time a, a_txns := (a_txns a)(c := None)\<rparr>" using st x by simp
  from bridge_end [OF br this, of "goto c Idle s"] have "bridge a' (goto c Idle s)"
    using br by (simp add: bridge_def)
  then have "bridge a' (emit s c Rolled_Back (goto c Idle s))" unfolding bridge_out .
  moreover have "rc = Rc_OK" using st x by simp
  then have "matches h (dom (a_db a)) Abort_txn rc v [Rolled_Back]" by simp
  ultimately show ?thesis using runs_emit [OF cs_rollback [OF bridge_active(1) [OF br x]]] by blast
qed

text \<open>Each call that inserts no row is a chain of steps.\<close>

lemma bridge_step:
  assumes br: "bridge a s" and inv: "cinv s d" and log: "replay db (cs_log s) = Some d" and ok: "a_ok h a c call"
    and upd: "\<And>key val. call = Put key val \<Longrightarrow> a_db a (h key) \<noteq> None" and st: "a_step h a c call = (rc, v, a')"
  shows "\<exists>s' os. runs_to s c os s' \<and> bridge a' s' \<and> matches h (dom (a_db a)) call rc v os"
proof (cases "call = Begin_txn")
  case True
  then have "a_time a + 1 \<noteq> 0" using ok by simp
  then show ?thesis using bridge_begin [OF br _ st [unfolded True]] True by simp
next
  case other: False
  show ?thesis
  proof (cases "a_txns a c")
    case None
    then have "a' = a" "matches h (dom (a_db a)) call rc v []" using st other by (cases call; auto)+
    then show ?thesis using br runs_refl by blast
  next
    case (Some x)
    show ?thesis
    proof (cases call)
      case (Get key)
      show ?thesis using bridge_get [OF br inv Some st [unfolded Get]] Get by simp
    next
      case (Put key val)
      show ?thesis using bridge_update [OF br inv log Some upd [OF Put] st [unfolded Put]] Put by simp
    next
      case Commit_txn
      then have "a_time a + 1 \<noteq> 0" using ok by simp
      then show ?thesis using bridge_commit [OF br inv Some _ st [unfolded Commit_txn]] Commit_txn by simp
    next
      case Abort_txn
      show ?thesis using bridge_abort [OF br Some st [unfolded Abort_txn]] Abort_txn by simp
    qed (use other in simp)
  qed
qed

lemma csteps_dom: "csteps s s' \<Longrightarrow> dom (cs_rows s') = dom (cs_rows s)"
proof (induction rule: csteps.induct)
  case (csteps_step s s1 t s2)
  have "dom (cs_rows s2) = dom (cs_rows s1)"
    using csteps_step(2) by (induction rule: cstep.induct) (auto split: if_splits)
  then show ?case using csteps_step.IH by simp
qed simp

lemma bridge_dom: "bridge a s \<Longrightarrow> dom (a_db a) = dom (cs_rows s)"
  by (auto simp: bridge_def db_rows_def dom_def)

text \<open>
  A run: the answers of the steps fall into one piece per call, given to its client, which matches
  the reply of the engine.
\<close>

definition explains :: "(string \<Rightarrow> u64) \<Rightarrow> u64 set \<Rightarrow> event list \<Rightarrow> (nat \<times> kv_out) list \<Rightarrow> bool" where
  "explains h D evs os \<longleftrightarrow> (\<exists>oss. os = concat oss \<and>
     list_all2 (\<lambda>(c, call, rc, v) os'. \<exists>os1. os' = map (Pair c) os1 \<and> matches h D call rc v os1) evs oss)"

lemma explains_Nil: "explains h D [] []"
  by (simp add: explains_def)

lemma explains_Cons:
  assumes "matches h D call rc v os" and "explains h D evs os'"
  shows "explains h D ((c, call, rc, v) # evs) (map (Pair c) os @ os')"
proof -
  obtain oss where oss: "os' = concat oss"
    "list_all2 (\<lambda>(c, call, rc, v) os'. \<exists>os1. os' = map (Pair c) os1 \<and> matches h D call rc v os1) evs oss"
    using assms(2) by (auto simp: explains_def)
  then show ?thesis
    unfolding explains_def using assms(1) by (intro exI [of _ "map (Pair c) os # oss"]) auto
qed

lemma bridge_run:
  assumes "bridge a s" and "cinv s d" and "replay db (cs_log s) = Some d" and "a_oks h a cs"
    and "updates_only h (a_db a) cs" and "a_run h a cs = (evs, a')"
  shows "\<exists>s' os. csteps s s' \<and> cs_out s' = cs_out s @ os \<and> bridge a' s' \<and> explains h (dom (a_db a)) evs os"
  using assms
proof (induction cs arbitrary: a s d evs)
  case Nil
  then show ?case using csteps_refl [of s] explains_Nil by auto
next
  case (Cons x cs)
  obtain c call where x: "x = (c, call)" by (cases x)
  obtain rc v a1 where st: "a_step h a c call = (rc, v, a1)" by (rule prod_cases3)
  obtain evs1 where run: "a_run h a1 cs = (evs1, a')" "evs = (c, call, rc, v) # evs1"
    using Cons.prems(6) x st by (auto split: prod.splits)
  have ok: "a_ok h a c call" "a_oks h a1 cs" using Cons.prems(4) x st by simp_all
  have upd: "a_db a (h key) \<noteq> None" if "call = Put key val" for key val
    using Cons.prems(5) x that by (auto simp: updates_only_def)
  obtain s1 os1 where s1: "runs_to s c os1 s1" "bridge a1 s1" "matches h (dom (a_db a)) call rc v os1"
    using bridge_step [OF Cons.prems(1-3) ok(1) _ st] upd by metis
  have steps: "csteps s s1" "cs_out s1 = cs_out s @ map (Pair c) os1" using s1(1) by (simp_all add: runs_to_def)
  obtain d1 where d1: "cinv s1 d1" "replay db (cs_log s1) = Some d1" by (rule csteps_replay [OF steps(1) Cons.prems(2,3)])
  have same: "dom (a_db a1) = dom (a_db a)"
    using bridge_dom [OF s1(2)] bridge_dom [OF Cons.prems(1)] csteps_dom [OF steps(1)] by simp
  then have "updates_only h (a_db a1) cs"
    unfolding updates_only_def
  proof (intro allI impI)
    fix c' key val assume "(c', Put key val) \<in> set cs"
    then have "a_db a (h key) \<noteq> None" using Cons.prems(5) unfolding updates_only_def by fastforce
    then show "a_db a1 (h key) \<noteq> None" using same by blast
  qed
  from Cons.IH [OF s1(2) d1 ok(2) this run(1)] obtain s2 os2 where s2: "csteps s1 s2" "cs_out s2 = cs_out s1 @ os2"
    "bridge a' s2" "explains h (dom (a_db a)) evs1 os2" unfolding same by blast
  have "explains h (dom (a_db a)) evs (map (Pair c) os1 @ os2)"
    unfolding run(2) by (rule explains_Cons [OF s1(3) s2(4)])
  then show ?case using csteps_trans [OF s2(1) steps(1)] s2(2,3) steps(2) by (intro exI [of _ s2]) simp
qed

section \<open>The engine\<close>

text \<open>The rows of an engine, and the state of \<open>Threads\<close> in which nobody runs a transaction on it.\<close>

definition kv_rows_of :: "sys \<Rightarrow> u64 \<rightharpoonup> (string \<times> string) \<times> u64" where
  "kv_rows_of y = (\<lambda>pk. map_option (\<lambda>row. ((a_key row, a_val row), a_wts row)) (db_view (st (eng y)) pk))"

definition kv_start :: "sys \<Rightarrow> kv_state" where
  "kv_start y = cinit (kv_rows_of y) (timestamp (st (eng y)))"

lemma kv_times:
  assumes "wf_sys y"
  shows "\<forall>r v w. kv_rows_of y r = Some (v, w) \<longrightarrow> w < timestamp (st (eng y))"
proof (intro allI impI)
  fix r v w assume "kv_rows_of y r = Some (v, w)"
  then obtain row where row: "db_view (st (eng y)) r = Some row" "a_wts row = w" by (auto simp: kv_rows_of_def)
  then obtain q where q: "idx_row (st (eng y)) r = Some q"
    using db_view_None_iff [OF wf_sysD(1) [OF assms], of r] by (cases "idx_row (st (eng y)) r") auto
  obtain k v' w' where "w' < timestamp (st (eng y))"
    "db_view (st (eng y)) r = Some \<lparr>a_key = k, a_val = v', a_wts = w'\<rparr>"
    by (rule db_view_Some [OF wf_sysD(1) [OF assms] q]) blast
  with row show "w < timestamp (st (eng y))" by auto
qed

lemma kv_bridge:
  assumes "\<forall>c. impl (handles y c) = None"
  shows "bridge (abs_sys y) (kv_start y)"
proof -
  have "cs_rows (kv_start y) = db_rows (a_db (abs_sys y))"
    by (auto simp: kv_start_def cinit_def db_rows_def kv_rows_of_def option.map_comp comp_def)
  then show ?thesis using assms by (simp add: bridge_def thr_sim_def kv_start_def cinit_def)
qed

text \<open>
  C15. The model of calls is contained in the model of threads: every run of transactions of reads and
  updates on the engine that starts without open transactions (each transaction with at most
  \<open>MAX_ROW_PER_TXN\<close> accesses, the clock not wrapping), call by call and client by client in any order,
  is matched by a run of the threads at the granularity of the row latches from the same rows. Call
  by call the steps give the answers that explain the reply of the engine (the value a \<open>get\<close>
  returned was copied or read again from the copy, a \<open>NOT_FOUND\<close> is a missing row, a refused access or
  the row of another key, an \<open>OK\<close> or \<open>ABORT\<close> of \<open>commit\<close> is a stamp or a failed check), and both runs
  end with the same rows, update times and clock. The guarantees proved for the threads thus speak of
  the code the other theories execute; \<open>threads_linearizable\<close> is about the converse.
\<close>

theorem calls_are_schedules:
  assumes "wf_sys y" and "\<forall>c. impl (handles y c) = None"
    and "updates_only h (db_view (st (eng y))) cs" and "calls_bounded (\<lambda>_. 0) cs"
    and "unat (timestamp (st (eng y))) + length cs < 2 ^ 64"
  shows "\<exists>evs y' s. run h y cs = Inr (evs, y') \<and> csteps (kv_start y) s \<and>
    explains h (dom (kv_rows_of y)) evs (cs_out s) \<and>
    contents s = kv_rows_of y' \<and> cs_clock s = timestamp (st (eng y'))"
proof -
  have none: "\<forall>c. a_txns (abs_sys y) c = None" using assms(2) by simp
  have oks: "a_oks h (abs_sys y) cs" by (rule serial_oks [OF none]) (use assms(3-5) in simp_all)
  obtain evs y' where r: "run h y cs = Inr (evs, y')" "a_run h (abs_sys y) cs = (evs, abs_sys y')"
    using run_ok [OF assms(1) oks] by blast
  have inv: "cinv (kv_start y) (kv_rows_of y)"
    unfolding kv_start_def by (rule cinv_init [OF kv_times [OF assms(1)]])
  have log: "replay (kv_rows_of y) (cs_log (kv_start y)) = Some (kv_rows_of y)" and out: "cs_out (kv_start y) = []"
    by (simp_all add: kv_start_def cinit_def)
  have dom: "dom (a_db (abs_sys y)) = dom (kv_rows_of y)" by (auto simp: kv_rows_of_def dom_def)
  obtain s where s: "csteps (kv_start y) s" "bridge (abs_sys y') s" "explains h (dom (kv_rows_of y)) evs (cs_out s)"
    using bridge_run [OF kv_bridge [OF assms(2)] inv log oks _ r(2)] assms(3) unfolding out dom by auto
  have "contents s = kv_rows_of y'"
    using s(2) by (auto simp: contents_def bridge_def db_rows_def kv_rows_of_def option.map_comp comp_def)
  moreover have "cs_clock s = timestamp (st (eng y'))" using s(2) by (simp add: bridge_def)
  ultimately show ?thesis using r(1) s(1,3) by blast
qed

theorem calls_are_schedules_witness:
  "\<exists>evs y' s. run demo_hash demo_start demo_calls = Inr (evs, y') \<and> csteps (kv_start demo_start) s \<and>
    explains demo_hash (dom (kv_rows_of demo_start)) evs (cs_out s) \<and>
    contents s = kv_rows_of y' \<and> cs_clock s = timestamp (st (eng y'))"
proof (rule calls_are_schedules [OF demo_start_ok(1)])
  show "\<forall>c. impl (handles demo_start c) = None" using demo_start_ok(3) by blast
  show "updates_only demo_hash (db_view (st (eng demo_start))) demo_calls"
    using demo_updates by (simp add: demo_start_ok(4))
  show "calls_bounded (\<lambda>_. 0) demo_calls" by (rule demo_bounded)
  show "unat (timestamp (st (eng demo_start))) + length demo_calls < 2 ^ 64"
    by (simp add: demo_start_ok(5) demo_calls_def)
qed

end
