(* ===== verification/Node_List.thy ===== *)
theory Node_List
  imports Prelude
begin

text \<open>
  The stack and list macros of \<open>Storage/System/helper.h\<close> (\<open>STACK_POP\<close>, \<open>STACK_PUSH\<close>, \<open>LIST_GET_HEAD\<close>,
  \<open>LIST_PUT_TAIL\<close>, \<open>LIST_INSERT_BEFORE\<close>, \<open>LIST_REMOVE\<close>, \<open>LIST_REMOVE_HT\<close>) on a heap of entries with
  their \<open>next\<close> and \<open>prev\<close> pointers. Each macro is a function on the heap and the pointer variables it
  assigns; following a null pointer or one to no entry is a fault. A chain of entries stands for the
  list of their addresses, and the macros for the operations of a queue: the locale \<open>list_queue\<close>.
\<close>

section \<open>Entries\<close>

record entry =
  e_next :: "nat option"
  e_prev :: "nat option"

type_synonym heap = "nat \<rightharpoonup> entry"

definition follow :: "heap \<Rightarrow> nat option \<Rightarrow> (nat \<times> entry) res" where
  "follow H p = R_bind (R_ptr p) (\<lambda>a. case H a of None \<Rightarrow> Inl Use_After_Free | Some e \<Rightarrow> Inr (a, e))"

definition set_next :: "heap \<Rightarrow> nat option \<Rightarrow> nat option \<Rightarrow> heap res" where
  "set_next H p q = R_bind (follow H p) (\<lambda>(a, e). Inr (H(a \<mapsto> e\<lparr>e_next := q\<rparr>)))"

definition set_prev :: "heap \<Rightarrow> nat option \<Rightarrow> nat option \<Rightarrow> heap res" where
  "set_prev H p q = R_bind (follow H p) (\<lambda>(a, e). Inr (H(a \<mapsto> e\<lparr>e_prev := q\<rparr>)))"

definition get_next :: "heap \<Rightarrow> nat option \<Rightarrow> nat option res" where
  "get_next H p = R_bind (follow H p) (\<lambda>(a, e). Inr (e_next e))"

definition get_prev :: "heap \<Rightarrow> nat option \<Rightarrow> nat option res" where
  "get_prev H p = R_bind (follow H p) (\<lambda>(a, e). Inr (e_prev e))"

section \<open>Macros\<close>

text \<open>\<open>STACK_POP(stack, top)\<close>: the new values of \<open>stack\<close> and \<open>top\<close>.\<close>

definition stack_pop :: "heap \<Rightarrow> nat option \<Rightarrow> (nat option \<times> nat option) res" where
  "stack_pop H stack =
     (if stack = None then Inr (stack, None)
      else R_bind (get_next H stack) (\<lambda>nx. Inr (nx, stack)))"

definition stack_push :: "heap \<Rightarrow> nat option \<Rightarrow> nat option \<Rightarrow> (heap \<times> nat option) res" where
  "stack_push H stack en = R_bind (set_next H en stack) (\<lambda>H1. Inr (H1, en))"

text \<open>\<open>LIST_GET_HEAD(lhead, ltail, en)\<close>: the new heap, \<open>lhead\<close>, \<open>ltail\<close> and \<open>en\<close>.\<close>

definition list_get_head ::
    "heap \<Rightarrow> nat option \<Rightarrow> nat option \<Rightarrow> (heap \<times> nat option \<times> nat option \<times> nat option) res" where
  "list_get_head H lhead ltail =
     (let en = lhead
      in R_bind (get_next H lhead) (\<lambda>lhead1.
         R_bind (if lhead1 \<noteq> None then R_bind (set_prev H lhead1 None) (\<lambda>H1. Inr (H1, ltail)) else Inr (H, None))
           (\<lambda>(H1, ltail1).
         R_bind (set_next H1 en None) (\<lambda>H2. Inr (H2, lhead1, ltail1, en)))))"

definition list_put_tail ::
    "heap \<Rightarrow> nat option \<Rightarrow> nat option \<Rightarrow> nat option \<Rightarrow> (heap \<times> nat option \<times> nat option) res" where
  "list_put_tail H lhead ltail en =
     R_bind (set_next H en None) (\<lambda>H1.
     R_bind (set_prev H1 en None) (\<lambda>H2.
       if ltail \<noteq> None
       then R_bind (set_prev H2 en ltail) (\<lambda>H3.
            R_bind (set_next H3 ltail en) (\<lambda>H4. Inr (H4, lhead, en)))
       else Inr (H2, en, en)))"

definition list_insert_before :: "heap \<Rightarrow> nat option \<Rightarrow> nat option \<Rightarrow> heap res" where
  "list_insert_before H en new =
     R_bind (set_next H new en) (\<lambda>H1.
     R_bind (get_prev H1 en) (\<lambda>p.
     R_bind (set_prev H1 new p) (\<lambda>H2.
     R_bind (get_prev H2 en) (\<lambda>p.
     R_bind (if p \<noteq> None then set_next H2 p new else Inr H2) (\<lambda>H3. set_prev H3 en new)))))"

definition list_remove :: "heap \<Rightarrow> nat option \<Rightarrow> heap res" where
  "list_remove H en =
     R_bind (get_next H en) (\<lambda>nx.
     R_bind (if nx \<noteq> None then R_bind (get_prev H en) (set_prev H nx) else Inr H) (\<lambda>H1.
     R_bind (get_prev H1 en) (\<lambda>pv.
       if pv \<noteq> None then R_bind (get_next H1 en) (set_next H1 pv) else Inr H1)))"

definition list_remove_ht ::
    "heap \<Rightarrow> nat option \<Rightarrow> nat option \<Rightarrow> nat option \<Rightarrow> (heap \<times> nat option \<times> nat option) res" where
  "list_remove_ht H en hd0 tl0 =
     R_bind (get_next H en) (\<lambda>nx.
     R_bind (if nx \<noteq> None then R_bind (get_prev H en) (\<lambda>p. R_bind (set_prev H nx p) (\<lambda>H1. Inr (H1, tl0)))
             else R_bind (R_assert (en = tl0)) (\<lambda>_. R_bind (get_prev H en) (\<lambda>p. Inr (H, p)))) (\<lambda>(H1, tl1).
     R_bind (get_prev H1 en) (\<lambda>pv.
       if pv \<noteq> None then R_bind (get_next H1 en) (\<lambda>q. R_bind (set_next H1 pv q) (\<lambda>H2. Inr (H2, hd0, tl1)))
       else R_bind (R_assert (en = hd0)) (\<lambda>_. R_bind (get_next H1 en) (\<lambda>q. Inr (H1, q, tl1))))))"

section \<open>Chains\<close>

text \<open>
  \<open>chain H pv p ps lst nx\<close>: from \<open>p\<close> on, the entries \<open>ps\<close> follow each other; the first one's \<open>prev\<close> is
  \<open>pv\<close>, the last one is \<open>lst\<close> (\<open>pv\<close> if there is none) and its \<open>next\<close> is \<open>nx\<close>.
\<close>

fun chain :: "heap \<Rightarrow> nat option \<Rightarrow> nat option \<Rightarrow> nat list \<Rightarrow> nat option \<Rightarrow> nat option \<Rightarrow> bool" where
  "chain H pv p [] lst nx \<longleftrightarrow> p = nx \<and> lst = pv"
| "chain H pv p (a # as) lst nx \<longleftrightarrow>
     p = Some a \<and> (\<exists>q. H a = Some \<lparr>e_next = q, e_prev = pv\<rparr> \<and> chain H (Some a) q as lst nx)"

definition dlist :: "heap \<Rightarrow> nat option \<Rightarrow> nat option \<Rightarrow> nat list \<Rightarrow> bool" where
  "dlist H lhead ltail ps \<longleftrightarrow> chain H None lhead ps ltail None \<and> distinct ps"

lemma chain_append:
  "chain H pv p (as @ bs) lst nx \<longleftrightarrow> (\<exists>m q. chain H pv p as m q \<and> chain H m q bs lst nx)"
  by (induction as arbitrary: pv p) auto

lemma chain_other [simp]: "a \<notin> set ps \<Longrightarrow> chain (H(a := x)) pv p ps lst nx = chain H pv p ps lst nx"
  by (induction ps arbitrary: pv p) auto

lemma chain_last: "chain H pv p ps lst nx \<Longrightarrow> lst = (if ps = [] then pv else Some (last ps))"
  by (induction ps arbitrary: pv p) auto

lemma chain_first: "chain H pv p ps lst nx \<Longrightarrow> p = (case ps of [] \<Rightarrow> nx | a # _ \<Rightarrow> Some a)"
  by (cases ps) auto

text \<open>Redirecting the ends of a chain.\<close>

lemma chain_set_prev:
  assumes "chain H pv (Some a) (a # as) lst nx" and "a \<notin> set as" and "H a = Some e"
  shows "chain (H(a \<mapsto> e\<lparr>e_prev := pv'\<rparr>)) pv' (Some a) (a # as) lst nx"
  using assms by auto

lemma chain_set_next:
  assumes "chain H pv p (as @ [a]) (Some a) nx" and "a \<notin> set as" and "H a = Some e"
  shows "chain (H(a \<mapsto> e\<lparr>e_next := nx'\<rparr>)) pv p (as @ [a]) (Some a) nx'"
  using assms by (auto simp: chain_append)

section \<open>The operations on chains\<close>

lemma follow_Some [simp]: "H a = Some e \<Longrightarrow> follow H (Some a) = Inr (a, e)"
  by (simp add: follow_def)

lemmas field_defs = set_next_def set_prev_def get_next_def get_prev_def

lemma dlist_Nil [simp]: "dlist H p q [] \<longleftrightarrow> p = None \<and> q = None"
  by (auto simp: dlist_def)

lemma dlist_snoc:
  "dlist H p q (as @ [a]) \<longleftrightarrow> q = Some a \<and> a \<notin> set as \<and> distinct as \<and>
     (\<exists>m. chain H None p as m (Some a) \<and> H a = Some \<lparr>e_next = None, e_prev = m\<rparr>)"
  by (auto simp: dlist_def chain_append)

lemma put_tail_ok:
  assumes "dlist H p q ps" and "a \<notin> set ps" and "a \<in> dom H"
  shows "\<exists>H' p'. list_put_tail H p q (Some a) = Inr (H', p', Some a) \<and> dlist H' p' (Some a) (ps @ [a]) \<and> dom H' = dom H"
proof (cases ps rule: rev_cases)
  case Nil
  then show ?thesis using assms
    by (auto simp: list_put_tail_def field_defs dlist_def)
next
  case (snoc bs b)
  obtain m where m: "q = Some b" "b \<notin> set bs" "distinct bs" "chain H None p bs m (Some b)"
    "H b = Some \<lparr>e_next = None, e_prev = m\<rparr>"
    using assms(1) by (auto simp: snoc dlist_snoc)
  obtain e where e: "H a = Some e" using assms(3) by auto
  have ne: "a \<noteq> b" "a \<notin> set bs" using assms(2) by (simp_all add: snoc)
  have "list_put_tail H p q (Some a) = Inr
     (H(a \<mapsto> \<lparr>e_next = None, e_prev = Some b\<rparr>, b \<mapsto> \<lparr>e_next = Some a, e_prev = m\<rparr>), p, Some a)"
    using m ne e by (cases e) (simp add: list_put_tail_def field_defs)
  moreover have "dlist (H(a \<mapsto> \<lparr>e_next = None, e_prev = Some b\<rparr>, b \<mapsto> \<lparr>e_next = Some a, e_prev = m\<rparr>))
      p (Some a) ((bs @ [b]) @ [a])"
    using m ne unfolding dlist_snoc by (auto simp: chain_append)
  ultimately show ?thesis using m(5) assms(3) by (auto simp: snoc)
qed

lemma get_head_ok:
  assumes "dlist H p q (a # ps)"
  shows "\<exists>H' p' q'. list_get_head H p q = Inr (H', p', q', Some a) \<and> dlist H' p' q' ps \<and> dom H' = dom H"
proof (cases ps)
  case Nil
  then show ?thesis using assms
    by (auto simp: list_get_head_def field_defs dlist_def)
next
  case (Cons b bs)
  obtain n where n: "p = Some a" "H a = Some \<lparr>e_next = Some b, e_prev = None\<rparr>"
    "H b = Some \<lparr>e_next = n, e_prev = Some a\<rparr>" "chain H (Some b) n bs q None"
    "a \<noteq> b" "a \<notin> set bs" "b \<notin> set bs" "distinct bs"
    using assms by (auto simp: Cons dlist_def)
  have "list_get_head H p q = Inr
     (H(b \<mapsto> \<lparr>e_next = n, e_prev = None\<rparr>, a \<mapsto> \<lparr>e_next = None, e_prev = None\<rparr>), Some b, q, Some a)"
    using n by (simp add: list_get_head_def field_defs)
  then show ?thesis
    using n by (auto simp: Cons dlist_def)
qed

text \<open>
  Removing an entry: its neighbours, if any, are joined. The two macros differ in the variables for the
  ends of the list only: \<open>LIST_REMOVE\<close> does not touch them, so it must not be used at the ends.
\<close>

definition unlink :: "heap \<Rightarrow> nat \<Rightarrow> nat option \<Rightarrow> nat option \<Rightarrow> heap" where
  "unlink H a pv nx =
     (let H1 = (case nx of None \<Rightarrow> H | Some b \<Rightarrow> H(b \<mapsto> (the (H b))\<lparr>e_prev := pv\<rparr>))
      in (case pv of None \<Rightarrow> H1 | Some b \<Rightarrow> H1(b \<mapsto> (the (H1 b))\<lparr>e_next := nx\<rparr>)))"

lemma chain_to:
  assumes "chain H pv p (as @ [b]) lst nx" and "b \<notin> set as"
  shows "\<exists>e. H b = Some e \<and> e_next e = nx \<and> chain (H(b \<mapsto> e\<lparr>e_next := nx'\<rparr>)) pv p (as @ [b]) lst nx'"
  using assms by (auto simp: chain_append)

lemma unlink_chain:
  assumes "chain H None p (as @ a # bs) q None" and "distinct (as @ a # bs)"
    and "H a = Some \<lparr>e_next = nx, e_prev = pv\<rparr>"
  shows "chain (unlink H a pv nx) None (if as = [] then nx else p) (as @ bs) (if bs = [] then pv else q) None \<and>
    dom (unlink H a pv nx) = dom H \<and> unlink H a pv nx a = H a"
proof -
  obtain m where ch: "chain H None p as pv (Some a)" "chain H (Some a) nx bs q None"
    using assms(1,3) by (auto simp: chain_append)
  have pv: "pv = (if as = [] then None else Some (last as))" using chain_last [OF ch(1)] by simp
  have nx: "nx = (case bs of [] \<Rightarrow> None | b # _ \<Rightarrow> Some b)" using chain_first [OF ch(2)] .
  define H1 where "H1 = (case nx of None \<Rightarrow> H | Some b \<Rightarrow> H(b \<mapsto> (the (H b))\<lparr>e_prev := pv\<rparr>))"
  have H1: "chain H1 None p as pv (Some a)" "chain H1 pv nx bs (if bs = [] then pv else q) None"
    "dom H1 = dom H" "H1 a = H a"
    using ch assms(2) nx by (auto simp: H1_def split: list.splits)
  show ?thesis
  proof (cases as rule: rev_cases)
    case Nil
    then have none: "pv = None" using pv by simp
    have "unlink H a pv nx = H1" unfolding unlink_def H1_def Let_def none by simp
    then show ?thesis using H1 Nil none by auto
  next
    case (snoc cs c)
    obtain e where e: "H1 c = Some e" "chain (H1(c \<mapsto> e\<lparr>e_next := nx\<rparr>)) None p (cs @ [c]) pv nx"
      using chain_to [OF H1(1) [unfolded snoc], of nx] assms(2) snoc by auto
    have some: "pv = Some c" using pv snoc by simp
    have "unlink H a pv nx = (case pv of None \<Rightarrow> H1 | Some b \<Rightarrow> H1(b \<mapsto> (the (H1 b))\<lparr>e_next := nx\<rparr>))"
      unfolding unlink_def Let_def H1_def [symmetric] ..
    then have "unlink H a pv nx = H1(c \<mapsto> e\<lparr>e_next := nx\<rparr>)"
      unfolding some using e(1) by simp
    moreover have "chain (H1(c \<mapsto> e\<lparr>e_next := nx\<rparr>)) pv nx bs (if bs = [] then pv else q) None"
      using H1(2) assms(2) snoc by simp
    ultimately show ?thesis
      using e H1(3,4) assms(2) snoc by (auto simp: chain_append)
  qed
qed

lemma dlist_split:
  assumes "dlist H p q (as @ a # bs)"
  obtains pv nx where "H a = Some \<lparr>e_next = nx, e_prev = pv\<rparr>" "pv = (if as = [] then None else Some (last as))"
    "nx = (case bs of [] \<Rightarrow> None | b # _ \<Rightarrow> Some b)" "set (as @ a # bs) \<subseteq> dom H"
    "p = (if as = [] then Some a else Some (hd as))" "q = (if bs = [] then Some a else Some (last bs))"
    "dlist (unlink H a pv nx) (if as = [] then nx else p) (if bs = [] then pv else q) (as @ bs)"
proof -
  have dom: "chain H pv p ps lst nx \<Longrightarrow> set ps \<subseteq> dom H" for pv p ps lst nx
    by (induction ps arbitrary: pv p) auto
  have ch: "chain H None p (as @ a # bs) q None" "distinct (as @ a # bs)" using assms by (auto simp: dlist_def)
  obtain pv nx where e: "H a = Some \<lparr>e_next = nx, e_prev = pv\<rparr>" "chain H None p as pv (Some a)"
    "chain H (Some a) nx bs q None"
    using ch(1) by (auto simp: chain_append)
  show ?thesis
    by (rule that [OF e(1)])
      (use chain_last [OF e(2)] chain_first [OF e(2)] chain_first [OF e(3)] chain_last [OF e(3)] dom [OF ch(1)]
        unlink_chain [OF ch e(1)] ch(2) in \<open>auto simp: dlist_def split: list.splits\<close>)
qed

lemma remove_ht_ok:
  assumes "dlist H p q (as @ a # bs)"
  shows "\<exists>H' p' q'. list_remove_ht H (Some a) p q = Inr (H', p', q') \<and> dlist H' p' q' (as @ bs) \<and> dom H' = dom H"
proof -
  obtain pv nx where e: "H a = Some \<lparr>e_next = nx, e_prev = pv\<rparr>" "pv = (if as = [] then None else Some (last as))"
    "nx = (case bs of [] \<Rightarrow> None | b # _ \<Rightarrow> Some b)" "set (as @ a # bs) \<subseteq> dom H"
    "p = (if as = [] then Some a else Some (hd as))" "q = (if bs = [] then Some a else Some (last bs))"
    "dlist (unlink H a pv nx) (if as = [] then nx else p) (if bs = [] then pv else q) (as @ bs)"
    by (rule dlist_split [OF assms])
  have d: "distinct (as @ a # bs)" using assms by (simp add: dlist_def)
  have "list_remove_ht H (Some a) p q =
      Inr (unlink H a pv nx, if as = [] then nx else p, if bs = [] then pv else q)"
    using e(1-6) d
    by (cases as rule: rev_cases; cases bs)
      (auto simp: list_remove_ht_def field_defs unlink_def fun_upd_twist)
  moreover have "dom (unlink H a pv nx) = dom H"
    using e(2-4) by (cases as rule: rev_cases; cases bs) (auto simp: unlink_def)
  ultimately show ?thesis using e(7) by blast
qed

lemma list_remove_ok:
  assumes "dlist H p q (as @ a # bs)" and "as \<noteq> []" and "bs \<noteq> []"
  shows "\<exists>H'. list_remove H (Some a) = Inr H' \<and> dlist H' p q (as @ bs)"
proof -
  obtain pv nx where e: "H a = Some \<lparr>e_next = nx, e_prev = pv\<rparr>" "pv = (if as = [] then None else Some (last as))"
    "nx = (case bs of [] \<Rightarrow> None | b # _ \<Rightarrow> Some b)" "set (as @ a # bs) \<subseteq> dom H"
    "dlist (unlink H a pv nx) (if as = [] then nx else p) (if bs = [] then pv else q) (as @ bs)"
    by (rule dlist_split [OF assms(1)])
  have d: "distinct (as @ a # bs)" using assms(1) by (simp add: dlist_def)
  have "list_remove H (Some a) = Inr (unlink H a pv nx)"
    using e(1-4) d assms(2,3)
    by (cases as rule: rev_cases; cases bs) (auto simp: list_remove_def field_defs unlink_def)
  then show ?thesis using e(5) assms(2,3) by auto
qed

text \<open>
  Inserting before an entry that is not the first. (Before the first one the new entry is linked, but
  the variable with the head of the list still holds the old one.)
\<close>

lemma list_insert_before_ok:
  assumes "dlist H p q (as @ a # bs)" and "as \<noteq> []" and "b \<notin> set (as @ a # bs)" and "b \<in> dom H"
  shows "\<exists>H'. list_insert_before H (Some a) (Some b) = Inr H' \<and> dlist H' p q (as @ b # a # bs)"
proof -
  obtain cs c where cs: "as = cs @ [c]" using assms(2) by (cases as rule: rev_cases) auto
  have ch: "chain H None p (as @ a # bs) q None" and d: "distinct (as @ a # bs)"
    using assms(1) by (auto simp: dlist_def)
  obtain m nx where e: "chain H None p cs m (Some c)" "H c = Some \<lparr>e_next = Some a, e_prev = m\<rparr>"
    "H a = Some \<lparr>e_next = nx, e_prev = Some c\<rparr>" "chain H (Some a) nx bs q None"
    using ch by (auto simp: cs chain_append)
  obtain x where x: "H b = Some x" using assms(4) by auto
  define H' where "H' = H(b \<mapsto> \<lparr>e_next = Some a, e_prev = Some c\<rparr>, c \<mapsto> \<lparr>e_next = Some b, e_prev = m\<rparr>,
    a \<mapsto> \<lparr>e_next = nx, e_prev = Some b\<rparr>)"
  have ne: "a \<noteq> b" "a \<noteq> c" "b \<noteq> c" using assms(3) d by (auto simp: cs)
  have "list_insert_before H (Some a) (Some b) = Inr H'"
    using e x ne by (cases x) (simp add: list_insert_before_def field_defs H'_def)
  moreover have "chain H' None p cs m (Some c)" "chain H' (Some a) nx bs q None"
    using e(1,4) assms(3) d by (auto simp: H'_def cs)
  then have "chain H' None p (as @ b # a # bs) q None"
    using ne by (auto simp: cs chain_append H'_def)
  ultimately show ?thesis using d assms(3) by (auto simp: dlist_def)
qed

text \<open>A stack is a chain of \<open>next\<close> pointers; the macros do not use \<open>prev\<close>.\<close>

fun stack_list :: "heap \<Rightarrow> nat option \<Rightarrow> nat list \<Rightarrow> bool" where
  "stack_list H p [] \<longleftrightarrow> p = None"
| "stack_list H p (a # as) \<longleftrightarrow> p = Some a \<and> a \<notin> set as \<and> (\<exists>e. H a = Some e \<and> stack_list H (e_next e) as)"

lemma stack_list_other [simp]: "a \<notin> set ps \<Longrightarrow> stack_list (H(a := x)) p ps = stack_list H p ps"
  by (induction ps arbitrary: p) auto

lemma stack_push_ok:
  assumes "stack_list H p ps" and "a \<notin> set ps" and "a \<in> dom H"
  shows "\<exists>H'. stack_push H p (Some a) = Inr (H', Some a) \<and> stack_list H' (Some a) (a # ps)"
  using assms by (auto simp: stack_push_def field_defs)

lemma stack_pop_ok:
  assumes "stack_list H p ps"
  shows "\<exists>p'. stack_pop H p = Inr (p', case ps of [] \<Rightarrow> None | a # _ \<Rightarrow> Some a) \<and> stack_list H p' (tl ps)"
  using assms by (cases ps) (auto simp: stack_pop_def field_defs)

section \<open>Lists as queues\<close>

datatype q_op = Q_Put nat | Q_Take | Q_Remove nat

text \<open>What the operations mean: the elements taken and the elements left. No element is put in twice.\<close>

fun q_spec :: "nat list \<Rightarrow> q_op list \<Rightarrow> (nat list \<times> nat list) option" where
  "q_spec xs [] = Some ([], xs)"
| "q_spec xs (Q_Put a # ops) = (if a \<in> set xs then None else q_spec (xs @ [a]) ops)"
| "q_spec xs (Q_Take # ops) =
     (case xs of [] \<Rightarrow> None | a # ys \<Rightarrow> map_option (\<lambda>(outs, zs). (a # outs, zs)) (q_spec ys ops))"
| "q_spec xs (Q_Remove a # ops) = (if a \<in> set xs then q_spec (remove1 a xs) ops else None)"

fun q_run :: "(nat \<Rightarrow> 's \<Rightarrow> 's res) \<Rightarrow> (nat \<Rightarrow> 's \<Rightarrow> 's res) \<Rightarrow> ('s \<Rightarrow> (nat \<times> 's) res) \<Rightarrow> q_op list \<Rightarrow> 's
    \<Rightarrow> (nat list \<times> 's) res" where
  "q_run put del get [] s = Inr ([], s)"
| "q_run put del get (Q_Put a # ops) s = R_bind (put a s) (q_run put del get ops)"
| "q_run put del get (Q_Remove a # ops) s = R_bind (del a s) (q_run put del get ops)"
| "q_run put del get (Q_Take # ops) s =
     R_bind (get s) (\<lambda>(a, s1). R_bind (q_run put del get ops s1) (\<lambda>(outs, s2). Inr (a # outs, s2)))"

locale list_queue =
  fixes put del :: "nat \<Rightarrow> 's \<Rightarrow> 's res" and get :: "'s \<Rightarrow> (nat \<times> 's) res"
    and holds :: "'s \<Rightarrow> nat list \<Rightarrow> bool" and entries :: "'s \<Rightarrow> nat set"
  assumes put_ok: "holds s xs \<Longrightarrow> a \<notin> set xs \<Longrightarrow> a \<in> entries s \<Longrightarrow>
      \<exists>s'. put a s = Inr s' \<and> holds s' (xs @ [a]) \<and> entries s' = entries s"
    and del_ok: "holds s (xs @ a # ys) \<Longrightarrow>
      \<exists>s'. del a s = Inr s' \<and> holds s' (xs @ ys) \<and> entries s' = entries s"
    and get_ok: "holds s (a # xs) \<Longrightarrow> \<exists>s'. get s = Inr (a, s') \<and> holds s' xs \<and> entries s' = entries s"
begin

lemma q_run_ok:
  "holds s xs \<Longrightarrow> q_spec xs ops = Some (outs, zs) \<Longrightarrow> (\<And>a. Q_Put a \<in> set ops \<Longrightarrow> a \<in> entries s) \<Longrightarrow>
   \<exists>s'. q_run put del get ops s = Inr (outs, s') \<and> holds s' zs"
proof (induction xs ops arbitrary: s outs rule: q_spec.induct)
  case (2 xs a ops)
  then obtain s' where "put a s = Inr s'" "holds s' (xs @ [a])" "entries s' = entries s"
    using put_ok [of s xs a] by (auto split: if_splits)
  with 2 show ?case by (auto split: if_splits)
next
  case (3 xs ops)
  then obtain a ys outs' where ys: "xs = a # ys" "q_spec ys ops = Some (outs', zs)" "outs = a # outs'"
    by (auto split: list.splits)
  obtain s' where s': "get s = Inr (a, s')" "holds s' ys" "entries s' = entries s"
    using get_ok [of s a ys] 3(2) ys(1) by auto
  with 3(1) [OF ys(1) s'(2) ys(2)] 3(4) ys(3) show ?case by auto
next
  case (4 xs a ops)
  then have "a \<in> set xs" by (simp split: if_splits)
  then obtain us vs where xs: "xs = us @ a # vs" "a \<notin> set us" by (auto dest: split_list_first)
  obtain s' where "del a s = Inr s'" "holds s' (remove1 a xs)" "entries s' = entries s"
    using del_ok [of s us a vs] 4(2) xs by (auto simp: remove1_append)
  with 4 \<open>a \<in> set xs\<close> show ?case by auto
qed simp

end

text \<open>The macros on a heap and the variables \<open>lhead\<close> and \<open>ltail\<close>.\<close>

type_synonym list_vars = "heap \<times> nat option \<times> nat option"

definition put_entry :: "nat \<Rightarrow> list_vars \<Rightarrow> list_vars res" where
  "put_entry a = (\<lambda>(H, p, q). list_put_tail H p q (Some a))"

definition del_entry :: "nat \<Rightarrow> list_vars \<Rightarrow> list_vars res" where
  "del_entry a = (\<lambda>(H, p, q). list_remove_ht H (Some a) p q)"

definition get_entry :: "list_vars \<Rightarrow> (nat \<times> list_vars) res" where
  "get_entry = (\<lambda>(H, p, q). R_bind (list_get_head H p q) (\<lambda>(H1, p1, q1, en).
     R_bind (R_ptr en) (\<lambda>a. Inr (a, H1, p1, q1))))"

interpretation macro_list: list_queue put_entry del_entry get_entry "\<lambda>(H, p, q). dlist H p q" "\<lambda>(H, _). dom H"
proof (unfold_locales, goal_cases)
  case (1 s xs a)
  then show ?case using put_tail_ok [of "fst s" "fst (snd s)" "snd (snd s)" xs a]
    by (auto simp: put_entry_def split: prod.splits)
next
  case (2 s xs a ys)
  then show ?case using remove_ht_ok [of "fst s" "fst (snd s)" "snd (snd s)" xs a ys]
    by (auto simp: del_entry_def split: prod.splits)
next
  case (3 s a xs)
  then show ?case using get_head_ok [of "fst s" "fst (snd s)" "snd (snd s)" a xs]
    by (auto simp: get_entry_def split: prod.splits)
qed

text \<open>
  C39. The list macros implement a queue: starting with both variables null, any sequence of
  \<open>LIST_PUT_TAIL\<close> of entries that are not in the list, \<open>LIST_GET_HEAD\<close> while it is not empty, and
  \<open>LIST_REMOVE_HT\<close> of entries in it runs without following a null pointer and without failing an
  assertion, takes the entries out first in, first out, and leaves a doubly linked list of the rest.
\<close>

theorem list_macros_queue:
  assumes "q_spec [] ops = Some (outs, ps)" and "\<And>a. Q_Put a \<in> set ops \<Longrightarrow> a \<in> dom H"
  shows "\<exists>H' p q. q_run put_entry del_entry get_entry ops (H, None, None) = Inr (outs, H', p, q) \<and> dlist H' p q ps"
  using macro_list.q_run_ok [of "(H, None, None)" "[]" ops outs ps] assms by auto

theorem list_macros_queue_witness:
  "\<exists>H' p q. q_run put_entry del_entry get_entry [Q_Put 3, Q_Put 5, Q_Put 8, Q_Take, Q_Remove 8, Q_Put 3]
     (\<lambda>_. Some \<lparr>e_next = Some 0, e_prev = Some 0\<rparr>, None, None) = Inr ([3], H', p, q) \<and> dlist H' p q [5, 3]"
  by (rule list_macros_queue) (simp_all add: dom_def)

end
