(* ===== verification/Index_Threads.thy ===== *)
theory Index_Threads
  imports Index_Hash
begin

text \<open>
  A bucket of the hash index as memory that several threads share (\<open>IndexHash::index_insert\<close>,
  \<open>index_read\<close>, \<open>get_latch\<close>, \<open>release_latch\<close>, \<open>BucketHeader::insert_item\<close> and \<open>read_item\<close> of
  \<open>Storage/DataFormat/index_hash.cpp\<close>): nodes and items are objects on a heap with \<open>next\<close> pointers,
  inserting threads serialize on the latch, reading threads walk the chain without it (the calls of
  \<open>get_latch\<close> in \<open>index_read\<close> are commented out). A step of a thread touches shared mutable memory at
  most once; memory is sequentially consistent. The theory \<open>Index_Hash\<close>, where an operation is a
  function on lists, is the specification: the history of the operations is a sequential one.
\<close>

section \<open>State\<close>

record bnode =
  bn_key :: u64
  bn_next :: "nat option"
  bn_items :: "nat option"

text \<open>
  Where a thread is. \<open>I_Latch\<close>: in the loop of \<open>get_latch\<close>; \<open>I_Start\<close>: has the latch; \<open>I_Walk\<close>: in the loop
  of \<open>insert_item\<close> with \<open>cur_node\<close> and \<open>prev_node\<close>; \<open>I_Link\<close>: the new node is ready but not linked;
  \<open>I_Push\<close>: \<open>item->next\<close> is set but \<open>cur_node->items\<close> is not; \<open>I_Unlatch\<close>: about to release the latch;
  \<open>I_Failed\<close>: the assertion of \<open>release_latch\<close> has failed; \<open>R_Walk\<close>: in the loop of \<open>read_item\<close>.
\<close>

datatype bphase =
    Out
  | I_Latch u64 nat
  | I_Start u64 nat
  | I_Walk u64 nat "nat option" "nat option"
  | I_Link u64 nat "nat option" nat
  | I_Push u64 nat nat
  | I_Unlatch
  | I_Failed
  | R_Walk u64 nat

text \<open>
  \<open>bs_data\<close> and \<open>bs_inext\<close> are the items: their contents and their \<open>next\<close> pointers, which the code does
  not initialise. \<open>bs_used\<close> (for the specification) are the items passed to an insert so far; every
  caller passes a new one.
\<close>

record bstate =
  bs_first :: "nat option"
  bs_nodes :: "nat \<rightharpoonup> bnode"
  bs_locked :: bool
  bs_data :: "nat \<Rightarrow> itemid_t"
  bs_inext :: "nat \<Rightarrow> nat option"
  bs_used :: "nat set"
  bs_thr :: "nat \<Rightarrow> bphase"

text \<open>What the operations did, at the moment they took effect.\<close>

datatype bevent = Inserted u64 itemid_t | Looked u64 "itemid_t option"

abbreviation set_ph :: "nat \<Rightarrow> bphase \<Rightarrow> bstate \<Rightarrow> bstate" where
  "set_ph t p s \<equiv> s\<lparr>bs_thr := (bs_thr s)(t := p)\<rparr>"

abbreviation put_node :: "nat \<Rightarrow> bnode \<Rightarrow> bstate \<Rightarrow> bstate" where
  "put_node a n s \<equiv> s\<lparr>bs_nodes := (bs_nodes s)(a \<mapsto> n)\<rparr>"

section \<open>Steps\<close>

text \<open>
  \<open>b_insert\<close>, \<open>b_cas\<close>: the call and the successful compare-and-swap. \<open>b_first\<close>, \<open>b_next\<close>: the walk.
  \<open>b_new_head\<close>, \<open>b_new\<close>: no node has the key, a node is allocated (at any free address), initialised and given the
  item and the \<open>next\<close> pointer of \<open>prev_node\<close>, or \<open>first_node\<close>. \<open>b_link_head\<close>, \<open>b_link\<close>: it is linked.
  \<open>b_chain\<close>, \<open>b_push\<close>: the item is pushed on the chain of the node found. \<open>b_release\<close>, \<open>b_fail\<close>: the
  compare-and-swap of \<open>release_latch\<close> and its assertion. \<open>b_read_empty\<close>, \<open>b_read\<close>: \<open>read_item\<close> reads
  \<open>first_node\<close>; \<open>b_read_next\<close>, \<open>b_read_end\<close>, \<open>b_read_item\<close>: its loop and its results.
\<close>

inductive bstep :: "bstate \<Rightarrow> nat \<Rightarrow> bevent list \<Rightarrow> bstate \<Rightarrow> bool" where
  b_insert:
    "bs_thr s t = Out \<Longrightarrow> it \<notin> bs_used s \<Longrightarrow>
     bstep s t [] (set_ph t (I_Latch k it) (s\<lparr>bs_used := insert it (bs_used s)\<rparr>))"
| b_cas:
    "bs_thr s t = I_Latch k it \<Longrightarrow> \<not> bs_locked s \<Longrightarrow>
     bstep s t [] (set_ph t (I_Start k it) (s\<lparr>bs_locked := True\<rparr>))"
| b_first:
    "bs_thr s t = I_Start k it \<Longrightarrow> bstep s t [] (set_ph t (I_Walk k it (bs_first s) None) s)"
| b_next:
    "bs_thr s t = I_Walk k it (Some a) pv \<Longrightarrow> bs_nodes s a = Some n \<Longrightarrow> bn_key n \<noteq> k \<Longrightarrow>
     bstep s t [] (set_ph t (I_Walk k it (bn_next n) (Some a)) s)"
| b_new_head:
    "bs_thr s t = I_Walk k it None None \<Longrightarrow> bs_nodes s b = None \<Longrightarrow>
     bstep s t [] (set_ph t (I_Link k it None b)
       (put_node b \<lparr>bn_key = k, bn_next = bs_first s, bn_items = Some it\<rparr> s))"
| b_new:
    "bs_thr s t = I_Walk k it None (Some p) \<Longrightarrow> bs_nodes s p = Some n \<Longrightarrow> bs_nodes s b = None \<Longrightarrow>
     bstep s t [] (set_ph t (I_Link k it (Some p) b)
       (put_node b \<lparr>bn_key = k, bn_next = bn_next n, bn_items = Some it\<rparr> s))"
| b_link_head:
    "bs_thr s t = I_Link k it None b \<Longrightarrow>
     bstep s t [Inserted k (bs_data s it)] (set_ph t I_Unlatch (s\<lparr>bs_first := Some b\<rparr>))"
| b_link:
    "bs_thr s t = I_Link k it (Some p) b \<Longrightarrow> bs_nodes s p = Some n \<Longrightarrow>
     bstep s t [Inserted k (bs_data s it)] (set_ph t I_Unlatch (put_node p (n\<lparr>bn_next := Some b\<rparr>) s))"
| b_chain:
    "bs_thr s t = I_Walk k it (Some a) pv \<Longrightarrow> bs_nodes s a = Some n \<Longrightarrow> bn_key n = k \<Longrightarrow>
     bstep s t [] (set_ph t (I_Push k it a) (s\<lparr>bs_inext := (bs_inext s)(it := bn_items n)\<rparr>))"
| b_push:
    "bs_thr s t = I_Push k it a \<Longrightarrow> bs_nodes s a = Some n \<Longrightarrow>
     bstep s t [Inserted k (bs_data s it)] (set_ph t I_Unlatch (put_node a (n\<lparr>bn_items := Some it\<rparr>) s))"
| b_release:
    "bs_thr s t = I_Unlatch \<Longrightarrow> bs_locked s \<Longrightarrow> bstep s t [] (set_ph t Out (s\<lparr>bs_locked := False\<rparr>))"
| b_fail:
    "bs_thr s t = I_Unlatch \<Longrightarrow> \<not> bs_locked s \<Longrightarrow> bstep s t [] (set_ph t I_Failed s)"
| b_read_empty:
    "bs_thr s t = Out \<Longrightarrow> bs_first s = None \<Longrightarrow> bstep s t [Looked k None] s"
| b_read:
    "bs_thr s t = Out \<Longrightarrow> bs_first s = Some a \<Longrightarrow> bstep s t [] (set_ph t (R_Walk k a) s)"
| b_read_next:
    "bs_thr s t = R_Walk k a \<Longrightarrow> bs_nodes s a = Some n \<Longrightarrow> bn_key n \<noteq> k \<Longrightarrow> bn_next n = Some b \<Longrightarrow>
     bstep s t [] (set_ph t (R_Walk k b) s)"
| b_read_end:
    "bs_thr s t = R_Walk k a \<Longrightarrow> bs_nodes s a = Some n \<Longrightarrow> bn_key n \<noteq> k \<Longrightarrow> bn_next n = None \<Longrightarrow>
     bstep s t [Looked k None] (set_ph t Out s)"
| b_read_item:
    "bs_thr s t = R_Walk k a \<Longrightarrow> bs_nodes s a = Some n \<Longrightarrow> bn_key n = k \<Longrightarrow>
     bstep s t [Looked k (map_option (bs_data s) (bn_items n))] (set_ph t Out s)"

inductive bruns :: "bstate \<Rightarrow> bevent list \<Rightarrow> bstate \<Rightarrow> bool" where
  bruns_refl: "bruns s [] s"
| bruns_step: "bruns s evs s1 \<Longrightarrow> bstep s1 t es s2 \<Longrightarrow> bruns s (evs @ es) s2"

text \<open>\<open>BucketHeader::init\<close>: no nodes, no thread inside. The memory of the items may hold anything.\<close>

definition b_start :: "(nat \<Rightarrow> itemid_t) \<Rightarrow> (nat \<Rightarrow> nat option) \<Rightarrow> bstate" where
  "b_start d nx = \<lparr>bs_first = None, bs_nodes = Map.empty, bs_locked = False, bs_data = d, bs_inext = nx,
     bs_used = {}, bs_thr = (\<lambda>_. Out)\<rparr>"

section \<open>What the memory stands for\<close>

fun npath :: "(nat \<rightharpoonup> bnode) \<Rightarrow> nat option \<Rightarrow> nat list \<Rightarrow> nat option \<Rightarrow> bool" where
  "npath N p [] q \<longleftrightarrow> p = q"
| "npath N p (a # as) q \<longleftrightarrow> p = Some a \<and> (\<exists>n. N a = Some n \<and> npath N (bn_next n) as q)"

text \<open>The last item of a chain has an indeterminate \<open>next\<close> pointer.\<close>

fun ichain :: "(nat \<Rightarrow> nat option) \<Rightarrow> nat option \<Rightarrow> nat list \<Rightarrow> bool" where
  "ichain nx p [] \<longleftrightarrow> False"
| "ichain nx p [a] \<longleftrightarrow> p = Some a"
| "ichain nx p (a # b # as) \<longleftrightarrow> p = Some a \<and> ichain nx (nx a) (b # as)"

definition key_at :: "bstate \<Rightarrow> nat \<Rightarrow> u64" where
  "key_at s a = bn_key (the (bs_nodes s a))"

text \<open>The list of nodes that the nodes \<open>as\<close> with the item chains \<open>ch\<close> stand for.\<close>

definition nodes_of :: "bstate \<Rightarrow> nat list \<Rightarrow> (nat \<Rightarrow> nat list) \<Rightarrow> BucketNode list" where
  "nodes_of s as ch = map (\<lambda>a. \<lparr>node_key = key_at s a, items = map (bs_data s) (ch a)\<rparr>) as"

definition chains_ok :: "bstate \<Rightarrow> nat list \<Rightarrow> (nat \<Rightarrow> nat list) \<Rightarrow> bool" where
  "chains_ok s as ch \<longleftrightarrow> npath (bs_nodes s) (bs_first s) as None \<and> distinct as \<and>
     (\<forall>a \<in> set as. \<exists>n. bs_nodes s a = Some n \<and> ichain (bs_inext s) (bn_items n) (ch a))"

definition holds_bucket :: "bstate \<Rightarrow> BucketHeader \<Rightarrow> bool" where
  "holds_bucket s b \<longleftrightarrow> (\<exists>as ch. chains_ok s as ch \<and> first_node b = nodes_of s as ch)"

text \<open>The sequential meaning of a history: \<open>None\<close> if a lookup had another result.\<close>

fun b_legal :: "BucketHeader \<Rightarrow> bevent list \<Rightarrow> BucketHeader option" where
  "b_legal b [] = Some b"
| "b_legal b (Inserted k d # es) = b_legal (insert_item b k d) es"
| "b_legal b (Looked k r # es) = (if read_item b k = r then b_legal b es else None)"

lemma b_legal_append: "b_legal b (es @ fs) = Option.bind (b_legal b es) (\<lambda>b. b_legal b fs)"
  by (induction b es rule: b_legal.induct) auto

section \<open>The invariant\<close>

text \<open>The item a thread is still to insert; whether it holds the latch.\<close>

fun owns :: "bphase \<Rightarrow> nat option" where
  "owns (I_Latch k it) = Some it"
| "owns (I_Start k it) = Some it"
| "owns (I_Walk k it cur pv) = Some it"
| "owns (I_Link k it pv b) = Some it"
| "owns (I_Push k it a) = Some it"
| "owns _ = None"

fun crit :: "bphase \<Rightarrow> bool" where
  "crit Out = False"
| "crit (I_Latch k it) = False"
| "crit (R_Walk k a) = False"
| "crit I_Failed = False"
| "crit _ = True"

definition passed :: "bstate \<Rightarrow> u64 \<Rightarrow> nat list \<Rightarrow> bool" where
  "passed s k xs \<longleftrightarrow> (\<forall>x \<in> set xs. key_at s x \<noteq> k)"

definition last_of :: "nat list \<Rightarrow> nat option" where
  "last_of xs = (if xs = [] then None else Some (last xs))"

definition first_of :: "nat list \<Rightarrow> nat option" where
  "first_of xs = (case xs of [] \<Rightarrow> None | a # _ \<Rightarrow> Some a)"

lemma ends_simps [simp]:
  "first_of [] = None" "first_of (a # as) = Some a" "(None = first_of xs) = (xs = [])" "(first_of xs = None) = (xs = [])"
  "last_of [] = None" "last_of (xs @ [a]) = Some a"
  by (auto simp: first_of_def last_of_def split: list.splits)

lemma first_of_Some: "Some a = first_of ys \<longleftrightarrow> (\<exists>zs. ys = a # zs)"
  by (cases ys) auto

lemma last_of_in: "last_of xs = Some a \<Longrightarrow> a \<in> set xs"
  by (auto simp: last_of_def split: if_splits)

text \<open>
  The nodes a thread has walked over do not have the key it looks for, and none is ever put among
  them: new nodes are linked at the end.
\<close>

fun ph_ok :: "bstate \<Rightarrow> nat list \<Rightarrow> bphase \<Rightarrow> bool" where
  "ph_ok s as (I_Walk k it cur pv) \<longleftrightarrow>
     (\<exists>xs ys. as = xs @ ys \<and> passed s k xs \<and> cur = first_of ys \<and> pv = last_of xs)"
| "ph_ok s as (I_Link k it pv b) \<longleftrightarrow> passed s k as \<and> pv = last_of as \<and> b \<notin> set as \<and>
     bs_nodes s b = Some \<lparr>bn_key = k, bn_next = None, bn_items = Some it\<rparr>"
| "ph_ok s as (I_Push k it a) \<longleftrightarrow> (\<exists>xs ys. as = xs @ a # ys \<and> passed s k xs) \<and> key_at s a = k \<and>
     bs_inext s it = bn_items (the (bs_nodes s a))"
| "ph_ok s as (R_Walk k a) \<longleftrightarrow> (\<exists>xs ys. as = xs @ a # ys \<and> passed s k xs)"
| "ph_ok s as I_Failed \<longleftrightarrow> False"
| "ph_ok s as _ \<longleftrightarrow> True"

definition items_ok :: "nat set \<Rightarrow> nat set \<Rightarrow> (nat \<Rightarrow> bphase) \<Rightarrow> bool" where
  "items_ok used I thr \<longleftrightarrow> I \<subseteq> used \<and>
     (\<forall>t it. owns (thr t) = Some it \<longrightarrow> it \<in> used - I) \<and>
     (\<forall>t u it. owns (thr t) = Some it \<longrightarrow> owns (thr u) = Some it \<longrightarrow> t = u)"

definition latch_ok :: "bool \<Rightarrow> (nat \<Rightarrow> bphase) \<Rightarrow> bool" where
  "latch_ok l thr \<longleftrightarrow> (l \<longleftrightarrow> (\<exists>t. crit (thr t))) \<and> (\<forall>t u. crit (thr t) \<longrightarrow> crit (thr u) \<longrightarrow> u = t)"

definition binv :: "bstate \<Rightarrow> nat list \<Rightarrow> (nat \<Rightarrow> nat list) \<Rightarrow> bool" where
  "binv s as ch \<longleftrightarrow> chains_ok s as ch \<and> (\<forall>t. ph_ok s as (bs_thr s t)) \<and> latch_ok (bs_locked s) (bs_thr s) \<and>
     items_ok (bs_used s) (\<Union>a \<in> set as. set (ch a)) (bs_thr s)"

lemma binvD:
  assumes "binv s as ch"
  shows "chains_ok s as ch" "ph_ok s as (bs_thr s t)" "latch_ok (bs_locked s) (bs_thr s)"
    "items_ok (bs_used s) (\<Union>a \<in> set as. set (ch a)) (bs_thr s)"
  using assms by (simp_all add: binv_def)

lemma binv_start: "binv (b_start d nx) [] ch"
  by (simp add: binv_def b_start_def chains_ok_def latch_ok_def items_ok_def)

lemma npath_append: "npath N p (as @ bs) q \<longleftrightarrow> (\<exists>m. npath N p as m \<and> npath N m bs q)"
  by (induction as arbitrary: p) auto

lemma npath_other [simp]: "a \<notin> set as \<Longrightarrow> npath (N(a := x)) p as q = npath N p as q"
  by (induction as arbitrary: p) auto

lemma npath_items: "N a = Some n \<Longrightarrow> npath (N(a \<mapsto> n\<lparr>bn_items := i\<rparr>)) p as q = npath N p as q"
  by (induction as arbitrary: p) auto

lemma npath_first: "npath N p as None \<Longrightarrow> p = first_of as"
  by (cases as) (auto simp: first_of_def)

lemma ichain_other [simp]: "a \<notin> set its \<Longrightarrow> ichain (nx(a := x)) p its = ichain nx p its"
  by (induction nx p its rule: ichain.induct) auto

lemma ichain_Cons: "ichain nx p its \<Longrightarrow> nx it = p \<Longrightarrow> ichain nx (Some it) (it # its)"
  by (cases its) auto

text \<open>Steps of the same shape: how the parts of the invariant move when one thread changes its phase.\<close>

lemma items_ok_phase:
  "items_ok used I thr \<Longrightarrow> owns p = None \<or> owns p = owns (thr t) \<Longrightarrow> items_ok used I (thr(t := p))"
  unfolding items_ok_def by (metis fun_upd_apply option.distinct(1))

lemma items_ok_insert:
  assumes "items_ok used I thr" and "owns (thr t) = Some it" and "owns p = None"
  shows "items_ok used (insert it I) (thr(t := p))"
  using assms unfolding items_ok_def by (auto split: if_splits)

lemma latch_ok_phase:
  "latch_ok l thr \<Longrightarrow> crit p = crit (thr t) \<Longrightarrow> latch_ok l (thr(t := p))"
  by (auto simp: latch_ok_def)

lemma ph_ok_frame:
  assumes "ph_ok s as p" and "\<not> crit p" and "\<And>a. a \<in> set as \<Longrightarrow> key_at s' a = key_at s a"
  shows "ph_ok s' (as @ zs) p"
proof (cases p)
  case (R_Walk k a)
  then obtain xs ys where "as = xs @ a # ys" "passed s k xs" using assms(1) by auto
  then have "as @ zs = xs @ a # (ys @ zs)" "passed s' k xs" using assms(3) by (auto simp: passed_def)
  then show ?thesis unfolding R_Walk ph_ok.simps by blast
qed (use assms in auto)

lemma ph_ok_cong:
  assumes "bs_nodes s' = bs_nodes s" and "bs_inext s' = bs_inext s"
  shows "ph_ok s' as p = ph_ok s as p"
  using assms by (cases p) (auto simp: passed_def key_at_def)

lemma chains_ok_cong:
  assumes "bs_nodes s' = bs_nodes s" and "bs_inext s' = bs_inext s" and "bs_first s' = bs_first s"
  shows "chains_ok s' as ch = chains_ok s as ch"
  using assms by (simp add: chains_ok_def)

lemma chains_first: "chains_ok s as ch \<Longrightarrow> bs_first s = first_of as"
  by (auto simp: chains_ok_def intro: npath_first)

section \<open>Every step keeps the invariant\<close>

text \<open>A step that does not touch the chain; and one that changes the phase of a thread only.\<close>

lemma same_memory_step:
  assumes inv: "binv s as ch" and m: "bs_nodes s' = bs_nodes s" "bs_inext s' = bs_inext s" "bs_first s' = bs_first s"
    and "bs_thr s' = (bs_thr s)(t := p)" and "ph_ok s as p" and "latch_ok (bs_locked s') (bs_thr s')"
    and "items_ok (bs_used s') (\<Union>a \<in> set as. set (ch a)) (bs_thr s')"
  shows "binv s' as ch"
proof -
  have "ph_ok s' as (bs_thr s' u)" for u
    using assms(5,6) binvD(2) [OF inv, of u] by (simp add: ph_ok_cong [OF m(1,2)])
  then show ?thesis
    unfolding binv_def using binvD(1) [OF inv] assms(7,8) by (simp add: chains_ok_cong [OF m])
qed

lemma local_step:
  assumes inv: "binv s as ch" and "ph_ok s as p" and "crit p = crit (bs_thr s t)"
    and "owns p = None \<or> owns p = owns (bs_thr s t)"
  shows "binv (set_ph t p s) as ch"
  by (rule same_memory_step [OF inv, of _ t p])
    (use assms latch_ok_phase [OF binvD(3) [OF inv] assms(3)] items_ok_phase [OF binvD(4) [OF inv] assms(4)] in simp_all)

text \<open>A step by the thread that holds the latch: the other threads are outside or reading.\<close>

lemma crit_step:
  assumes inv: "binv s as ch" and c: "crit (bs_thr s t)" and "crit p"
    and s': "bs_thr s' = (bs_thr s)(t := p)" "bs_locked s' = bs_locked s" "bs_used s' = bs_used s"
    and keys: "\<And>a. a \<in> set as \<Longrightarrow> key_at s' a = key_at s a" and "chains_ok s' (as @ zs) ch'"
    and "ph_ok s' (as @ zs) p" and "items_ok (bs_used s) (\<Union>a \<in> set (as @ zs). set (ch' a)) ((bs_thr s)(t := p))"
  shows "binv s' (as @ zs) ch'"
proof -
  have "ph_ok s' (as @ zs) (bs_thr s' u)" for u
  proof (cases "u = t")
    case False
    then have "\<not> crit (bs_thr s u)" using binvD(3) [OF inv] c by (auto simp: latch_ok_def)
    then show ?thesis using ph_ok_frame [OF binvD(2) [OF inv, of u] _ keys] False s'(1) by simp
  qed (use assms(9) s'(1) in simp)
  then show ?thesis
    unfolding binv_def using assms latch_ok_phase [OF binvD(3) [OF inv], of p t] by simp
qed

lemma key_at_upd [simp]:
  "key_at (s\<lparr>bs_thr := f\<rparr>) a = key_at s a" "key_at (s\<lparr>bs_inext := g\<rparr>) a = key_at s a"
  "key_at (s\<lparr>bs_locked := l\<rparr>) a = key_at s a" "key_at (s\<lparr>bs_used := U\<rparr>) a = key_at s a"
  "key_at (s\<lparr>bs_nodes := (bs_nodes s)(b \<mapsto> n)\<rparr>) a = (if a = b then bn_key n else key_at s a)"
  by (simp_all add: key_at_def)

lemma node_dom: "chains_ok s as ch \<Longrightarrow> a \<in> set as \<Longrightarrow> \<exists>n. bs_nodes s a = Some n \<and> key_at s a = bn_key n"
  by (auto simp: chains_ok_def key_at_def)

text \<open>A new node is prepared; its address is not in use, and its \<open>next\<close> pointer will be null.\<close>

lemma new_step:
  assumes inv: "binv s as ch" and t: "bs_thr s t = I_Walk k it None pv" and b: "bs_nodes s b = None"
    and nx: "nx = (case pv of None \<Rightarrow> bs_first s | Some p \<Rightarrow> bn_next (the (bs_nodes s p)))"
  shows "binv (set_ph t (I_Link k it pv b) (put_node b \<lparr>bn_key = k, bn_next = nx, bn_items = Some it\<rparr> s)) as ch"
    (is "binv ?s as ch")
proof -
  have ch: "npath (bs_nodes s) (bs_first s) as None" "distinct as" using binvD(1) [OF inv] by (simp_all add: chains_ok_def)
  have w: "passed s k as" "pv = last_of as"
    using binvD(2) [OF inv, of t] by (auto simp: t)
  have new: "b \<notin> set as" using node_dom [OF binvD(1) [OF inv]] b by fastforce
  have nx0: "nx = None"
    using ch(1) w(2) nx by (cases as rule: rev_cases) (auto simp: last_of_def npath_append)
  have "chains_ok ?s as ch" using binvD(1) [OF inv] new by (auto simp: chains_ok_def)
  moreover have "ph_ok ?s as (I_Link k it pv b)" using w new nx0 by (auto simp: passed_def)
  moreover have "items_ok (bs_used s) (\<Union>a \<in> set as. set (ch a)) ((bs_thr s)(t := I_Link k it pv b))"
    by (rule items_ok_phase [OF binvD(4) [OF inv]]) (simp add: t)
  ultimately have "binv ?s (as @ []) ch"
    by (intro crit_step [OF inv, where t = t and p = "I_Link k it pv b"]) (use new in \<open>auto simp: t\<close>)
  then show ?thesis by simp
qed

text \<open>Linking the new node at the end is appending to the list.\<close>

lemma insert_node_new: "(\<And>n. n \<in> set ns \<Longrightarrow> node_key n \<noteq> k) \<Longrightarrow> insert_node k d ns = ns @ [\<lparr>node_key = k, items = [d]\<rparr>]"
  by (induction ns) auto

lemma insert_node_old:
  "(\<And>n. n \<in> set ns \<Longrightarrow> node_key n \<noteq> k) \<Longrightarrow> node_key m = k \<Longrightarrow>
   insert_node k d (ns @ m # ms) = ns @ m\<lparr>items := d # items m\<rparr> # ms"
  by (induction ns) auto

lemma link_step:
  assumes inv: "binv s as ch" and t: "bs_thr s t = I_Link k it pv b"
    and s': "s' = set_ph t I_Unlatch (case pv of None \<Rightarrow> s\<lparr>bs_first := Some b\<rparr>
      | Some p \<Rightarrow> put_node p ((the (bs_nodes s p))\<lparr>bn_next := Some b\<rparr>) s)"
  shows "binv s' (as @ [b]) (ch(b := [it]))" "nodes_of s' (as @ [b]) (ch(b := [it])) = insert_node k (bs_data s it) (nodes_of s as ch)"
proof -
  have ch: "npath (bs_nodes s) (bs_first s) as None" "distinct as"
    "\<And>a. a \<in> set as \<Longrightarrow> \<exists>n. bs_nodes s a = Some n \<and> ichain (bs_inext s) (bn_items n) (ch a)"
    using binvD(1) [OF inv] by (simp_all add: chains_ok_def)
  have w: "passed s k as" "pv = last_of as" "b \<notin> set as" "bs_nodes s b = Some \<lparr>bn_key = k, bn_next = None, bn_items = Some it\<rparr>"
    using binvD(2) [OF inv, of t] by (auto simp: t)
  have keys: "key_at s' a = key_at s a" for a
    by (simp add: s' key_at_def split: option.splits)
  have nd: "bs_nodes s' a = (if pv = Some a then Some ((the (bs_nodes s a))\<lparr>bn_next := Some b\<rparr>) else bs_nodes s a)"
    "bs_inext s' = bs_inext s" for a
    by (auto simp: s' split: option.splits)
  have pvb: "pv \<noteq> Some b" using w(2,3) last_of_in by auto
  have path: "npath (bs_nodes s') (bs_first s') (as @ [b]) None"
  proof (cases as rule: rev_cases)
    case Nil
    then show ?thesis using w by (simp add: s' last_of_def)
  next
    case (snoc cs c)
    then show ?thesis using w ch(1,2) by (auto simp: s' last_of_def npath_append)
  qed
  have its: "\<exists>n. bs_nodes s' a = Some n \<and> ichain (bs_inext s') (bn_items n) ((ch(b := [it])) a)" if "a \<in> set (as @ [b])" for a
    using that ch(3) [of a] w(3,4) nd pvb by (cases "a = b") auto
  have "chains_ok s' (as @ [b]) (ch(b := [it]))" unfolding chains_ok_def using path its ch(2) w(3) by simp
  moreover have "(\<Union>a \<in> set (as @ [b]). set ((ch(b := [it])) a)) = insert it (\<Union>a \<in> set as. set (ch a))"
    using w(3) by (auto split: if_splits)
  moreover have "items_ok (bs_used s) (insert it (\<Union>a \<in> set as. set (ch a))) ((bs_thr s)(t := I_Unlatch))"
    by (rule items_ok_insert [OF binvD(4) [OF inv]]) (simp_all add: t)
  ultimately show "binv s' (as @ [b]) (ch(b := [it]))"
    using crit_step [OF inv, where t = t and p = I_Unlatch and s' = s' and zs = "[b]" and ch' = "ch(b := [it])"] keys
    by (simp add: t s' split: option.splits)
  have "bs_data s' = bs_data s" "key_at s b = k" using w(4) by (simp_all add: s' key_at_def split: option.splits)
  moreover have "insert_node k (bs_data s it) (nodes_of s as ch) = nodes_of s as ch @ [\<lparr>node_key = k, items = [bs_data s it]\<rparr>]"
    by (rule insert_node_new) (use w(1) in \<open>auto simp: nodes_of_def passed_def\<close>)
  ultimately show "nodes_of s' (as @ [b]) (ch(b := [it])) = insert_node k (bs_data s it) (nodes_of s as ch)"
    using w(3) by (auto simp: nodes_of_def keys)
qed

lemma chain_step:
  assumes inv: "binv s as ch" and t: "bs_thr s t = I_Walk k it (Some a) pv" and a: "bs_nodes s a = Some n" "bn_key n = k"
  shows "binv (set_ph t (I_Push k it a) (s\<lparr>bs_inext := (bs_inext s)(it := bn_items n)\<rparr>)) as ch" (is "binv ?s as ch")
proof -
  obtain xs ys where w: "as = xs @ ys" "passed s k xs" "Some a = first_of ys"
    using binvD(2) [OF inv, of t] by (auto simp: t)
  then obtain zs where ys: "as = xs @ a # zs" by (cases ys) auto
  have fresh: "it \<notin> set (ch x)" if "x \<in> set as" for x
    using binvD(4) [OF inv] that t unfolding items_ok_def by (metis DiffD2 UN_I owns.simps(3))
  have "chains_ok ?s as ch" using binvD(1) [OF inv] fresh by (auto simp: chains_ok_def)
  moreover have "ph_ok ?s as (I_Push k it a)" using ys w(2) a by (auto simp: passed_def key_at_def)
  moreover have "items_ok (bs_used s) (\<Union>x \<in> set as. set (ch x)) ((bs_thr s)(t := I_Push k it a))"
    by (rule items_ok_phase [OF binvD(4) [OF inv]]) (simp add: t)
  ultimately have "binv ?s (as @ []) ch"
    by (intro crit_step [OF inv, where t = t and p = "I_Push k it a"]) (auto simp: t)
  then show ?thesis by simp
qed

lemma push_step:
  assumes inv: "binv s as ch" and t: "bs_thr s t = I_Push k it a" and a: "bs_nodes s a = Some n"
    and s': "s' = set_ph t I_Unlatch (put_node a (n\<lparr>bn_items := Some it\<rparr>) s)"
  shows "binv s' as (ch(a := it # ch a))"
    "nodes_of s' as (ch(a := it # ch a)) = insert_node k (bs_data s it) (nodes_of s as ch)"
proof -
  have ch: "npath (bs_nodes s) (bs_first s) as None" "distinct as"
    "\<And>x. x \<in> set as \<Longrightarrow> \<exists>n. bs_nodes s x = Some n \<and> ichain (bs_inext s) (bn_items n) (ch x)"
    using binvD(1) [OF inv] by (simp_all add: chains_ok_def)
  obtain xs ys where w: "as = xs @ a # ys" "passed s k xs" "key_at s a = k" "bs_inext s it = bn_items n"
    using binvD(2) [OF inv, of t] a by (auto simp: t)
  have keys: "key_at s' x = key_at s x" for x using a by (simp add: s' key_at_def)
  have old: "ichain (bs_inext s) (bn_items n) (ch a)" using ch(3) [of a] a w(1) by simp
  have "chains_ok s' as (ch(a := it # ch a))"
    unfolding chains_ok_def
    using ch ichain_Cons [OF old w(4)] a by (auto simp: s' npath_items)
  moreover have "(\<Union>x \<in> set as. set ((ch(a := it # ch a)) x)) = insert it (\<Union>x \<in> set as. set (ch x))"
    using w(1) by (auto split: if_splits)
  moreover have "items_ok (bs_used s) (insert it (\<Union>x \<in> set as. set (ch x))) ((bs_thr s)(t := I_Unlatch))"
    by (rule items_ok_insert [OF binvD(4) [OF inv]]) (simp_all add: t)
  ultimately have "binv s' (as @ []) (ch(a := it # ch a))"
    by (intro crit_step [OF inv, where t = t and p = I_Unlatch]) (auto simp: t keys, auto simp: s')
  then show "binv s' as (ch(a := it # ch a))" by simp
  have "insert_node k (bs_data s it) (nodes_of s xs ch @ \<lparr>node_key = k, items = map (bs_data s) (ch a)\<rparr> # nodes_of s ys ch) =
      nodes_of s xs ch @ \<lparr>node_key = k, items = bs_data s it # map (bs_data s) (ch a)\<rparr> # nodes_of s ys ch"
    by (subst insert_node_old) (use w(2) in \<open>auto simp: nodes_of_def passed_def\<close>)
  then show "nodes_of s' as (ch(a := it # ch a)) = insert_node k (bs_data s it) (nodes_of s as ch)"
    using ch(2) w(1,3) by (auto simp: nodes_of_def keys) (auto simp: s')
qed

section \<open>Lookups\<close>

lemma find_node_passed:
  assumes "passed s k xs"
  shows "find_node k (nodes_of s (xs @ ys) ch) = find_node k (nodes_of s ys ch)"
  using assms by (induction xs) (auto simp: nodes_of_def passed_def)

lemma read_absent:
  assumes "passed s k as" and "first_node b = nodes_of s as ch"
  shows "read_item b k = None"
  using find_node_passed [OF assms(1), of "[]" ch] assms(2) by (simp add: read_item_def nodes_of_def)

lemma ichain_head: "ichain nx p its \<Longrightarrow> \<exists>i js. p = Some i \<and> its = i # js"
  by (cases "(nx, p, its)" rule: ichain.cases) auto

lemma read_found:
  assumes "chains_ok s (xs @ a # ys) ch" and "passed s k xs" and "bs_nodes s a = Some n" "bn_key n = k"
    and "first_node b = nodes_of s (xs @ a # ys) ch"
  shows "read_item b k = map_option (bs_data s) (bn_items n)"
proof -
  have "ichain (bs_inext s) (bn_items n) (ch a)" using assms(1,3) by (auto simp: chains_ok_def)
  then obtain i js where "bn_items n = Some i" "ch a = i # js" using ichain_head by blast
  then show ?thesis
    using find_node_passed [OF assms(2), of "a # ys" ch] assms(3-5)
    by (simp add: read_item_def nodes_of_def key_at_def)
qed

lemma next_node:
  assumes "chains_ok s (xs @ a # ys) ch" and "bs_nodes s a = Some n"
  shows "bn_next n = first_of ys"
  using assms npath_first [of "bs_nodes s" "bn_next n" ys] by (auto simp: chains_ok_def npath_append)

section \<open>Simulation\<close>

definition simulated :: "BucketHeader \<Rightarrow> bevent list \<Rightarrow> bstate \<Rightarrow> bool" where
  "simulated b es s \<longleftrightarrow> (\<exists>as ch b'. binv s as ch \<and> b_legal b es = Some b' \<and> first_node b' = nodes_of s as ch)"

lemma sim_quiet:
  assumes "binv s' as ch" and "nodes_of s' as ch = nodes_of s as ch" and "first_node b = nodes_of s as ch"
  shows "simulated b [] s'"
  unfolding simulated_def by (rule exI [of _ "as"], rule exI [of _ "ch"]) (use assms in \<open>simp add: insert_item_def\<close>)

lemma sim_lookup:
  assumes "binv s' as ch" and "nodes_of s' as ch = nodes_of s as ch" and "first_node b = nodes_of s as ch" and "read_item b k = r"
  shows "simulated b [Looked k r] s'"
  unfolding simulated_def by (rule exI [of _ "as"], rule exI [of _ "ch"]) (use assms in \<open>simp add: insert_item_def\<close>)

lemma sim_insert:
  assumes "binv s' as' ch'" and "nodes_of s' as' ch' = insert_node k d (nodes_of s as ch)" and "first_node b = nodes_of s as ch"
  shows "simulated b [Inserted k d] s'"
  unfolding simulated_def by (rule exI [of _ "as'"], rule exI [of _ "ch'"]) (use assms in \<open>simp add: insert_item_def\<close>)

lemma phase_nodes [simp]: "nodes_of (s\<lparr>bs_thr := f\<rparr>) as ch = nodes_of s as ch"
  by (simp add: nodes_of_def)

lemma latch_ok_enter: "latch_ok False thr \<Longrightarrow> crit p \<Longrightarrow> latch_ok True (thr(t := p))"
  by (auto simp: latch_ok_def)

lemma latch_ok_leave: "latch_ok l thr \<Longrightarrow> crit (thr t) \<Longrightarrow> \<not> crit p \<Longrightarrow> latch_ok False (thr(t := p))"
  by (auto simp: latch_ok_def)

lemma items_ok_call: "items_ok used I thr \<Longrightarrow> it \<notin> used \<Longrightarrow> owns p = Some it \<Longrightarrow> items_ok (insert it used) I (thr(t := p))"
  by (auto simp: items_ok_def split: if_splits)

lemma step_sim:
  assumes "bstep s t es s'" and inv: "binv s as ch" and b: "first_node b = nodes_of s as ch"
  shows "simulated b es s'"
  using assms(1)
proof cases
  case (b_insert it k)
  have "binv s' as ch"
    by (rule same_memory_step [OF inv, of _ t "I_Latch k it"])
      (use items_ok_call [OF binvD(4) [OF inv] b_insert(4), of "I_Latch k it" t]
        latch_ok_phase [OF binvD(3) [OF inv], of "I_Latch k it" t] in \<open>simp_all add: b_insert\<close>)
  then show ?thesis unfolding b_insert(1) by (rule sim_quiet [OF _ _ b]) (simp add: b_insert nodes_of_def)
next
  case (b_cas k it)
  have "binv s' as ch"
    by (rule same_memory_step [OF inv, of _ t "I_Start k it"])
      (use items_ok_phase [OF binvD(4) [OF inv], of "I_Start k it" t] latch_ok_enter [of "bs_thr s" "I_Start k it" t]
        binvD(3) [OF inv] in \<open>simp_all add: b_cas\<close>)
  then show ?thesis unfolding b_cas(1) by (rule sim_quiet [OF _ _ b]) (simp add: b_cas nodes_of_def)
next
  case (b_first k it)
  have "bs_first s = first_of as" by (rule chains_first [OF binvD(1) [OF inv]])
  then have "ph_ok s as (I_Walk k it (bs_first s) None)" by (auto simp: passed_def last_of_def intro!: exI [of _ "[]"])
  from local_step [OF inv this, of t] show ?thesis unfolding b_first(1,2) by (intro sim_quiet [OF _ _ b]) (simp_all add: b_first)
next
  case (b_next k it a pv n)
  obtain xs ys where w: "as = xs @ a # ys" "passed s k xs"
    using binvD(2) [OF inv, of t] by (auto simp: b_next first_of_Some)
  then have "as = (xs @ [a]) @ ys" "passed s k (xs @ [a])" "bn_next n = first_of ys" "Some a = last_of (xs @ [a])"
    using next_node [of s xs a ys ch n] binvD(1) [OF inv] b_next by (auto simp: passed_def key_at_def)
  then have "ph_ok s as (I_Walk k it (bn_next n) (Some a))" unfolding ph_ok.simps by blast
  from local_step [OF inv this, of t] show ?thesis unfolding b_next(1,2) by (intro sim_quiet [OF _ _ b]) (simp_all add: b_next)
next
  case (b_new_head k it c)
  from new_step [OF inv b_new_head(3,4) refl] show ?thesis unfolding b_new_head(1,2)
    by (intro sim_quiet [OF _ _ b]) (use node_dom [OF binvD(1) [OF inv]] b_new_head(4) in \<open>fastforce simp: nodes_of_def\<close>)+
next
  case (b_new k it p n c)
  from new_step [OF inv b_new(3,5) refl] b_new(4) show ?thesis unfolding b_new(1,2)
    by (intro sim_quiet [OF _ _ b]) (use node_dom [OF binvD(1) [OF inv]] b_new(5) in \<open>fastforce simp: nodes_of_def\<close>)+
next
  case (b_link_head k it c)
  show ?thesis unfolding b_link_head(1)
    by (rule sim_insert [OF link_step [OF inv b_link_head(3)] b]) (simp_all add: b_link_head)
next
  case (b_link k it p c n)
  show ?thesis unfolding b_link(1)
    by (rule sim_insert [OF link_step [OF inv b_link(3)] b]) (simp_all add: b_link)
next
  case (b_chain k it a pv n)
  from chain_step [OF inv b_chain(3-5)] show ?thesis unfolding b_chain(1,2)
    by (intro sim_quiet [OF _ _ b]) (simp_all add: nodes_of_def)
next
  case (b_push k it a n)
  show ?thesis unfolding b_push(1)
    by (rule sim_insert [OF push_step [OF inv b_push(3,4)] b]) (simp_all add: b_push)
next
  case b_release
  have "binv s' as ch"
    by (rule same_memory_step [OF inv, of _ t Out])
      (use items_ok_phase [OF binvD(4) [OF inv], of Out t] latch_ok_leave [OF binvD(3) [OF inv], of t Out]
        in \<open>simp_all add: b_release\<close>)
  then show ?thesis unfolding b_release(1) by (rule sim_quiet [OF _ _ b]) (simp add: b_release nodes_of_def)
next
  case b_fail
  then have "crit (bs_thr s t)" "\<not> bs_locked s" by simp_all
  then show ?thesis using binvD(3) [OF inv] unfolding latch_ok_def by blast
next
  case (b_read_empty k)
  then have "as = []" using chains_first [OF binvD(1) [OF inv]] by simp
  then show ?thesis unfolding b_read_empty(1,2)
    by (intro sim_lookup [OF inv refl b] read_absent [OF _ b]) (simp add: passed_def)
next
  case (b_read a k)
  have "Some a = first_of as" using b_read(4) chains_first [OF binvD(1) [OF inv]] by simp
  then obtain zs where "as = [] @ a # zs" by (auto simp: first_of_Some)
  moreover have "passed s k []" by (simp add: passed_def)
  ultimately have "ph_ok s as (R_Walk k a)" unfolding ph_ok.simps by blast
  from local_step [OF inv this, of t] show ?thesis unfolding b_read(1,2) by (intro sim_quiet [OF _ _ b]) (simp_all add: b_read)
next
  case (b_read_next k a n c)
  obtain xs ys where w: "as = xs @ a # ys" "passed s k xs" using binvD(2) [OF inv, of t] by (auto simp: b_read_next)
  then obtain zs where "ys = c # zs" using next_node [of s xs a ys ch n] binvD(1) [OF inv] b_read_next by (cases ys) auto
  then have "as = (xs @ [a]) @ c # zs" "passed s k (xs @ [a])" using w b_read_next by (auto simp: passed_def key_at_def)
  then have "ph_ok s as (R_Walk k c)" unfolding ph_ok.simps by blast
  from local_step [OF inv this, of t] show ?thesis unfolding b_read_next(1,2) by (intro sim_quiet [OF _ _ b]) (simp_all add: b_read_next)
next
  case (b_read_end k a n)
  obtain xs ys where w: "as = xs @ a # ys" "passed s k xs" using binvD(2) [OF inv, of t] by (auto simp: b_read_end)
  then have "ys = []" using next_node [of s xs a ys ch n] binvD(1) [OF inv] b_read_end by simp
  then have "passed s k as" using w b_read_end by (auto simp: passed_def key_at_def)
  from local_step [OF inv, of Out t] show ?thesis unfolding b_read_end(1,2)
    by (intro sim_lookup [OF _ _ b read_absent [OF \<open>passed s k as\<close> b]]) (simp_all add: b_read_end)
next
  case (b_read_item k a n)
  obtain xs ys where w: "as = xs @ a # ys" "passed s k xs" using binvD(2) [OF inv, of t] by (auto simp: b_read_item)
  have "read_item b k = map_option (bs_data s) (bn_items n)"
    using read_found [of s xs a ys ch k n b] binvD(1) [OF inv] w b b_read_item by simp
  from local_step [OF inv, of Out t] show ?thesis unfolding b_read_item(1,2)
    by (intro sim_lookup [OF _ _ b \<open>read_item b k = _\<close>]) (simp_all add: b_read_item)
qed

lemma reach_bucket:
  assumes "bruns (b_start d nx) evs s"
  shows "simulated bucket_init evs s"
proof -
  have "simulated bucket_init evs s" if "bruns s0 evs s" "s0 = b_start d nx" for s0
    using that
  proof induction
    case (bruns_refl s)
    then show ?case using binv_start
      by (auto simp: simulated_def bucket_init_def nodes_of_def intro!: exI [of _ "[]"])
  next
    case (bruns_step s evs s1 t es s2)
    then obtain as ch b where 1: "binv s1 as ch" "b_legal bucket_init evs = Some b" "first_node b = nodes_of s1 as ch"
      unfolding simulated_def by blast
    from step_sim [OF bruns_step.hyps(2) 1(1,3)] show ?case
      using 1(2) by (auto simp: simulated_def b_legal_append)
  qed
  then show ?thesis using assms by blast
qed

section \<open>Every operation can finish\<close>

abbreviation own_step :: "nat \<Rightarrow> bstate \<Rightarrow> bstate \<Rightarrow> bool" where
  "own_step t s s' \<equiv> \<exists>es. bstep s t es s'"

text \<open>The thread \<open>t\<close> alone takes its operation to the end; \<open>l\<close> is the latch afterwards.\<close>

definition finishes :: "nat \<Rightarrow> bool \<Rightarrow> bstate \<Rightarrow> bool" where
  "finishes t l s \<longleftrightarrow> (\<exists>s'. (own_step t)\<^sup>*\<^sup>* s s' \<and> bs_thr s' = (bs_thr s)(t := Out) \<and> bs_locked s' = l)"

lemma finishes_step:
  assumes "bstep s t es s1" and "finishes t l s1" and "bs_thr s1 = (bs_thr s)(t := p)"
  shows "finishes t l s"
proof -
  obtain s' where "(own_step t)\<^sup>*\<^sup>* s1 s'" "bs_thr s' = (bs_thr s1)(t := Out)" "bs_locked s' = l"
    using assms(2) by (auto simp: finishes_def)
  moreover have "(own_step t)\<^sup>*\<^sup>* s s'" by (rule converse_rtranclp_into_rtranclp [of "own_step t" s s1 s']) (use assms(1) calculation(1) in blast)+
  ultimately show ?thesis using assms(3) unfolding finishes_def by (intro exI [of _ s']) simp
qed

lemma finishes_end: "bstep s t es s' \<Longrightarrow> bs_thr s' = (bs_thr s)(t := Out) \<Longrightarrow> finishes t (bs_locked s') s"
  unfolding finishes_def by (intro exI [of _ s'] conjI) (auto intro: r_into_rtranclp)

lemma reader_finishes:
  "binv s as ch \<Longrightarrow> bs_thr s t = R_Walk k a \<Longrightarrow> as = xs @ a # ys \<Longrightarrow> passed s k xs \<Longrightarrow>
   finishes t (bs_locked s) s"
proof (induction ys arbitrary: s a xs)
  case (Cons c ys)
  obtain n where n: "bs_nodes s a = Some n" using Cons.prems by (auto simp: binv_def chains_ok_def)
  show ?case
  proof (cases "bn_key n = k")
    case True
    from finishes_end [OF b_read_item [OF Cons.prems(2) n True]] show ?thesis by simp
  next
    case False
    have nx: "bn_next n = Some c" using next_node [of s xs a "c # ys" ch n] binvD(1) [OF Cons.prems(1)] Cons.prems(3) n by simp
    note st = b_read_next [OF Cons.prems(2) n False nx]
    have "passed s k (xs @ [a])"
      using Cons.prems(4) False n by (auto simp: passed_def key_at_def)
    moreover have "as = (xs @ [a]) @ c # ys" using Cons.prems(3) by simp
    ultimately have "ph_ok s as (R_Walk k c)" unfolding ph_ok.simps by blast
    then have "binv (set_ph t (R_Walk k c) s) as ch"
      using Cons.prems(2) by (intro local_step [OF Cons.prems(1)]) simp_all
    then have "finishes t (bs_locked (set_ph t (R_Walk k c) s)) (set_ph t (R_Walk k c) s)"
      by (rule Cons.IH [of _ c "xs @ [a]"]) (use Cons.prems(3) \<open>passed s k (xs @ [a])\<close> in \<open>simp_all add: passed_def\<close>)
    then show ?thesis by (intro finishes_step [OF st]) simp_all
  qed
next
  case Nil
  then obtain n where n: "bs_nodes s a = Some n" by (auto simp: binv_def chains_ok_def)
  show ?case
  proof (cases "bn_key n = k")
    case True
    from finishes_end [OF b_read_item [OF Nil(2) n True]] show ?thesis by simp
  next
    case False
    have nx: "bn_next n = None" using next_node [of s xs a "[]" ch n] binvD(1) [OF Nil(1)] Nil(3) n by simp
    from finishes_end [OF b_read_end [OF Nil(2) n False nx]] show ?thesis by simp
  qed
qed

lemma unlatch_finishes:
  assumes "binv s as ch" and "bs_thr s t = I_Unlatch"
  shows "finishes t False s"
proof -
  have "bs_locked s" using assms binvD(3) [OF assms(1)] unfolding latch_ok_def by (metis crit.simps(9))
  from finishes_end [OF b_release [OF assms(2) this]] show ?thesis by simp
qed

lemma link_finishes:
  assumes inv: "binv s as ch" and t: "bs_thr s t = I_Link k it pv b"
  shows "finishes t False s"
proof (cases pv)
  case None
  note st = b_link_head [OF t [unfolded None]]
  obtain as' ch' where inv': "binv (set_ph t I_Unlatch (s\<lparr>bs_first := Some b\<rparr>)) as' ch'"
    using step_sim [OF st inv, of "\<lparr>first_node = nodes_of s as ch, node_cnt = 0, locked = False\<rparr>"] by (auto simp: simulated_def)
  show ?thesis by (rule finishes_step [OF st unlatch_finishes [OF inv']]) simp_all
next
  case (Some q)
  have "q \<in> set as" using binvD(2) [OF inv, of t] t Some by (auto dest: sym intro: last_of_in)
  then obtain n where n: "bs_nodes s q = Some n" using node_dom [OF binvD(1) [OF inv]] by blast
  note st = b_link [OF t [unfolded Some] n]
  obtain as' ch' where inv': "binv (set_ph t I_Unlatch (put_node q (n\<lparr>bn_next := Some b\<rparr>) s)) as' ch'"
    using step_sim [OF st inv, of "\<lparr>first_node = nodes_of s as ch, node_cnt = 0, locked = False\<rparr>"] by (auto simp: simulated_def)
  show ?thesis by (rule finishes_step [OF st unlatch_finishes [OF inv']]) simp_all
qed

lemma push_finishes:
  assumes inv: "binv s as ch" and t: "bs_thr s t = I_Push k it a"
  shows "finishes t False s"
proof -
  obtain n where n: "bs_nodes s a = Some n"
    using binvD(2) [OF inv, of t] t node_dom [OF binvD(1) [OF inv], of a] by auto
  note st = b_push [OF t n]
  show ?thesis
    by (rule finishes_step [OF st unlatch_finishes [OF push_step(1) [OF inv t n refl]]]) simp_all
qed

lemma walk_finishes:
  "binv s as ch \<Longrightarrow> bs_thr s t = I_Walk k it (first_of ys) (last_of xs) \<Longrightarrow> as = xs @ ys \<Longrightarrow> passed s k xs \<Longrightarrow>
   finite (dom (bs_nodes s)) \<Longrightarrow> finishes t False s"
proof (induction ys arbitrary: s xs)
  case Nil
  obtain b where b: "bs_nodes s b = None" using ex_new_if_finite [OF infinite_UNIV_nat Nil(5)] by (auto simp: domIff)
  show ?case
  proof (cases xs rule: rev_cases)
    case Nil
    then have t: "bs_thr s t = I_Walk k it None None" using Nil.prems(2) by simp
    from new_step [OF Nil.prems(1) t b refl] have
      "binv (set_ph t (I_Link k it None b) (put_node b \<lparr>bn_key = k, bn_next = bs_first s, bn_items = Some it\<rparr> s)) as ch" by simp
    from link_finishes [OF this] show ?thesis by (intro finishes_step [OF b_new_head [OF t b]]) simp_all
  next
    case (snoc zs p)
    then have t: "bs_thr s t = I_Walk k it None (Some p)" using Nil.prems(2) by simp
    obtain n where n: "bs_nodes s p = Some n" using node_dom [OF binvD(1) [OF Nil.prems(1)], of p] Nil.prems(3) snoc by auto
    from new_step [OF Nil.prems(1) t b refl] n have
      "binv (set_ph t (I_Link k it (Some p) b) (put_node b \<lparr>bn_key = k, bn_next = bn_next n, bn_items = Some it\<rparr> s)) as ch" by simp
    from link_finishes [OF this] show ?thesis by (intro finishes_step [OF b_new [OF t n b]]) simp_all
  qed
next
  case (Cons a ys)
  have t: "bs_thr s t = I_Walk k it (Some a) (last_of xs)" using Cons.prems(2) by simp
  obtain n where n: "bs_nodes s a = Some n" using node_dom [OF binvD(1) [OF Cons.prems(1)], of a] Cons.prems(3) by auto
  show ?case
  proof (cases "bn_key n = k")
    case True
    from push_finishes [OF chain_step [OF Cons.prems(1) t n True]] show ?thesis
      by (intro finishes_step [OF b_chain [OF t n True]]) simp_all
  next
    case False
    have nx: "bn_next n = first_of ys"
      using next_node [of s xs a ys ch n] binvD(1) [OF Cons.prems(1)] Cons.prems(3) n by simp
    have pk: "as = (xs @ [a]) @ ys" "passed s k (xs @ [a])" "Some a = last_of (xs @ [a])"
      using Cons.prems(3,4) False n by (auto simp: passed_def key_at_def)
    then have "ph_ok s as (I_Walk k it (bn_next n) (Some a))" unfolding nx ph_ok.simps by blast
    then have "binv (set_ph t (I_Walk k it (bn_next n) (Some a)) s) as ch"
      by (intro local_step [OF Cons.prems(1)]) (simp_all add: t)
    then have "finishes t False (set_ph t (I_Walk k it (bn_next n) (Some a)) s)"
      by (rule Cons.IH [of _ "xs @ [a]"]) (use pk nx Cons.prems(5) in \<open>simp_all add: passed_def\<close>)
    then show ?thesis by (intro finishes_step [OF b_next [OF t n False]]) simp_all
  qed
qed

lemma latched_finishes:
  assumes inv: "binv s as ch" and "crit (bs_thr s t)" and fin: "finite (dom (bs_nodes s))"
  shows "finishes t False s"
proof (cases "bs_thr s t")
  case (I_Start k it)
  have first: "bs_first s = first_of as" by (rule chains_first [OF binvD(1) [OF inv]])
  have pk: "as = [] @ as" "passed s k []" "None = last_of []" by (simp_all add: passed_def)
  then have "ph_ok s as (I_Walk k it (bs_first s) None)" unfolding first ph_ok.simps by blast
  then have "binv (set_ph t (I_Walk k it (bs_first s) None) s) as ch" by (intro local_step [OF inv]) (simp_all add: I_Start)
  then have "finishes t False (set_ph t (I_Walk k it (bs_first s) None) s)"
    by (rule walk_finishes [of _ as ch t k it as "[]"]) (use first fin in \<open>simp_all add: passed_def\<close>)
  then show ?thesis by (intro finishes_step [OF b_first [OF I_Start]]) simp_all
next
  case (I_Walk k it cur pv)
  then obtain xs ys where "as = xs @ ys" "passed s k xs" "cur = first_of ys" "pv = last_of xs"
    using binvD(2) [OF inv, of t] by auto
  then show ?thesis using walk_finishes [OF inv, of t k it ys xs] I_Walk fin by simp
qed (use assms link_finishes push_finishes unlatch_finishes in auto)

lemma finite_nodes:
  assumes "bruns (b_start d nx) evs s"
  shows "finite (dom (bs_nodes s))"
proof -
  have "finite (dom (bs_nodes s))" if "bruns s0 evs s" "finite (dom (bs_nodes s0))" for s0
    using that
  proof induction
    case (bruns_step s evs s1 t es s2)
    from bruns_step.hyps(2) bruns_step.IH [OF bruns_step.prems] show ?case by cases (simp_all del: fun_upd_apply)
  qed
  then show ?thesis using assms by (simp add: b_start_def)
qed

lemma own_steps_reach:
  assumes "(own_step t)\<^sup>*\<^sup>* s s'" and "bruns s0 evs s"
  shows "\<exists>evs'. bruns s0 evs' s'"
  using assms by (induction rule: rtranclp_induct) (blast intro: bruns_step)+

text \<open>A thread that finds the latch free, or is past it, or reads, needs nobody else.\<close>

lemma finishes_alone:
  assumes r: "bruns (b_start d nx) evs s" and free: "\<not> bs_locked s \<or> crit (bs_thr s t) \<or> owns (bs_thr s t) = None"
  shows "\<exists>s'. (own_step t)\<^sup>*\<^sup>* s s' \<and> bs_thr s' t = Out"
proof -
  obtain as ch where inv: "binv s as ch" using reach_bucket [OF r] by (auto simp: simulated_def)
  have fin: "\<exists>s'. (own_step t)\<^sup>*\<^sup>* s s' \<and> bs_thr s' t = Out" if "finishes t l s" for l s
    using that by (auto simp: finishes_def)
  show ?thesis
  proof (cases "bs_thr s t")
    case (I_Latch k it)
    then have "\<not> bs_locked s" using free by simp
    note st = b_cas [OF I_Latch this]
    have r1: "bruns (b_start d nx) (evs @ []) (set_ph t (I_Start k it) (s\<lparr>bs_locked := True\<rparr>))" by (rule bruns_step [OF r st])
    obtain as' ch' where "binv (set_ph t (I_Start k it) (s\<lparr>bs_locked := True\<rparr>)) as' ch'"
      using reach_bucket [OF r1] by (auto simp: simulated_def)
    then have "finishes t False (set_ph t (I_Start k it) (s\<lparr>bs_locked := True\<rparr>))"
      by (rule latched_finishes) (use finite_nodes [OF r] in simp_all)
    then show ?thesis by (intro fin finishes_step [OF st]) simp_all
  next
    case (R_Walk k a)
    then obtain xs ys where "as = xs @ a # ys" "passed s k xs" using binvD(2) [OF inv, of t] by auto
    then have "finishes t (bs_locked s) s" by (rule reader_finishes [OF inv R_Walk])
    then show ?thesis by (rule fin)
  next
    case I_Failed
    then show ?thesis using binvD(2) [OF inv, of t] by simp
  next
    case Out
    then show ?thesis by blast
  qed (use latched_finishes [OF inv _ finite_nodes [OF r], of t] fin in auto)
qed

section \<open>An interleaving\<close>

text \<open>Two threads insert under one key while a third looks it up, before and in the middle of the second insert.\<close>

definition ex_item :: "nat \<Rightarrow> itemid_t" where
  "ex_item i = \<lparr>item_type = DT_row, location = Some i, valid = True\<rparr>"

definition ex_bucket :: "bool \<Rightarrow> bphase \<Rightarrow> bphase \<Rightarrow> bphase \<Rightarrow> bstate" where
  "ex_bucket l p0 p1 p2 = \<lparr>bs_first = Some 100, bs_nodes = [100 \<mapsto> \<lparr>bn_key = 7, bn_next = None, bn_items = Some 0\<rparr>],
     bs_locked = l, bs_data = ex_item, bs_inext = (\<lambda>_. None), bs_used = {0, 1},
     bs_thr = (\<lambda>_. Out)(0 := p0, 1 := p1, 2 := p2)\<rparr>"

lemma run_on: "bruns s evs s1 \<Longrightarrow> bstep s1 t es s2 \<Longrightarrow> s2 = s3 \<Longrightarrow> evs' = evs @ es \<Longrightarrow> bruns s evs' s3"
  using bruns_step by blast

lemma bucket_insert_run:
  "bruns (b_start ex_item (\<lambda>_. None)) [Looked 7 None, Inserted 7 (ex_item 0)] (ex_bucket True I_Unlatch (I_Latch 7 1) Out)"
proof -
  let ?s0 = "b_start ex_item (\<lambda>_. None)"
  have 1: "bruns ?s0 [] (set_ph 0 (I_Latch 7 0) (?s0\<lparr>bs_used := {0}\<rparr>))"
    by (rule run_on [OF bruns_refl b_insert [where t = 0 and k = 7 and it = 0]]) (simp_all add: b_start_def)
  have 2: "bruns ?s0 [] (set_ph 1 (I_Latch 7 1) (set_ph 0 (I_Latch 7 0) (?s0\<lparr>bs_used := {0, 1}\<rparr>)))" (is "bruns _ _ ?s2")
    by (rule run_on [OF 1 b_insert [where t = 1 and k = 7 and it = 1]]) (simp_all add: b_start_def insert_commute)
  have 3: "bruns ?s0 [] (set_ph 0 (I_Start 7 0) (?s2\<lparr>bs_locked := True\<rparr>))"
    by (rule run_on [OF 2 b_cas [where t = 0]]) (simp_all add: b_start_def)
  have 4: "bruns ?s0 [] (set_ph 0 (I_Walk 7 0 None None) (?s2\<lparr>bs_locked := True\<rparr>))"
    by (rule run_on [OF 3 b_first [where t = 0]]) (simp_all add: b_start_def)
  have 5: "bruns ?s0 [] (set_ph 0 (I_Link 7 0 None 100)
      (?s2\<lparr>bs_locked := True, bs_nodes := [100 \<mapsto> \<lparr>bn_key = 7, bn_next = None, bn_items = Some 0\<rparr>]\<rparr>))"
    by (rule run_on [OF 4 b_new_head [where t = 0 and b = 100]]) (simp_all add: b_start_def)
  have 6: "bruns ?s0 [Looked 7 None] (set_ph 0 (I_Link 7 0 None 100)
      (?s2\<lparr>bs_locked := True, bs_nodes := [100 \<mapsto> \<lparr>bn_key = 7, bn_next = None, bn_items = Some 0\<rparr>]\<rparr>))"
    by (rule run_on [OF 5 b_read_empty [where t = 2 and k = 7]]) (simp_all add: b_start_def)
  show ?thesis
    by (rule run_on [OF 6 b_link_head [where t = 0]]) (auto simp: b_start_def ex_bucket_def fun_eq_iff)
qed

lemma bucket_race: "bruns (b_start ex_item (\<lambda>_. None)) [Looked 7 None, Inserted 7 (ex_item 0)]
    (ex_bucket True Out (I_Start 7 1) (R_Walk 7 100))"
proof -
  have 1: "bruns (b_start ex_item (\<lambda>_. None)) [Looked 7 None, Inserted 7 (ex_item 0)]
      (ex_bucket True I_Unlatch (I_Latch 7 1) (R_Walk 7 100))"
    by (rule run_on [OF bucket_insert_run b_read [where t = 2 and k = 7]]) (auto simp: ex_bucket_def fun_eq_iff)
  have 2: "bruns (b_start ex_item (\<lambda>_. None)) [Looked 7 None, Inserted 7 (ex_item 0)]
      (ex_bucket False Out (I_Latch 7 1) (R_Walk 7 100))"
    by (rule run_on [OF 1 b_release [where t = 0]]) (auto simp: ex_bucket_def fun_eq_iff)
  show ?thesis
    by (rule run_on [OF 2 b_cas [where t = 1]]) (auto simp: ex_bucket_def fun_eq_iff)
qed

section \<open>Properties\<close>

text \<open>
  C20. The bucket of the index is linearizable: in any interleaving of the steps of inserting and reading
  threads, the operations take effect one at a time, each between its call and its return, as the
  sequential functions \<open>insert_item\<close> and \<open>read_item\<close> say; in particular a lookup without the latch
  returns a value the chain really had, no insert is lost, and at every moment the nodes and items on
  the heap represent exactly the bucket that results from the inserts so far.
\<close>

theorem bucket_linearizable:
  assumes "bruns (b_start d nx) evs s"
  shows "\<exists>b. b_legal bucket_init evs = Some b \<and> holds_bucket s b"
  using reach_bucket [OF assms] by (auto simp: simulated_def holds_bucket_def binv_def)

theorem bucket_linearizable_witness:
  "\<exists>b. b_legal bucket_init [Looked 7 None, Inserted 7 (ex_item 0)] = Some b \<and>
     holds_bucket (ex_bucket True Out (I_Start 7 1) (R_Walk 7 100)) b"
  by (rule bucket_linearizable [OF bucket_race])

text \<open>
  C21. The latch of the bucket excludes, its assertion holds, and nobody is stuck: in every reachable state
  at most one thread is inside the latched section and the latch is set exactly if there is one; and
  every thread can finish its operation, a reader or the holder of the latch by its own steps alone, a
  waiting thread after the own steps of the holder.
\<close>

theorem bucket_ops_finish:
  assumes "bruns (b_start d nx) evs s"
  shows "(bs_locked s \<longleftrightarrow> (\<exists>t. crit (bs_thr s t))) \<and> (\<forall>t u. crit (bs_thr s t) \<and> crit (bs_thr s u) \<longrightarrow> t = u) \<and>
    bs_thr s t \<noteq> I_Failed \<and>
    (\<exists>u s1 s2. (own_step u)\<^sup>*\<^sup>* s s1 \<and> (own_step t)\<^sup>*\<^sup>* s1 s2 \<and> bs_thr s2 t = Out \<and>
       (u \<noteq> t \<longrightarrow> crit (bs_thr s u) \<and> \<not> crit (bs_thr s t)))"
proof -
  obtain as ch where inv: "binv s as ch" using reach_bucket [OF assms] by (auto simp: simulated_def)
  have latch: "bs_locked s \<longleftrightarrow> (\<exists>t. crit (bs_thr s t))" "\<forall>t u. crit (bs_thr s t) \<and> crit (bs_thr s u) \<longrightarrow> t = u"
    using binvD(3) [OF inv] unfolding latch_ok_def by blast+
  have "bs_thr s t \<noteq> I_Failed" using binvD(2) [OF inv, of t] by auto
  moreover have "\<exists>u s1 s2. (own_step u)\<^sup>*\<^sup>* s s1 \<and> (own_step t)\<^sup>*\<^sup>* s1 s2 \<and> bs_thr s2 t = Out \<and>
      (u \<noteq> t \<longrightarrow> crit (bs_thr s u) \<and> \<not> crit (bs_thr s t))"
  proof (cases "\<not> bs_locked s \<or> crit (bs_thr s t) \<or> owns (bs_thr s t) = None")
    case True
    then show ?thesis using finishes_alone [OF assms] by blast
  next
    case False
    then obtain u where u: "crit (bs_thr s u)" using latch(1) by blast
    then obtain s1 where s1: "(own_step u)\<^sup>*\<^sup>* s s1" "bs_thr s1 = (bs_thr s)(u := Out)" "bs_locked s1 = False"
      using latched_finishes [OF inv _ finite_nodes [OF assms]] by (auto simp: finishes_def)
    obtain evs1 where r1: "bruns (b_start d nx) evs1 s1" using own_steps_reach [OF s1(1) assms] by blast
    obtain s2 where "(own_step t)\<^sup>*\<^sup>* s1 s2" "bs_thr s2 t = Out" using finishes_alone [OF r1, of t] s1(3) by blast
    then show ?thesis using s1(1) u False by blast
  qed
  ultimately show ?thesis using latch by blast
qed

theorem bucket_ops_finish_witness:
  "\<exists>u s1 s2. (own_step u)\<^sup>*\<^sup>* (ex_bucket True Out (I_Start 7 1) (R_Walk 7 100)) s1 \<and> (own_step 2)\<^sup>*\<^sup>* s1 s2 \<and> bs_thr s2 2 = Out"
  using bucket_ops_finish [OF bucket_race, of 2] by blast

end
