(* ===== verification/Program.thy ===== *)
theory Program
  imports Network
begin

text \<open>
  The whole server: \<open>init_engine\<close> on the repository's schema file, then the connections. The theorems
  about the parts are composed into one about what the clients see from the start of the program on.
\<close>

text \<open>The server as \<open>main\<close> leaves it once the engine has started: nobody is connected.\<close>

definition serving :: "engine \<Rightarrow> net" where
  "serving e = \<lparr>n_eng = e, n_conn = Map.empty\<rparr>"

lemma wf_serving:
  assumes "wf_sys (start_sys e)"
  shows "wf_net (serving e)"
proof -
  have "wf_sys (net_sys (serving e)) = wf_sys (start_sys e)"
    using sys_cong [of "net_sys (serving e)" "start_sys e"] by (simp add: serving_def)
  then show ?thesis using assms by (simp add: wf_net_def serving_def)
qed

text \<open>
  The server from start to finish, line by line: for every data file, every hash function and every interleaving of
  lines from any number of connections (\<open>PUT\<close> lines naming keys that exist, at most \<open>MAX_ROW_PER_TXN\<close>
  reads and writes in a transaction, room on the stack behind the temporaries of \<open>init_table\<close>), the engine starts, every line is answered without a fault as by
  the abstract server, and the transactions whose commit was acknowledged, executed one after the
  other on the ten initial rows overwritten by the records of the file, return what the clients were
  told and end in the contents of the database.
\<close>

lemma server_lines_serializable:
  assumes "updates_only h (loaded_db h data_file) (w_calls Map.empty es)"
    and "calls_bounded (\<lambda>_. 0) (w_calls Map.empty es)"
    and "Suc (record_count data_file) + length (w_calls Map.empty es) < 2 ^ 64" and "1022 \<le> stack_room m"
  shows "\<exists>e outs evs n. init_engine h m (Some data_schema_txt) data_file = Inr (True, record_count data_file, e) \<and>
    net_run h (serving e) es = Inr (outs, n) \<and> w_run h (abs_net (serving e)) es = (outs, evs, abs_net n) \<and>
    serial_run h (committed_ops evs) (content (loaded_db h data_file)) = Some (content (db_view (st (n_eng n))))"
proof -
  obtain e where e: "init_engine h m (Some data_schema_txt) data_file = Inr (True, record_count data_file, e)"
    "wf_sys (start_sys e)" "db_view (st e) = loaded_db h data_file"
    "unat (timestamp (st e)) = Suc (record_count data_file)"
    using engine_started [of data_file m h] assms(3,4) by auto
  have n: "n_eng (serving e) = e" "n_conn (serving e) = Map.empty" by (simp_all add: serving_def)
  show ?thesis
    using net_serializable [OF wf_serving [OF e(2)] n(2), of h es] assms e by (auto simp: n)
qed

end
