(* ===== verification/Byte_Server.thy ===== *)
theory Byte_Server
  imports Program
begin

text \<open>
  The server at the granularity of the bytes on its sockets: the threads of the connections read one
  byte at a time (\<open>read_line\<close> in \<open>Server/server.cpp\<close>), so the bytes of different connections
  interleave in any order. \<open>byte_step\<close> is one iteration of the loop of \<open>read_line\<close>, followed by the
  processing of the line when it is complete. A connection is identified by its position among those
  accepted (descriptors are reused, connections are not).
\<close>

section \<open>One byte\<close>

text \<open>The three ways an iteration of \<open>read_line\<close> goes on.\<close>

datatype line_state = Reading string | Line_Read string | Read_Failed

fun recv_iter :: "recv_event \<Rightarrow> string \<Rightarrow> line_state" where
  "recv_iter Peer_Closed out = Read_Failed"
| "recv_iter Recv_EINTR out = Reading out"
| "recv_iter Recv_Error out = Read_Failed"
| "recv_iter (Recv c) out =
     (if c = CHR 0x0A then Line_Read out
      else let out1 = (if c \<noteq> CHR 0x0D then out @ [c] else out)
           in if length out1 > MAX_LINE then Read_Failed else Reading out1)"

lemma read_line_iter:
  "read_line (e # es) out =
     (case recv_iter e out of
        Reading out1 \<Rightarrow> read_line es out1
      | Line_Read line \<Rightarrow> Some (True, line, es)
      | Read_Failed \<Rightarrow> Some (False, [], es))"
  by (cases e) (auto simp: Let_def)

section \<open>All connections\<close>

text \<open>\<open>Accept c\<close>: the connection is accepted and its thread starts. \<open>Recvd c e\<close>: a \<open>recv\<close> of its thread returns.\<close>

datatype sock_event = Accept nat | Recvd nat recv_event

text \<open>The server, and what each thread has collected in the local variable \<open>out\<close> of \<open>read_line\<close>.\<close>

record bnet =
  b_net :: net
  b_out :: "nat \<Rightarrow> string"

fun byte_step :: "(string \<Rightarrow> u64) \<Rightarrow> bnet \<Rightarrow> sock_event \<Rightarrow> ((nat \<times> string) list \<times> bnet) res" where
  "byte_step h b (Accept c) =
     R_bind (net_step h (b_net b) (Connect c)) (\<lambda>(outs, n1).
       Inr (outs, \<lparr>b_net = n1, b_out = (b_out b)(c := [])\<rparr>))"
| "byte_step h b (Recvd c e) =
     (if n_conn (b_net b) c = None then Inr ([], b)
      else case recv_iter e (b_out b c) of
        Reading out \<Rightarrow> Inr ([], b\<lparr>b_out := (b_out b)(c := out)\<rparr>)
      | Line_Read line \<Rightarrow> R_bind (net_step h (b_net b) (Line c line)) (\<lambda>(outs, n1).
          Inr (outs, \<lparr>b_net = n1, b_out = (b_out b)(c := [])\<rparr>))
      | Read_Failed \<Rightarrow> R_bind (net_step h (b_net b) (Lost c)) (\<lambda>(outs, n1).
          Inr (outs, \<lparr>b_net = n1, b_out = b_out b\<rparr>)))"

fun byte_run :: "(string \<Rightarrow> u64) \<Rightarrow> bnet \<Rightarrow> sock_event list \<Rightarrow> ((nat \<times> string) list \<times> bnet) res" where
  "byte_run h b [] = Inr ([], b)"
| "byte_run h b (e # es) =
     R_bind (byte_step h b e) (\<lambda>(outs, b1).
     R_bind (byte_run h b1 es) (\<lambda>(outs', b2). Inr (outs @ outs', b2)))"

section \<open>The lines in the bytes\<close>

text \<open>
  The specification: the lines are a function of the bytes alone. \<open>bs c\<close> is what the connection has sent
  of its next line, \<open>None\<close> before it is accepted and after a read has failed.
\<close>

fun assemble :: "(nat \<Rightarrow> string option) \<Rightarrow> sock_event list \<Rightarrow> net_event list" where
  "assemble bs [] = []"
| "assemble bs (Accept c # es) = Connect c # assemble (bs(c \<mapsto> [])) es"
| "assemble bs (Recvd c e # es) =
     (case bs c of
        None \<Rightarrow> assemble bs es
      | Some out \<Rightarrow>
          (case recv_iter e out of
             Reading out1 \<Rightarrow> assemble (bs(c \<mapsto> out1)) es
           | Line_Read line \<Rightarrow> Line c line # assemble (bs(c \<mapsto> [])) es
           | Read_Failed \<Rightarrow> Lost c # assemble (bs(c := None)) es))"

fun accepts :: "sock_event list \<Rightarrow> nat list" where
  "accepts [] = []"
| "accepts (Accept c # es) = c # accepts es"
| "accepts (Recvd c e # es) = accepts es"

text \<open>What the socket of a connection delivers, from the moment it is accepted.\<close>

fun recvs :: "nat \<Rightarrow> sock_event list \<Rightarrow> recv_event list" where
  "recvs c [] = []"
| "recvs c (Accept d # es) = recvs c es"
| "recvs c (Recvd d e # es) = (if d = c then e # recvs c es else recvs c es)"

definition delivered :: "nat \<Rightarrow> sock_event list \<Rightarrow> recv_event list" where
  "delivered c es = recvs c (dropWhile (\<lambda>e. e \<noteq> Accept c) es)"

fun about :: "net_event \<Rightarrow> nat" where
  "about (Connect c) = c"
| "about (Line c line) = c"
| "about (Lost c) = c"

section \<open>The lines of one connection\<close>

text \<open>The lines of a byte stream of which \<open>out\<close> has already been read.\<close>

definition lines_from :: "nat \<Rightarrow> string \<Rightarrow> recv_event list \<Rightarrow> net_event list" where
  "lines_from c out rs =
     (case read_line rs out of
        None \<Rightarrow> []
      | Some (ok, line, rs1) \<Rightarrow> if ok then Line c line # client_events c rs1 else [Lost c])"

lemma lines_from_Nil [simp]: "lines_from c out [] = []"
  by (simp add: lines_from_def)

lemma client_lines: "client_events c rs = lines_from c [] rs"
  by (simp add: client_events.simps [of c rs] lines_from_def)

lemma lines_from_Cons:
  "lines_from c out (e # rs) =
     (case recv_iter e out of
        Reading out1 \<Rightarrow> lines_from c out1 rs
      | Line_Read line \<Rightarrow> Line c line # lines_from c [] rs
      | Read_Failed \<Rightarrow> [Lost c])"
  unfolding lines_from_def [of c out "e # rs"] read_line_iter
  by (auto simp: lines_from_def client_lines [unfolded lines_from_def] split: line_state.splits)

lemma assemble_silent:
  assumes "bs c = None" and "c \<notin> set (accepts es)"
  shows "filter (\<lambda>e. about e = c) (assemble bs es) = []"
  using assms
  by (induction bs es rule: assemble.induct) (auto split: option.splits line_state.splits)

lemma assemble_connected:
  assumes "bs c = Some out" and "c \<notin> set (accepts es)"
  shows "filter (\<lambda>e. about e = c) (assemble bs es) = lines_from c out (recvs c es)"
  using assms
  by (induction bs es arbitrary: out rule: assemble.induct)
    (auto simp: lines_from_Cons assemble_silent split: option.splits line_state.splits)

lemma assemble_connection:
  assumes "bs c = None" and "distinct (accepts es)" and "c \<in> set (accepts es)"
  shows "filter (\<lambda>e. about e = c) (assemble bs es) = Connect c # client_events c (delivered c es)"
  using assms
  by (induction bs es rule: assemble.induct)
    (auto simp: delivered_def client_lines assemble_connected split: option.splits line_state.splits)

section \<open>Bytes and lines\<close>

lemma net_step_conn:
  assumes "net_step h n ev = Inr (outs, n1)"
  shows "d \<noteq> about ev \<Longrightarrow> n_conn n1 d = n_conn n d"
    "n_conn n (about ev) = None \<Longrightarrow> ev \<noteq> Connect (about ev) \<Longrightarrow> outs = [] \<and> n1 = n"
    "ev = Lost c \<Longrightarrow> n_conn n1 c = None"
  using assms by (cases ev; force simp: res_simps split: if_splits option.splits)+

text \<open>The buffers of the threads that are running are those of the specification.\<close>

definition buffers_ok :: "bnet \<Rightarrow> (nat \<Rightarrow> string option) \<Rightarrow> sock_event list \<Rightarrow> bool" where
  "buffers_ok b bs es \<longleftrightarrow>
     distinct (accepts es) \<and> (\<forall>c. n_conn (b_net b) c \<noteq> None \<longrightarrow> bs c = Some (b_out b c) \<and> c \<notin> set (accepts es))"

definition forget_buffers :: "((nat \<times> string) list \<times> bnet) res \<Rightarrow> ((nat \<times> string) list \<times> net) res" where
  "forget_buffers r = R_bind r (\<lambda>(outs, b). Inr (outs, b_net b))"

lemma forget_run:
  "forget_buffers (byte_run h b (e # es)) =
     R_bind (byte_step h b e) (\<lambda>(outs, b1). R_bind (forget_buffers (byte_run h b1 es)) (\<lambda>(outs', n2). Inr (outs @ outs', n2)))"
  by (cases "byte_step h b e") (auto simp: forget_buffers_def R_bind_assoc split_def)

declare byte_run.simps(2) [simp del]

lemma R_bind_eta: "R_bind m (\<lambda>(x, y). Inr (x, y)) = m" "R_bind m Inr = m"
  by (cases m; auto)+

lemma run_after_net_step:
  assumes "\<And>outs n1. net_step h (b_net b) ev = Inr (outs, n1) \<Longrightarrow>
      forget_buffers (byte_run h \<lparr>b_net = n1, b_out = bo\<rparr> es) = net_run h n1 les"
  shows "R_bind (R_bind (net_step h (b_net b) ev) (\<lambda>(outs, n1). Inr (outs, \<lparr>b_net = n1, b_out = bo\<rparr>)))
      (\<lambda>(outs, b1). R_bind (forget_buffers (byte_run h b1 es)) (\<lambda>(outs', n2). Inr (outs @ outs', n2))) =
    net_run h (b_net b) (ev # les)"
  using assms by (cases "net_step h (b_net b) ev") auto

lemma byte_run_lines:
  assumes "buffers_ok b bs es"
  shows "forget_buffers (byte_run h b es) = net_run h (b_net b) (assemble bs es)"
  using assms
proof (induction es arbitrary: b bs)
  case Nil
  show ?case by (simp add: forget_buffers_def)
next
  case (Cons e es)
  have step: "R_bind (R_bind (net_step h (b_net b) ev)
        (\<lambda>(outs, n1). Inr (outs, \<lparr>b_net = n1, b_out = (b_out b)(about ev := out)\<rparr>)))
      (\<lambda>(outs, b1). R_bind (forget_buffers (byte_run h b1 es)) (\<lambda>(outs', n2). Inr (outs @ outs', n2))) =
      net_run h (b_net b) (ev # assemble (bs(about ev := x)) es)"
    if new: "x = Some out \<or> ev = Lost (about ev)" and acc: "about ev \<notin> set (accepts es)" for ev out x
  proof (rule run_after_net_step)
    fix outs n1 assume s: "net_step h (b_net b) ev = Inr (outs, n1)"
    have "x = Some out \<or> n_conn n1 (about ev) = None" 
      using new by (rule disj_forward) (assumption | erule net_step_conn(3) [OF s])+
    moreover have "bs d = Some (b_out b d) \<and> d \<notin> set (accepts es)" if "d \<noteq> about ev" "n_conn n1 d \<noteq> None" for d
    proof -
      have "n_conn (b_net b) d \<noteq> None" using net_step_conn(1) [OF s that(1)] that(2) by metis
      then have "bs d = Some (b_out b d) \<and> d \<notin> set (accepts (e # es))"
        using Cons.prems unfolding buffers_ok_def by blast
      then show ?thesis by (cases e) auto
    qed
    moreover have "distinct (accepts es)" using Cons.prems by (cases e) (simp_all add: buffers_ok_def)
    ultimately have "buffers_ok \<lparr>b_net = n1, b_out = (b_out b)(about ev := out)\<rparr> (bs(about ev := x)) es"
      using acc by (auto simp: buffers_ok_def)
    from Cons.IH [OF this] show "forget_buffers (byte_run h \<lparr>b_net = n1, b_out = (b_out b)(about ev := out)\<rparr> es) =
      net_run h n1 (assemble (bs(about ev := x)) es)" by (simp only: bnet.simps)
  qed
  show ?case
  proof (cases e)
    case (Accept c)
    then have "c \<notin> set (accepts es)" using Cons.prems by (simp add: buffers_ok_def)
    then show ?thesis
      using Accept step [of "Some []" "[]" "Connect c"] by (simp add: forget_run del: net_step.simps net_run.simps)
  next
    case (Recvd c r)
    have ok: "buffers_ok b bs es" using Cons.prems Recvd by (simp add: buffers_ok_def)
    show ?thesis
    proof (cases "n_conn (b_net b) c")
      case None
      have "buffers_ok b (bs(c := x)) es" for x using ok None by (simp add: buffers_ok_def)
      then have "forget_buffers (byte_run h b es) = net_run h (b_net b) (assemble (bs(c := x)) es)" for x
        by (rule Cons.IH)
      then show ?thesis
        using Cons.IH [OF ok] None Recvd by (simp add: forget_run R_bind_eta split: option.splits line_state.splits)
    next
      case (Some ss)
      then have c: "bs c = Some (b_out b c)" "c \<notin> set (accepts es)" using ok by (simp_all add: buffers_ok_def)
      show ?thesis
      proof (cases "recv_iter r (b_out b c)")
        case (Reading out)
        have "buffers_ok (b\<lparr>b_out := (b_out b)(c := out)\<rparr>) (bs(c \<mapsto> out)) es" using ok by (simp add: buffers_ok_def)
        from Cons.IH [OF this] show ?thesis using Reading Some Recvd c by (simp add: forget_run R_bind_eta fun_upd_def)
      next
        case (Line_Read line)
        then show ?thesis
          using Some Recvd c step [of "Some []" "[]" "Line c line"]
          by (simp add: forget_run del: net_step.simps net_run.simps)
      next
        case Read_Failed
        then show ?thesis
          using Some Recvd c step [of None "b_out b c" "Lost c"]
          by (simp add: forget_run del: net_step.simps net_run.simps)
      qed
    qed
  qed
qed

section \<open>Properties\<close>

text \<open>The server as \<open>main\<close> leaves it once the engine has started.\<close>

definition listening :: "engine \<Rightarrow> bnet" where
  "listening e = \<lparr>b_net = serving e, b_out = (\<lambda>c. [])\<rparr>"

lemma listening_ok: "distinct (accepts es) \<Longrightarrow> buffers_ok (listening e) Map.empty es"
  by (simp add: buffers_ok_def listening_def serving_def)

text \<open>
  C14. Bytes and lines: however the bytes of the connections interleave, and whatever faults happen, the
  server that reads them one at a time is the server that processes whole lines in the order in
  which they become complete; of each connection these are exactly the lines that \<open>read_line\<close>, called
  again and again, reads from its socket; and running \<open>handle_client\<close> on the bytes of one socket is
  processing its lines one by one.
\<close>

theorem bytes_are_lines:
  assumes "distinct (accepts es)"
  shows "forget_buffers (byte_run h (listening e) es) = net_run h (serving e) (assemble Map.empty es) \<and>
    (\<forall>c \<in> set (accepts es).
      filter (\<lambda>ev. about ev = c) (assemble Map.empty es) = Connect c # client_events c (delivered c es)) \<and>
    net_run h \<lparr>n_eng = e, n_conn = f(c := None)\<rparr> (Connect c # client_events c rs) =
      R_bind (handle_client (engine_ops h) handle_init e rs) (\<lambda>(replies, ended, e', ss').
        Inr (map (Pair c) replies, \<lparr>n_eng = e', n_conn = f(c := if ended then None else Some ss')\<rparr>))"
  using byte_run_lines [OF listening_ok [OF assms], of h e] assemble_connection [OF _ assms, of Map.empty]
    handle_client_net [of h e f c rs]
  by (simp add: listening_def)

text \<open>
  C1. The server from start to finish, for clients that keep to these bounds: their \<open>PUT\<close> lines name keys
  whose rows exist, no transaction makes more than \<open>MAX_ROW_PER_TXN\<close> reads and writes, the clock does
  not wrap (records and calls together stay below \<open>2 ^ 64\<close>), and connections have different numbers.
  Then, with room on the stack behind the temporaries of \<open>init_table\<close>, for every data file, every hash
  function and every interleaving of their bytes, the engine starts, every line is answered without a
  fault as by the abstract server, and the operations that succeeded in the transactions whose commit
  was acknowledged, executed one transaction after the other on the ten initial rows overwritten by
  the records of the file, return what the clients were told and end in the contents of the database.
  (A \<open>GET\<close> that was answered \<open>NOT_FOUND\<close> is not among these operations.)
\<close>

theorem bytes_serializable:
  assumes "distinct (accepts es)" and "les = assemble Map.empty es"
    and "updates_only h (loaded_db h data_file) (w_calls Map.empty les)"
    and "calls_bounded (\<lambda>_. 0) (w_calls Map.empty les)"
    and "Suc (record_count data_file) + length (w_calls Map.empty les) < 2 ^ 64" and "1022 \<le> stack_room m"
  shows "\<exists>e outs evs b. init_engine h m (Some data_schema_txt) data_file = Inr (True, record_count data_file, e) \<and>
    byte_run h (listening e) es = Inr (outs, b) \<and> w_run h (abs_net (serving e)) les = (outs, evs, abs_net (b_net b)) \<and>
    serial_run h (committed_ops evs) (content (loaded_db h data_file)) = Some (content (db_view (st (n_eng (b_net b)))))"
proof -
  obtain e outs evs n where e: "init_engine h m (Some data_schema_txt) data_file = Inr (True, record_count data_file, e)"
    "net_run h (serving e) les = Inr (outs, n)" "w_run h (abs_net (serving e)) les = (outs, evs, abs_net n)"
    "serial_run h (committed_ops evs) (content (loaded_db h data_file)) = Some (content (db_view (st (n_eng n))))"
    using server_lines_serializable [OF assms(3-6)] by blast
  have "forget_buffers (byte_run h (listening e) es) = Inr (outs, n)"
    using byte_run_lines [OF listening_ok [OF assms(1)], of h e] e(2) assms(2) by (simp add: listening_def)
  then obtain b where "byte_run h (listening e) es = Inr (outs, b)" "b_net b = n"
    by (auto simp: forget_buffers_def res_simps)
  then show ?thesis using e by blast
qed

text \<open>Two clients whose bytes alternate.\<close>

definition demo_bytes :: "sock_event list" where
  "demo_bytes = [Accept 0, Accept 1] @
     concat (map (\<lambda>(a, b). [Recvd 0 (Recv a), Recvd 1 (Recv b), Recvd 1 Recv_EINTR])
       (zip (''START'' @ [CHR 0x0D, CHR 0x0A] @ ''GET 3'' @ nl) (''start'' @ [CHR 0x0D, CHR 0x0A] @ ''PUT 4'' @ '' ''))) @
     map (\<lambda>a. Recvd 1 (Recv a)) (''x'' @ nl @ ''COMMIT'' @ nl) @
     map (\<lambda>a. Recvd 0 (Recv a)) (''COMMIT'' @ nl) @ [Recvd 0 Peer_Closed, Recvd 1 Recv_Error]"

lemma demo_bytes_lines:
  "assemble Map.empty demo_bytes = [Connect 0, Connect 1, Line 0 ''START'', Line 1 ''start'', Line 0 ''GET 3'', Line 1 ''PUT 4 x'',
     Line 1 ''COMMIT'', Line 0 ''COMMIT'', Lost 0, Lost 1]"
  "accepts demo_bytes = [0, 1]"
  by (simp_all add: demo_bytes_def MAX_LINE_def)

lemma demo_bytes_calls: "w_calls Map.empty (assemble Map.empty demo_bytes) =
    [(0, Begin_txn), (1, Begin_txn), (0, Get ''3''), (1, Put ''4'' ''x''), (1, Commit_txn), (0, Commit_txn)]"
  by (simp add: demo_bytes_lines demo_parse Let_def)

theorem bytes_are_lines_witness:
  "forget_buffers (byte_run demo_hash (listening (eng demo_start)) demo_bytes) =
     net_run demo_hash (serving (eng demo_start)) (assemble Map.empty demo_bytes) \<and>
   Connect 1 # client_events 1 (delivered 1 demo_bytes) =
     [Connect 1, Line 1 ''start'', Line 1 ''PUT 4 x'', Line 1 ''COMMIT'', Lost 1]"
proof -
  have d: "distinct (accepts demo_bytes)" "1 \<in> set (accepts demo_bytes)" by (simp_all add: demo_bytes_lines)
  note t = bytes_are_lines [OF d(1), of demo_hash "eng demo_start" Map.empty 0 "[]"]
  have "filter (\<lambda>ev. about ev = 1) (assemble Map.empty demo_bytes) = Connect 1 # client_events 1 (delivered 1 demo_bytes)"
    using t d(2) by blast
  moreover have "filter (\<lambda>ev. about ev = 1) (assemble Map.empty demo_bytes) =
      [Connect 1, Line 1 ''start'', Line 1 ''PUT 4 x'', Line 1 ''COMMIT'', Lost 1]"
    by (simp add: demo_bytes_lines(1))
  ultimately show ?thesis using conjunct1 [OF t] by metis
qed

theorem bytes_serializable_witness:
  "\<exists>e outs evs b. init_engine demo_hash demo_env (Some data_schema_txt) None = Inr (True, 0, e) \<and>
    byte_run demo_hash (listening e) demo_bytes = Inr (outs, b) \<and>
    w_run demo_hash (abs_net (serving e)) (assemble Map.empty demo_bytes) = (outs, evs, abs_net (b_net b)) \<and>
    serial_run demo_hash (committed_ops evs) (content initial_db) = Some (content (db_view (st (n_eng (b_net b)))))"
proof -
  have none: "loaded_db demo_hash None = initial_db" "record_count None = 0"
    by (simp_all add: loaded_db_def record_count_def)
  have "updates_only demo_hash (loaded_db demo_hash None) (w_calls Map.empty (assemble Map.empty demo_bytes))"
    by (auto simp: none demo_bytes_calls updates_only_def demo_simps)
  moreover have "calls_bounded (\<lambda>_. 0) (w_calls Map.empty (assemble Map.empty demo_bytes))"
    by (simp add: demo_bytes_calls MAX_ROW_PER_TXN_def)
  moreover have "Suc (record_count None) + length (w_calls Map.empty (assemble Map.empty demo_bytes)) < 2 ^ 64"
    by (simp add: none demo_bytes_calls)
  ultimately show ?thesis
    using bytes_serializable [OF _ refl, of demo_bytes demo_hash None demo_env] demo_env_room by (simp add: none demo_bytes_lines(2))
qed

end
