(* ===== verification/Primitives.thy ===== *)
theory Primitives
  imports Mem_Alloc Store
begin

text \<open>
  The lowest layer of \<open>Storage/System/helper.h\<close>: the atomic operations, the macros that allocate one
  object or array per partition with padding to whole cache lines, and the clock, as they are compiled
  here (\<open>NOGRAPHITE\<close> is defined by the build, the processor is an x86-64). The value of the processor's
  time stamp counter is a parameter.
\<close>

unbundle bit_operations_syntax

section \<open>Atomic operations\<close>

text \<open>Each macro returns a value and leaves a new value in its operand \<open>dest\<close>.\<close>

definition ATOM_ADD :: "u64 \<Rightarrow> u64 \<Rightarrow> u64 \<times> u64" where
  "ATOM_ADD dest v = (dest, dest + v)"

definition ATOM_SUB :: "u64 \<Rightarrow> u64 \<Rightarrow> u64 \<times> u64" where
  "ATOM_SUB dest v = (dest, dest - v)"

definition ATOM_CAS :: "'a \<Rightarrow> 'a \<Rightarrow> 'a \<Rightarrow> bool \<times> 'a" where
  "ATOM_CAS dest old new = (if dest = old then (True, new) else (False, dest))"

definition ATOM_ADD_FETCH :: "u64 \<Rightarrow> u64 \<Rightarrow> u64 \<times> u64" where
  "ATOM_ADD_FETCH dest v = (dest + v, dest + v)"

definition ATOM_FETCH_ADD :: "u64 \<Rightarrow> u64 \<Rightarrow> u64 \<times> u64" where
  "ATOM_FETCH_ADD dest v = (dest, dest + v)"

definition ATOM_SUB_FETCH :: "u64 \<Rightarrow> u64 \<Rightarrow> u64 \<times> u64" where
  "ATOM_SUB_FETCH dest v = (dest - v, dest - v)"

text \<open>The clock of the engine and the latch of a bucket are these operations.\<close>

lemma get_ts_atomic: "get_ts s = (let (old, new) = ATOM_FETCH_ADD (timestamp s) 1 in (old, s\<lparr>timestamp := new\<rparr>))"
  by (simp add: get_ts_def ATOM_FETCH_ADD_def)

lemma get_latch_atomic:
  "get_latch b = (let (ok, l) = ATOM_CAS (locked b) False True in if ok then Inr (b\<lparr>locked := l\<rparr>) else Inl Would_Block)"
  by (simp add: get_latch_def ATOM_CAS_def)

lemma release_latch_atomic:
  "release_latch b = (let (ok, l) = ATOM_CAS (locked b) True False in R_bind (R_assert ok) (\<lambda>_. Inr (b\<lparr>locked := l\<rparr>)))"
  by (cases "locked b") (simp_all add: release_latch_def ATOM_CAS_def R_assert_def)

section \<open>Arrays with padding\<close>

text \<open>
  The requests that \<open>ARR_PTR_MULTI(type, name, size, scale)\<close> makes for its objects, \<open>sz\<close> being
  \<open>sizeof(type)\<close>: \<open>Pool n i\<close> is \<open>mem_allocator.alloc(n, i)\<close>, \<open>New n\<close> an array of \<open>n\<close> objects from
  \<open>new\<close>. The sizes are 32-bit numbers. The flags are \<open>g_part_alloc || THREAD_ALLOC\<close> and \<open>g_mem_pad\<close>.
\<close>

datatype request = Pool u32 nat | New nat

definition pad_size :: "bool \<Rightarrow> u32 \<Rightarrow> u32" where
  "pad_size mem_pad n = (if mem_pad \<and> n mod CL_SIZE \<noteq> 0 then n + (CL_SIZE - n mod CL_SIZE) else n)"

definition arr_ptr_multi :: "bool \<Rightarrow> bool \<Rightarrow> u32 \<Rightarrow> nat \<Rightarrow> u32 \<Rightarrow> request list" where
  "arr_ptr_multi part mem_pad sz cnt scale =
     (if part then map (Pool (pad_size mem_pad (sz * scale))) [0 ..< cnt]
      else replicate cnt (New (unat scale)))"

definition arr_ptr :: "bool \<Rightarrow> bool \<Rightarrow> u32 \<Rightarrow> nat \<Rightarrow> request list" where
  "arr_ptr part mem_pad sz cnt = arr_ptr_multi part mem_pad sz cnt 1"

text \<open>\<open>ARR_PTR_INIT\<close> tests \<open>g_part_alloc\<close> only, and then stores \<open>value\<close> in every object.\<close>

definition arr_ptr_init :: "bool \<Rightarrow> bool \<Rightarrow> u32 \<Rightarrow> nat \<Rightarrow> 'a \<Rightarrow> request list \<times> 'a list" where
  "arr_ptr_init part_alloc mem_pad sz cnt v =
     ((if part_alloc then map (Pool (pad_size mem_pad sz)) [0 ..< cnt] else replicate cnt (New 1)), replicate cnt v)"

text \<open>A padded size is a whole number of cache lines, the least one that is large enough, unless it overflows.\<close>

lemma pad_size_ok:
  assumes "unat n + 64 < 2 ^ 32"
  shows "unat (pad_size True n) mod 64 = 0 \<and> unat n \<le> unat (pad_size True n) \<and> unat (pad_size True n) < unat n + 64"
proof -
  have r: "unat (n mod 64) = unat n mod 64" by (simp add: unat_mod)
  show ?thesis
  proof (cases "n mod 64 = 0")
    case True
    then have "unat n mod 64 = 0" using r by simp
    then show ?thesis using True by (simp add: pad_size_def CL_SIZE_def)
  next
    case False
    then have nz: "unat n mod 64 \<noteq> 0" using r by (metis unat_eq_zero)
    have "n mod 64 \<le> 64" by (simp add: word_le_nat_alt r)
    then have "unat (64 - n mod 64) = 64 - unat n mod 64" using r by (simp add: unat_sub)
    then have "unat (n + (64 - n mod 64)) = unat n + (64 - unat n mod 64)"
      using assms by (subst unat_plus_simple [THEN iffD1]) (auto simp: word_le_nat_alt unat_word_ariths)
    moreover have "(unat n + (64 - unat n mod 64)) mod 64 = 0"
      by presburger
    ultimately show ?thesis using False nz by (simp add: pad_size_def CL_SIZE_def)
  qed
qed

section \<open>The clock\<close>

text \<open>
  The conversion of a 64-bit number to \<open>double\<close> keeps its 53 most significant bits and rounds to the
  nearest, ties to even; \<open>to_double\<close> is the number it stands for. Dividing by \<open>CPU_FREQ\<close>, a power of
  two, is exact, and the conversion back truncates.
\<close>

fun bit_length :: "nat \<Rightarrow> nat" where
  "bit_length n = (if n = 0 then 0 else Suc (bit_length (n div 2)))"

declare bit_length.simps [simp del]

definition to_double :: "nat \<Rightarrow> nat" where
  "to_double n =
     (let k = bit_length n - 53; q = n div 2 ^ k; r = n mod 2 ^ k
      in if 2 ^ k < 2 * r \<or> (2 ^ k = 2 * r \<and> odd q) then (q + 1) * 2 ^ k else q * 2 ^ k)"

definition get_server_clock :: "u32 \<Rightarrow> u32 \<Rightarrow> u64" where
  "get_server_clock hi lo =
     (let ret = ucast lo OR push_bit 32 (ucast hi)
      in of_nat (to_double (unat (ret :: u64)) div CPU_FREQ))"

definition get_sys_clock :: "u32 \<Rightarrow> u32 \<Rightarrow> u64" where
  "get_sys_clock hi lo = get_server_clock hi lo"

lemma bit_length_less: "n < 2 ^ m \<Longrightarrow> bit_length n \<le> m"
proof (induction m arbitrary: n)
  case (Suc m)
  then have "n div 2 < 2 ^ m" by simp
  from Suc.IH [OF this] show ?case by (simp add: bit_length.simps [of n])
qed (simp add: bit_length.simps)

text \<open>The clock is exact, half the counter, for the first \<open>2 ^ 53\<close> ticks (52 days at 2 GHz).\<close>

lemma unat_u32_less: "unat (x :: u32) < 2 ^ 32"
  by (rule order_less_le_trans [OF unsigned_less]) simp

lemma counter_value:
  "unat (ucast lo OR push_bit 32 (ucast hi) :: u64) = unat (hi :: u32) * 2 ^ 32 + unat (lo :: u32)"
proof -
  have "(ucast lo :: u64) AND push_bit 32 (ucast hi) = 0"
    by (rule bit_eqI) (auto simp: bit_simps dest: bit_imp_le_length)
  then have "ucast lo OR push_bit 32 (ucast hi) = (ucast lo :: u64) + push_bit 32 (ucast hi)"
    by (simp add: disjunctive_add_eq_or)
  moreover have hi: "unat (push_bit 32 (ucast hi) :: u64) = unat hi * 2 ^ 32"
    using unat_u32_less [of hi] by (simp add: push_bit_eq_mult unat_word_ariths unat_ucast_u32_u64)
  have "unat ((ucast lo :: u64) + push_bit 32 (ucast hi)) = unat lo + unat hi * 2 ^ 32"
    using unat_u32_less [of hi] unat_u32_less [of lo] hi
    by (simp add: unat_word_ariths unat_ucast_u32_u64)
  ultimately show ?thesis by simp
qed

lemma get_sys_clock_exact:
  assumes "hi < 2 ^ 21"
  shows "unat (get_sys_clock hi lo) = (unat hi * 2 ^ 32 + unat lo) div 2"
proof -
  let ?n = "unat hi * 2 ^ 32 + unat lo"
  have "unat hi < 2 ^ 21" using assms by (simp add: word_less_nat_alt)
  then have n: "?n < 2 ^ 53" using unat_u32_less [of lo] by simp
  then have "bit_length ?n \<le> 53" by (rule bit_length_less)
  then have "to_double ?n = ?n" by (simp add: to_double_def Let_def)
  then have "unat (get_sys_clock hi lo) = unat (of_nat (?n div 2) :: u64)"
    by (simp add: get_sys_clock_def get_server_clock_def Let_def counter_value CPU_FREQ_def)
  also have "\<dots> = ?n div 2" unfolding unat_of_nat using n by simp
  finally show ?thesis .
qed

end
