(* ===== verification/Schema_File.thy ===== *)
theory Schema_File
  imports Workload
begin

text \<open>
  The schema files that \<open>workload::init_schema\<close> (\<open>Storage/test/wl.cpp\<close>) reads, and their printing: parsing
  a printed schema yields the tables and indexes it describes. The repository's own file
  (\<open>Storage/test/data_schema.txt\<close>) has this form after its first line, a comment.
\<close>

section \<open>Printing\<close>

text \<open>A table with its columns (size, type, name), or an index with the table it is on.\<close>

datatype schema_section =
    Table string "(u64 \<times> string \<times> string) list"
  | Index string string

abbreviation NL :: char where
  "NL \<equiv> CHR 0x0A"

fun print_col :: "u64 \<times> string \<times> string \<Rightarrow> string" where
  "print_col (sz, ty, nm) = ''    '' @ to_string (unat sz) @ '','' @ ty @ '','' @ nm"

fun print_section :: "schema_section \<Rightarrow> string" where
  "print_section (Table t fs) = ''TABLE='' @ t @ NL # concat (map (\<lambda>f. print_col f @ [NL]) fs) @ [NL]"
| "print_section (Index i t) = ''INDEX='' @ i @ NL # t @ '',1'' @ [NL]"

text \<open>What a section means.\<close>

fun load_section :: "mem_env \<Rightarrow> store \<Rightarrow> schema_section \<Rightarrow> store res" where
  "load_section g s (Table t fs) =
     R_bind (add_cols (catalog_init t (length fs)) fs) (\<lambda>c. Inr (s\<lparr>tables := (tables s)(t \<mapsto> table_init (tab_garbage g t) c)\<rparr>))"
| "load_section g s (Index i t) =
     R_bind (index_init_table (if tables s t = None then None else Some t)) (\<lambda>ix.
       Inr (s\<lparr>indexes := (indexes s)(i \<mapsto> ix)\<rparr>))"

fun load_sections :: "mem_env \<Rightarrow> store \<Rightarrow> schema_section list \<Rightarrow> store res" where
  "load_sections g s [] = Inr s"
| "load_sections g s (x # xs) = R_bind (load_section g s x) (\<lambda>s1. load_sections g s1 xs)"

text \<open>Names without line ends and NULs; in columns, and for the table of an index, without commas.\<close>

definition plain :: "string \<Rightarrow> bool" where
  "plain s \<longleftrightarrow> NL \<notin> set s \<and> NUL \<notin> set s"

definition word :: "string \<Rightarrow> bool" where
  "word s \<longleftrightarrow> plain s \<and> CHR '','' \<notin> set s"

fun printable :: "schema_section \<Rightarrow> bool" where
  "printable (Table t fs) \<longleftrightarrow> plain t \<and> (\<forall>(sz, ty, nm) \<in> set fs. unat sz < 2 ^ 31 \<and> word ty \<and> word nm \<and> nm \<noteq> [])"
| "printable (Index i t) \<longleftrightarrow> plain i \<and> word t"

section \<open>Numbers\<close>

lemma digit_char:
  assumes "(n :: nat) < 10"
  shows "of_char (char_of (48 + n) :: char) = (48 + n :: nat)" "of_char (char_of (48 + n) :: char) = 48 + int n"
proof -
  show *: "of_char (char_of (48 + n) :: char) = (48 + n :: nat)" using assms by simp
  then show "of_char (char_of (48 + n) :: char) = 48 + int n"
    by (subst of_nat_of_char [symmetric]) simp
qed

lemma isdigit_char: "(n :: nat) < 10 \<Longrightarrow> isdigit (char_of (48 + n))"
  by (simp add: isdigit_def)

lemma isdigit_to_string: "\<forall>c \<in> set (to_string n). isdigit c"
proof (induction n rule: to_string.induct)
  case (1 n)
  then show ?case by (auto simp: to_string.simps [of n] isdigit_char)
qed

lemma to_string_nonempty [simp]: "to_string n \<noteq> []"
  by (simp add: to_string.simps [of n])

lemma dec_value_snoc: "dec_value (ds @ [c]) = 10 * dec_value ds + (of_char c - 48)"
  by (simp add: dec_value_def)

lemma dec_value_to_string: "dec_value (to_string n) = int n"
proof (induction n rule: to_string.induct)
  case (1 n)
  show ?case
  proof (cases "n < 10")
    case True
    then show ?thesis by (simp add: to_string.simps [of n] dec_value_def digit_char(2) del: of_char_of)
  next
    case False
    have "dec_value (to_string n) = 10 * int (n div 10) + int (n mod 10)"
      using 1 False by (simp add: to_string.simps [of n] dec_value_snoc digit_char(2) del: of_char_of)
    also have "\<dots> = int (10 * (n div 10) + n mod 10)" by (simp only: of_nat_add of_nat_mult of_nat_numeral)
    also have "10 * (n div 10) + n mod 10 = n" by simp
    finally show ?thesis .
  qed
qed

lemma digit_facts: "isdigit c \<Longrightarrow> \<not> isspace c \<and> c \<noteq> NUL \<and> c \<noteq> NL \<and> c \<noteq> CHR '','' \<and> c \<noteq> CHR ''-'' \<and> c \<noteq> CHR ''+''"
  by (auto simp: isdigit_def isspace_def)

lemma atoi_to_string:
  assumes "n < 2 ^ 31"
  shows "atoi (''    '' @ to_string n) = Inr (int n)"
proof -
  obtain d ds where ds: "to_string n = d # ds" by (cases "to_string n") auto
  have dig: "isdigit d" "\<forall>c \<in> set ds. isdigit c" using isdigit_to_string [of n] ds by auto
  have "c_str (''    '' @ to_string n) = ''    '' @ to_string n"
    by (rule c_str_id) (use isdigit_to_string [of n] digit_facts in \<open>auto simp: nul_free_def\<close>)
  moreover have "isspace (CHR '' '')" by (simp add: isspace_def)
  moreover have tw: "takeWhile isdigit ds = ds" using dig(2) by (simp add: takeWhile_eq_all_conv)
  have "dec_value (d # takeWhile isdigit ds) = int n" by (simp only: tw ds [symmetric] dec_value_to_string)
  ultimately show ?thesis
    using dig(1) digit_facts [of d] assms by (simp add: atoi_def ds Let_def)
qed

section \<open>Lines and tokens\<close>

lemma cut_at:
  assumes "c \<notin> set a"
  shows "takeWhile (\<lambda>x. x \<noteq> c) (a @ c # b) = a" "dropWhile (\<lambda>x. x \<noteq> c) (a @ c # b) = c # b"
    "takeWhile (\<lambda>x. x \<noteq> c) a = a"
  using assms by (induction a) auto

lemma comma_first:
  assumes "CHR '','' \<notin> set a"
  shows "comma_tokens (a @ CHR '','' # b) = a # comma_tokens b"
  using cut_at(1,2) [OF assms, of b] by (simp add: comma_tokens.simps [of "a @ CHR '','' # b"] Let_def)

lemma comma_last:
  assumes "CHR '','' \<notin> set a" and "a \<noteq> []"
  shows "comma_tokens a = [a]"
proof -
  have t: "takeWhile (\<lambda>c. c \<noteq> CHR '','') a = a" by (rule cut_at(3) [OF assms(1)])
  show ?thesis
    unfolding comma_tokens.simps [of a] t Let_def using assms(2) by (simp add: comma_tokens.simps [of "[]"])
qed

lemma getline_line:
  assumes "NL \<notin> set l"
  shows "getline \<lparr>rest = l @ NL # r, good = True\<rparr> x = (True, l, \<lparr>rest = r, good = True\<rparr>)"
  using cut_at(1,2) [OF assms, of r] by (simp add: getline_def Let_def)

lemma plain_c_str [simp]: "plain s \<Longrightarrow> c_str s = s"
  by (simp add: plain_def nul_free_def c_str_id)

lemma parse_col_print:
  assumes "unat sz < 2 ^ 31" and "word ty" and "word nm" and "nm \<noteq> []"
  shows "parse_col c (print_col (sz, ty, nm)) = add_col c nm sz ty"
proof -
  have num: "CHR '','' \<notin> set (''    '' @ to_string (unat sz))"
    using isdigit_to_string [of "unat sz"] digit_facts by auto
  have "comma_tokens (print_col (sz, ty, nm)) = [''    '' @ to_string (unat sz), ty, nm]"
    using comma_first [OF num, of "ty @ '','' @ nm"] comma_first [of ty nm] comma_last [of nm] assms(2-4)
    by (simp add: word_def)
  moreover have "c_str ty = ty" "c_str nm = nm" using assms(2,3) by (simp_all add: word_def)
  ultimately show ?thesis using atoi_to_string [OF assms(1)] by (simp add: parse_col_def)
qed

lemma parse_cols_print:
  assumes "\<forall>(sz, ty, nm) \<in> set fs. unat sz < 2 ^ 31 \<and> word ty \<and> word nm \<and> nm \<noteq> []"
  shows "parse_cols c (map print_col fs) = add_cols c fs"
  using assms
proof (induction fs arbitrary: c)
  case (Cons f fs)
  obtain sz ty nm where f: "f = (sz, ty, nm)" by (cases f)
  with Cons show ?case
    using parse_col_print [of sz ty nm c] by (cases "add_col c nm sz ty") (auto simp del: print_col.simps)
qed simp

lemma read_lines_print:
  assumes "\<forall>(sz, ty, nm) \<in> set fs. word ty \<and> word nm"
  shows "\<exists>l f. getline \<lparr>rest = concat (map (\<lambda>f. print_col f @ [NL]) fs) @ NL # r, good = True\<rparr> x = (True, l, f) \<and>
     read_lines f l = Some (map print_col fs, [], \<lparr>rest = r, good = True\<rparr>)"
  using assms
proof (induction fs arbitrary: x)
  case Nil
  have "read_lines \<lparr>rest = r, good = True\<rparr> [] = Some ([], [], \<lparr>rest = r, good = True\<rparr>)" by (simp add: read_lines.simps)
  then show ?case using getline_line [of "[]" r x] by simp
next
  case (Cons f fs)
  obtain sz ty nm where f: "f = (sz, ty, nm)" by (cases f)
  let ?l = "print_col f" and ?r = "concat (map (\<lambda>f. print_col f @ [NL]) fs) @ NL # r"
  have nl: "NL \<notin> set ?l"
    using Cons.prems isdigit_to_string [of "unat sz"] digit_facts by (auto simp: f word_def plain_def)
  obtain l1 f1 where 1: "getline \<lparr>rest = ?r, good = True\<rparr> ?l = (True, l1, f1)"
    "read_lines f1 l1 = Some (map print_col fs, [], \<lparr>rest = r, good = True\<rparr>)"
    using Cons.IH [of ?l] Cons.prems by auto
  have "length ?l > 1" by (simp add: f)
  then have "read_lines \<lparr>rest = ?r, good = True\<rparr> ?l = Some (?l # map print_col fs, [], \<lparr>rest = r, good = True\<rparr>)"
    using 1 by (simp add: read_lines.simps [of _ ?l] del: print_col.simps)
  then show ?case using getline_line [OF nl, of ?r x] by (simp del: print_col.simps)
qed

section \<open>Sections\<close>

lemma loop_table_step:
  assumes "getline f x = (True, ''TABLE='' @ t, f1)" and "plain t" and "getline f1 (''TABLE='' @ t) = (True, l2, f2)"
    and "read_lines f2 l2 = Some (ls, l3, f3)"
  shows "schema_loop g f x s = R_bind (parse_cols (catalog_init t (length ls)) ls) (\<lambda>c.
    schema_loop g f3 l3 (s\<lparr>tables := (tables s)(t \<mapsto> table_init (tab_garbage g t) c)\<rparr>))"
  using assms by (simp add: schema_loop.simps [of g f x s])

lemma loop_index_step:
  assumes "getline f x = (True, ''INDEX='' @ i, f1)" and "plain i" and "getline f1 (''INDEX='' @ i) = (True, l2, f2)"
    and "comma_tokens l2 = t # ts"
  shows "schema_loop g f x s = R_bind (index_init_table (if tables s t = None then None else Some t)) (\<lambda>ix.
    schema_loop g f2 [] (s\<lparr>indexes := (indexes s)(i \<mapsto> ix)\<rparr>))"
  using assms by (simp add: schema_loop.simps [of g f x s])

lemma loop_table:
  assumes "printable (Table t fs)"
  shows "schema_loop g \<lparr>rest = print_section (Table t fs) @ r, good = True\<rparr> x s =
    R_bind (load_section g s (Table t fs)) (\<lambda>s1. schema_loop g \<lparr>rest = r, good = True\<rparr> [] s1)"
proof -
  let ?r = "concat (map (\<lambda>f. print_col f @ [NL]) fs) @ NL # r" and ?l = "''TABLE='' @ t"
  have t: "plain t" "NL \<notin> set ?l" using assms by (simp_all add: plain_def)
  have cols: "\<forall>(sz, ty, nm) \<in> set fs. unat sz < 2 ^ 31 \<and> word ty \<and> word nm \<and> nm \<noteq> []"
    using assms unfolding printable.simps by (rule conjunct2)
  then have "\<forall>(sz, ty, nm) \<in> set fs. word ty \<and> word nm" by blast
  then obtain l f where 2: "getline \<lparr>rest = ?r, good = True\<rparr> ?l = (True, l, f)"
    "read_lines f l = Some (map print_col fs, [], \<lparr>rest = r, good = True\<rparr>)"
    using read_lines_print [of fs r ?l] by blast
  have "print_section (Table t fs) @ r = ?l @ NL # ?r" by (simp del: print_col.simps)
  then have "schema_loop g \<lparr>rest = print_section (Table t fs) @ r, good = True\<rparr> x s =
      R_bind (parse_cols (catalog_init t (length (map print_col fs))) (map print_col fs)) (\<lambda>c.
        schema_loop g \<lparr>rest = r, good = True\<rparr> [] (s\<lparr>tables := (tables s)(t \<mapsto> table_init (tab_garbage g t) c)\<rparr>))"
    by (simp only:) (rule loop_table_step [OF getline_line [OF t(2)] t(1) 2])
  then show ?thesis by (simp add: parse_cols_print [OF cols] R_bind_assoc del: print_section.simps)
qed

lemma loop_index:
  assumes "printable (Index i t)"
  shows "schema_loop g \<lparr>rest = print_section (Index i t) @ r, good = True\<rparr> x s =
    R_bind (load_section g s (Index i t)) (\<lambda>s1. schema_loop g \<lparr>rest = r, good = True\<rparr> [] s1)"
proof -
  let ?l = "''INDEX='' @ i" and ?l2 = "t @ '',1''"
  have p: "plain i" "NL \<notin> set ?l" "NL \<notin> set ?l2" "CHR '','' \<notin> set t" using assms by (simp_all add: plain_def word_def)
  have tok: "comma_tokens ?l2 = t # [''1'']" using comma_first [OF p(4), of "''1''"] comma_last [of "''1''"] by simp
  have "print_section (Index i t) @ r = ?l @ NL # (?l2 @ NL # r)" by simp
  then have "schema_loop g \<lparr>rest = print_section (Index i t) @ r, good = True\<rparr> x s =
      R_bind (index_init_table (if tables s t = None then None else Some t)) (\<lambda>ix.
        schema_loop g \<lparr>rest = r, good = True\<rparr> [] (s\<lparr>indexes := (indexes s)(i \<mapsto> ix)\<rparr>))"
    by (simp only:) (rule loop_index_step [OF getline_line [OF p(2)] p(1) getline_line [OF p(3)] tok])
  then show ?thesis by (simp add: R_bind_assoc del: print_section.simps)
qed

lemma loop_end: "schema_loop g \<lparr>rest = [], good = True\<rparr> x s = Inr s"
  by (simp add: schema_loop.simps [of g "\<lparr>rest = [], good = True\<rparr>"] getline_def)

text \<open>
  C40. Round trip of schemas: for every list of tables and indexes that can be printed, parsing the printed
  file has exactly the effect of creating these tables, with these columns, and these indexes one
  after the other; it stops where creating them would (a name of 80 or more characters, an index on a
  table that does not exist).
\<close>

theorem schema_roundtrip:
  assumes "\<forall>x \<in> set secs. printable x"
  shows "init_schema g (Some (concat (map print_section secs))) s = load_sections g s secs"
proof -
  have "schema_loop g \<lparr>rest = concat (map print_section secs), good = True\<rparr> x s = load_sections g s secs" for x
    using assms
  proof (induction secs arbitrary: x s)
    case Nil
    show ?case by (simp add: loop_end)
  next
    case (Cons sec secs)
    then show ?case
    proof (cases sec)
      case (Table t fs)
      then show ?thesis using Cons loop_table [of t fs g "concat (map print_section secs)" x s]
        by (cases "load_section g s sec") (simp_all del: print_section.simps printable.simps load_section.simps)
    next
      case (Index i t)
      then show ?thesis using Cons loop_index [of i t g "concat (map print_section secs)" x s]
        by (cases "load_section g s sec") (simp_all del: print_section.simps printable.simps load_section.simps)
    qed
  qed
  then show ?thesis by (simp add: init_schema_def open_file_def)
qed

text \<open>The environment plays no part in it but for the sizes the tables start with.\<close>

definition some_env :: mem_env where
  "some_env = \<lparr>tab_garbage = (\<lambda>_. 5), stack_room = 0\<rparr>"

theorem schema_roundtrip_witness:
  "init_schema some_env (Some (concat (map print_section [Table ''T'' [(8, ''int'', ''A''), (16, ''string'', ''B'')], Index ''I'' ''T''])))
     workload_new = load_sections some_env workload_new [Table ''T'' [(8, ''int'', ''A''), (16, ''string'', ''B'')], Index ''I'' ''T'']"
  by (rule schema_roundtrip) (simp add: plain_def word_def)

section \<open>A file that ends in a table section\<close>

text \<open>The column lines of a table section at the end of a file, the last one without a line end.\<close>

definition cut_lines :: "string list \<Rightarrow> string \<Rightarrow> string" where
  "cut_lines ls l = concat (map (\<lambda>x. x @ [NL]) ls) @ l"

lemma getline_last:
  assumes "NL \<notin> set l"
  shows "getline \<lparr>rest = l, good = True\<rparr> x = (l \<noteq> [], l, \<lparr>rest = [], good = False\<rparr>)"
proof -
  have "takeWhile (\<lambda>c. c \<noteq> NL) l = l" "dropWhile (\<lambda>c. c \<noteq> NL) l = []" using assms by auto
  then show ?thesis by (simp only: getline_def Let_def ifstream.simps list.case not_True_eq_False if_False)
qed

text \<open>Reading them, the loop passes the last line, then finds it again in every round.\<close>

lemma read_lines_cut:
  assumes "\<forall>y \<in> set (l # ls). 1 < length y \<and> NL \<notin> set y"
  shows "\<exists>ok l1 f1. getline \<lparr>rest = cut_lines ls l, good = True\<rparr> x = (ok, l1, f1) \<and> read_lines f1 l1 = None"
  using assms
proof (induction ls arbitrary: x)
  case Nil
  then show ?case using getline_last [of l x] read_lines_bad [of "\<lparr>rest = [], good = False\<rparr>" l] by (simp add: cut_lines_def)
next
  case (Cons y ls)
  let ?f = "\<lparr>rest = cut_lines ls l, good = True\<rparr>"
  obtain ok l1 f1 where 1: "getline ?f y = (ok, l1, f1)" "read_lines f1 l1 = None" using Cons.IH [of y] Cons.prems by auto
  have "1 < length y" "NL \<notin> set y" using Cons.prems by simp_all
  then have "getline \<lparr>rest = cut_lines (y # ls) l, good = True\<rparr> x = (True, y, ?f)" "read_lines ?f y = None"
    using getline_line [of y "cut_lines ls l" x] 1 by (simp_all add: cut_lines_def read_lines.simps [of _ y])
  then show ?case by blast
qed

lemma loop_sections:
  assumes "\<forall>x \<in> set secs. printable x"
  shows "schema_loop m \<lparr>rest = concat (map print_section secs) @ r, good = True\<rparr> x s =
    (if secs = [] then schema_loop m \<lparr>rest = r, good = True\<rparr> x s
     else R_bind (load_sections m s secs) (\<lambda>s1. schema_loop m \<lparr>rest = r, good = True\<rparr> [] s1))"
  using assms
proof (induction secs arbitrary: x s)
  case (Cons sec secs)
  have "schema_loop m \<lparr>rest = concat (map print_section (sec # secs)) @ r, good = True\<rparr> x s =
      R_bind (load_section m s sec) (\<lambda>s1. schema_loop m \<lparr>rest = concat (map print_section secs) @ r, good = True\<rparr> [] s1)"
    using loop_table [of _ _ m "concat (map print_section secs) @ r" x s] loop_index [of _ _ m "concat (map print_section secs) @ r" x s]
      Cons.prems by (cases sec) (simp_all del: print_section.simps load_section.simps printable.simps)
  then show ?case
    using Cons.IH Cons.prems by (cases "load_section m s sec"; cases secs) (simp_all del: print_section.simps load_section.simps)
qed simp

lemma loop_table_hang:
  assumes "getline f x = (True, ''TABLE='' @ t, f1)" and "getline f1 (''TABLE='' @ t) = (ok, l2, f2)" and "read_lines f2 l2 = None"
  shows "schema_loop g f x s = Inl Out_Of_Memory"
  using assms by (simp add: schema_loop.simps [of g f x s])

text \<open>
  C32. A schema file that ends in a table section whose last column line has no line end hangs the parser,
  whatever well-formed sections come before it and whatever columns the section has: the loop over the
  column lines does not look at the result of \<open>getline\<close>, which leaves the line as it is at the end of
  the file. The loop collects this line again and again until memory runs out.
\<close>

theorem unterminated_table_section:
  assumes "\<forall>x \<in> set secs. printable x" and "load_sections m s secs = Inr s1" and "NL \<notin> set t"
    and "\<forall>y \<in> set (l # ls). 1 < length y \<and> NL \<notin> set y"
  shows "(\<exists>ok l1 f1. getline \<lparr>rest = cut_lines ls l, good = True\<rparr> (''TABLE='' @ t) = (ok, l1, f1) \<and> read_lines f1 l1 = None) \<and>
    init_schema m (Some (concat (map print_section secs) @ ''TABLE='' @ t @ NL # cut_lines ls l)) s = Inl Out_Of_Memory"
proof -
  let ?l = "''TABLE='' @ t" and ?f = "\<lparr>rest = cut_lines ls l, good = True\<rparr>"
  obtain ok l1 f1 where g: "getline ?f ?l = (ok, l1, f1)" "read_lines f1 l1 = None"
    using read_lines_cut [OF assms(4)] by blast
  have "NL \<notin> set ?l" using assms(3) by simp
  then have "getline \<lparr>rest = ?l @ NL # cut_lines ls l, good = True\<rparr> x = (True, ?l, ?f)" for x
    by (rule getline_line)
  then have loop: "schema_loop m \<lparr>rest = ''TABLE='' @ t @ NL # cut_lines ls l, good = True\<rparr> x s' = Inl Out_Of_Memory" for x s'
    unfolding append_assoc using g by (rule loop_table_hang)
  have "init_schema m (Some (concat (map print_section secs) @ ''TABLE='' @ t @ NL # cut_lines ls l)) s = Inl Out_Of_Memory"
    unfolding init_schema_def open_file_def option.case loop_sections [OF assms(1)] loop using assms(2) by simp
  then show ?thesis using g by blast
qed

theorem unterminated_table_section_witness:
  "init_schema some_env (Some (concat (map print_section [Table ''S'' [(8, ''int'', ''A'')]]) @
     ''TABLE='' @ ''T'' @ NL # cut_lines [''    8,int,A''] ''    4,int,B'')) workload_new = Inl Out_Of_Memory"
proof -
  have "case load_sections some_env workload_new [Table ''S'' [(8, ''int'', ''A'')]] of Inr _ \<Rightarrow> True | Inl _ \<Rightarrow> False"
    by code_simp
  then obtain s1 where "load_sections some_env workload_new [Table ''S'' [(8, ''int'', ''A'')]] = Inr s1"
    by (auto split: sum.splits)
  moreover have "\<forall>x \<in> set [Table ''S'' [(8 :: u64, ''int'', ''A'')]]. printable x" by (simp add: plain_def word_def)
  ultimately show ?thesis
    using unterminated_table_section [of "[Table ''S'' [(8, ''int'', ''A'')]]" some_env workload_new s1 "''T''"
        "''    4,int,B''" "[''    8,int,A'']"] by simp
qed

end
