(* ===== verification/Spec2Isabelle.thy ===== *)
theory Spec2Isabelle
  imports Anomalies Insert_Race Demo Helper Mem_Alloc Test_Txn Workload_Class Listener Network Thread_Linear Thread_Bridge Node_List Index_Threads Descriptors Byte_Server Primitives Schema_File
begin

text \<open>
  DataAgentDB, the transactional key-value server of this repository, in Isabelle/HOL: the storage engine
  under \<open>src/Storage\<close> (schemas, rows, a hash index, optimistic concurrency control), the key-value API
  and the line protocol under \<open>src/Server\<close>, and \<open>src/main.cpp\<close>, which starts the engine and the server.

  How the program works. \<open>main\<close> loads the schema and the data file into the engine (\<open>init_engine\<close>), opens
  a listening socket and accepts connections; each connection runs \<open>handle_client\<close> in a thread of its
  own. A session reads lines (\<open>START\<close>, \<open>GET\<close>, \<open>PUT\<close>, \<open>COMMIT\<close>, \<open>ABORT\<close>, \<open>QUIT\<close>) and calls the API
  (\<open>begin_txn\<close>, \<open>get\<close>, \<open>put\<close>, \<open>commit\<close>, \<open>abort_txn\<close>). A transaction (\<open>txn_man\<close>) draws a start time,
  copies every row it accesses under the row's mutex (\<open>Row_occ::access\<close>, refused if the row was updated
  after the start), and works on its copies. To commit, \<open>OptCC::validate\<close> sorts the accesses, latches
  the rows in this order, checks that none was updated since the start, draws an end time, writes the
  copies back and releases the latches. A new key is put into the index at once, by \<open>Write\<close>.

  Theories, in the order in which they build on each other:

  \<^item> \<open>Prelude\<close>: faults, the result type \<open>res\<close>, bytes, C strings, \<open>strncpy\<close>, \<open>strcmp\<close>, \<open>memcpy\<close>; the
    collections \<open>res_simps\<close> and \<open>wf_defs\<close>. \<open>Config\<close>: constants and enumerations of \<open>config.h\<close>,
    \<open>global.h\<close>, \<open>helper.h\<close>, \<open>kv_api.h\<close>.
  \<^item> \<open>Catalog\<close> (\<open>catalog.h/.cpp\<close>), \<open>Index_Hash\<close> (\<open>index_hash.h/.cpp\<close>), \<open>Store\<close> (\<open>row.h/.cpp\<close>, \<open>table.h/.cpp\<close>,
    \<open>Row_occ\<close>, \<open>Manager::get_ts\<close>), \<open>Row_Values\<close> (typed columns), \<open>Occ\<close> (\<open>txn_man::get_row\<close>, \<open>cleanup\<close>,
    \<open>OptCC\<close>), \<open>Txn\<close> (\<open>Read\<close>, \<open>Write\<close>, \<open>finish\<close>), \<open>Kv_Api\<close> (\<open>kv_api.h/.cpp\<close>): the code, one function per
    operation, on a \<open>store\<close> of rows, tables and indexes by address.
  \<^item> \<open>Views\<close>, \<open>Txn_Refine\<close>, \<open>Lock_Order\<close>, \<open>Commit\<close>, \<open>Validate\<close>: the invariant of the store and of a
    transaction (\<open>wf_store\<close>, \<open>wf_txn\<close>), what they stand for (\<open>db_view\<close>, \<open>acc_view\<close>), and what each
    operation does to these views. \<open>System\<close>: several clients, the abstract protocol \<open>a_step\<close> and the
    proof that the code refines it. \<open>Serializability\<close>, \<open>Isolation\<close>: what the protocol guarantees.
  \<^item> \<open>Text\<close> (the library routines on strings), \<open>Workload\<close> (\<open>wl.cpp\<close>, \<open>test_wl.cpp\<close>), \<open>Workload_Class\<close> (the
    classes of \<open>wl.h\<close> and \<open>test.h\<close> as whole objects, \<open>workload::index_insert\<close>, \<open>get_txn_man\<close>), \<open>Schema_File\<close>
    (printing and parsing schemas), \<open>Engine\<close> (\<open>init_engine\<close>), \<open>Init_Ok\<close>: the engine starts in a
    well-formed state with the contents of the files. \<open>Demo\<close>: a concrete engine and history for the witnesses.
  \<^item> \<open>Server\<close> (\<open>read_line\<close>, \<open>send_all\<close>), \<open>Listener\<close> (socket, accept loop, \<open>main\<close>), \<open>Session\<close> (\<open>handle_client\<close>),
    \<open>Network\<close>: several connections on one engine, against an abstract server. \<open>Program\<close>: the start of
    the engine and the connections together. \<open>Byte_Server\<close>: the same with the threads reading byte by byte.
  \<^item> \<open>Threads\<close>, \<open>Thread_Props\<close>, \<open>Thread_Linear\<close>, \<open>Thread_Bridge\<close>: transactions of several threads at the
    granularity of the row latches. \<open>Index_Threads\<close>: a bucket of the index shared by threads, on a heap with pointers.
  \<^item> \<open>Manager\<close> (\<open>manager.h/.cpp\<close>, \<open>thread.h/.cpp\<close>), \<open>Descriptors\<close> (the rest of \<open>txn_man\<close>, \<open>set_ent\<close>,
    \<open>OptCC::init\<close>), \<open>Mem_Alloc\<close> (\<open>mem_alloc.h/.cpp\<close>), \<open>Helper\<close> (\<open>helper.h/.cpp\<close>), \<open>Node_List\<close> (the list
    macros of \<open>helper.h\<close>), \<open>Primitives\<close> (its atomic operations, array macros and clock),
    \<open>Test_Txn\<close> (\<open>test_txn.cpp\<close>), and \<open>Anomalies\<close> and \<open>Insert_Race\<close>: where the program departs from what its
    interface promises.

  Correspondence. A class is a \<open>record\<close> with its fields, an enumeration a \<open>datatype\<close>, \<open>uint64_t\<close> a
  \<open>64 word\<close>. An operation takes the state it reads and returns the state it leaves; a null or dangling
  pointer that is followed, an index out of range, a failed \<open>assert\<close>, the use of an indeterminate byte, or
  waiting for a mutex nobody releases is a \<open>fault\<close>, so that \<open>= Inr\<close> in a theorem also says that none of
  this happens. Memory from \<open>malloc\<close> is indeterminate (\<open>Uninit\<close>) until it is written.

  What the groups of lemmas show.

  \<^item> Calls. \<open>run_refines\<close>: on well-formed states every interleaving of calls behaves as the abstract
    protocol. On top of it: \<open>serializable\<close>, \<open>commit_atomic\<close>, \<open>first_committer_wins\<close>, \<open>reads_are_stable\<close>,
    \<open>only_commits_change\<close>, and \<open>init_engine_correct\<close> for the state the history starts from.
  \<^item> Lines. \<open>wire_refines\<close> lifts this to what clients send and receive, \<open>bytes_are_lines\<close> relates it
    to the bytes that interleave on the sockets and to \<open>handle_client\<close>, and \<open>bytes_serializable\<close> composes
    both with the start of the engine into a statement about the whole server. \<open>put_line_roundtrip\<close>,
    \<open>session_leaves_nothing\<close>, \<open>read_line_whole\<close>, \<open>read_line_bounded\<close>, \<open>send_all_prefix\<close> are about one session.
  \<^item> Threads. The model of calls executes a call at a time. \<open>Threads\<close> drops this: \<open>threads_serializable\<close>,
    \<open>threads_exclusive\<close>, \<open>threads_progress\<close>, \<open>threads_finish\<close> hold for every interleaving of the single
    latch operations, reads, writes and clock increments, and \<open>calls_are_schedules\<close> shows that each run
    of calls that puts existing keys only is one of these interleavings, with answers (\<open>cs_out\<close>, what the
    threads reply) that explain the replies of the engine. \<open>threads_linearizable\<close> is the other direction: every
    interleaving has the answers and effects of a machine that executes each call in one step, which
    justifies the model of calls for transactions of reads and updates. A put of a new key is not atomic in this
    sense: \<open>put_race_loses_commit\<close> interleaves its two halves with another client. \<open>latch_order\<close> and \<open>no_latch_cycle\<close> say of the code's sort what
    \<open>Threads\<close> uses. \<open>bucket_linearizable\<close> and \<open>bucket_ops_finish\<close> do the same for the index: the
    functions of \<open>Index_Hash\<close> are what interleaved inserts and lookups amount to.
  \<^item> Data structures: \<open>index_is_multimap\<close>, \<open>catalog_fields_disjoint\<close>, \<open>catalog_build_layout\<close>,
    \<open>typed_value_roundtrip\<close>, \<open>arena_blocks_disjoint\<close>, \<open>every_thread_finds_its_arena\<close>, \<open>time_stamps_unique\<close>,
    \<open>list_macros_queue\<close>, \<open>schema_roundtrip\<close>, \<open>listen_socket_no_leak\<close>.
  \<^item> Defects, each a theorem about the code's model: \<open>aborted_insert_dangles\<close>, \<open>uncommitted_insert_visible\<close>,
    \<open>stale_read_not_found\<close>, \<open>put_race_loses_commit\<close>, \<open>long_key_lost\<close>, \<open>unterminated_table_section\<close>, \<open>test_transactions_fault\<close>.

  Interfaces. The locale \<open>key_index\<close> is what the transaction layer relies on of an index, interpreted on
  the hash index (\<open>hash_ix\<close>); \<open>kv_api\<close> is what a session relies on of the API, interpreted on the engine
  (\<open>engine_api\<close>); \<open>list_queue\<close> is a queue, interpreted on the list macros (\<open>macro_list\<close>). \<open>lock_key\<close>, the
  order of the latches, is an instance of \<open>linorder\<close>.

  Choices and bounds.

  \<^item> Code that is not in the repository is a parameter: \<open>std::hash\<close>, the addresses \<open>malloc\<close> returns, what
    the operating system answers to \<open>recv\<close>, \<open>send\<close>, \<open>socket\<close> and the others, \<open>RAND_MAX\<close>, the contents of
    the files. The theorems hold for every hash function; two keys with one hash value share a row.
  \<^item> A transaction has room for \<open>MAX_ROW_PER_TXN\<close> = 64 rows and the code does not check it
    (\<open>access_array_overflow\<close>); \<open>a_oks\<close> and \<open>calls_bounded\<close> ask the clients to keep to it. The clock has 64
    bits and does not wrap in the histories considered. \<open>Threads\<close> has no bound on the accesses.
  \<^item> Serializability is for reads and updates of existing keys; inserts are visible before the commit,
    as \<open>uncommitted_insert_visible\<close> shows, two threads can insert one key (\<open>put_race_loses_commit\<close>), and \<open>a_oks\<close> excludes the rollback of an insert, which
    leaves a dangling row.
  \<^item> Memory is sequentially consistent. The lookups in the index take no latch and race with inserts;
    \<open>Index_Threads\<close> says what the algorithm does on such memory, not what the C++ memory model promises.
  \<^item> Loops are structural, or \<open>function\<close>s with a measure, except two \<open>partial_function\<close>s, where \<open>None\<close> is not
    ending: \<open>Mem_Alloc.probe\<close> (\<open>every_thread_finds_its_arena\<close> says when it ends) and \<open>Workload.read_lines\<close>, the
    loop that collects the columns of a table (\<open>unterminated_table_section\<close>). As this loop grows a vector,
    a program in which it does not end runs out of memory (\<open>R_loop\<close>, the fault \<open>Out_Of_Memory\<close>). No
    definition uses fuel; the loops over sockets end with the list of answers.
  \<^item> Memory around the objects. \<open>row_t::set_value\<close> copies as many bytes as the column has, also from the
    temporary one-digit strings of \<open>init_table\<close> and from the numbers of the typed variants. How many bytes
    can be read behind such an object on the stack is a parameter (\<open>on_stack\<close>, \<open>stack_room\<close>); the bytes
    are indeterminate, and reading further is the fault \<open>Out_Of_Bounds\<close>: the engine starts if there are
    1022 of them and not otherwise (\<open>init_engine_correct\<close>). \<open>mem_env\<close> holds this number and the
    indeterminate row counter of each table.
  \<^item> Freed memory is not used again: a dangling pointer that is followed is always a fault. The sizes in
    \<open>Mem_Alloc\<close> are \<open>int\<close>s, and one that leaves the range is a fault. The items under a key of the index are
    a list, although the first item's next pointer is never set (see the findings).
  \<^item> A table keeps its name by value, where the code keeps a pointer to a string that is destroyed
    (see the findings of the manifest); the engine has the one table and index of the shipped schema.

  Not modelled. \<open>thread_t::run\<close>: its body is commented out. The statistics
  macros (\<open>stats.h\<close> is missing), \<open>set_affinity\<close> (a \<open>return\<close>), \<open>print_schema\<close> and the output of the tests, the benchmark
  constants of \<open>config.h\<close> that no code reads, functions that are declared and have no body
  (\<open>delete_row\<close>, \<open>applywrite\<close>, \<open>Access::cleanup\<close>), the Python client under \<open>src/Agent\<close>, and the
  output of CMake under \<open>src/cmake-build-debug\<close>.
\<close>

section \<open>The protocol\<close>

text \<open>
  C3. Refinement: on a well-formed system any interleaving of client calls allowed by \<open>a_oks\<close> (room
  in the arrays of the transactions, a clock that does not wrap, no rollback of a transaction that
  inserted rows) runs through without a fault and without blocking, leaves the system well-formed,
  and every answer and the final abstract state are those of the abstract protocol.
\<close>

theorem run_refines:
  assumes "wf_sys y" and "a_oks h (abs_sys y) cs"
  shows "\<exists>evs y'. run h y cs = Inr (evs, y') \<and> wf_sys y' \<and> a_run h (abs_sys y) cs = (evs, abs_sys y')"
  using assms by (rule run_ok)

theorem run_refines_witness:
  "\<exists>y'. run demo_hash demo_start demo_calls =
     Inr ([(0, Begin_txn, Rc_OK, []), (1, Begin_txn, Rc_OK, []), (0, Get ''3'', Rc_OK, ''3''),
       (0, Put ''3'' ''x'', Rc_OK, []), (1, Get ''3'', Rc_OK, ''3''), (1, Put ''4'' ''x'', Rc_OK, []),
       (0, Commit_txn, Rc_OK, []), (1, Commit_txn, Rc_ABORT, []), (1, Begin_txn, Rc_OK, []),
       (1, Get ''3'', Rc_OK, ''x''), (1, Commit_txn, Rc_OK, [])], y')"
proof -
  have oks: "a_oks demo_hash (abs_sys demo_start) demo_calls"
    using demo_oks by (simp add: demo_start_ok(2))
  from run_refines [OF demo_start_ok(1) oks] show ?thesis
    using demo_run_value by (auto simp: demo_start_ok(2))
qed

text \<open>
  C2. Serializability: from a well-formed system without running transactions, every interleaving of
  calls that put existing keys only, with at most \<open>MAX_ROW_PER_TXN\<close> reads and writes in each transaction
  and fewer calls than the clock has room for, runs without a fault and without blocking. The reads and
  writes that were answered \<open>OK\<close> in the transactions whose commit was answered \<open>OK\<close>, executed one
  transaction after the other in commit order on the initial contents, return the same values and end
  in the final contents. (A \<open>get\<close> answered \<open>NOT_FOUND\<close> is not replayed: \<open>stale_read_not_found\<close>.)
\<close>

theorem serializable:
  assumes "wf_sys y" and "\<forall>c. impl (handles y c) = None"
    and "updates_only h (db_view (st (eng y))) cs" and "calls_bounded (\<lambda>_. 0) cs"
    and "unat (timestamp (st (eng y))) + length cs < 2 ^ 64"
  shows "\<exists>evs y'. run h y cs = Inr (evs, y') \<and>
    serial_run h (committed_ops evs) (content (db_view (st (eng y)))) =
      Some (content (db_view (st (eng y'))))"
  using assms by (rule run_serializable)

theorem serializable_witness:
  "\<exists>evs y'. run demo_hash demo_start demo_calls = Inr (evs, y') \<and>
    serial_run demo_hash (committed_ops evs) (content initial_db) = Some (content (db_view (st (eng y'))))"
proof -
  have "updates_only demo_hash (db_view (st (eng demo_start))) demo_calls"
    using demo_updates by (simp add: demo_start_ok(4))
  moreover have "unat (timestamp (st (eng demo_start))) + length demo_calls < 2 ^ 64"
    by (simp add: demo_start_ok(5) demo_calls_def)
  moreover have "\<forall>c. impl (handles demo_start c) = None" using demo_start_ok(3) by blast
  ultimately show ?thesis
    using serializable [OF demo_start_ok(1) _ _ demo_bounded] demo_start_ok(4) by metis
qed

section \<open>One transaction among others\<close>

text \<open>
  C10. Commit is atomic, for a transaction that has inserted no rows: on a well-formed system whose
  clock does not wrap its commit runs without a fault and either succeeds, exactly when no row it
  accessed was updated after it started, and installs all its writes with one new update time and
  nothing else, or answers \<open>ABORT\<close> and leaves the committed rows as they were. In both cases the
  transaction has ended and no latch is left behind.
\<close>

theorem commit_atomic:
  assumes "wf_sys y" and "impl (handles y c) = Some ctx" and "insert_rows (ctx_txn ctx) = []"
    and "timestamp (st (eng y)) + 1 \<noteq> 0"
  shows "\<exists>rc y'. api_step h y c Commit_txn = Inr (rc, [], y') \<and> wf_sys y' \<and> impl (handles y' c) = None \<and>
    (if a_valid (db_view (st (eng y))) (acc_view (st (eng y)) (ctx_txn ctx)) (start_ts (ctx_txn ctx))
     then rc = Rc_OK \<and> db_view (st (eng y')) =
       a_write_back (db_view (st (eng y))) (acc_view (st (eng y)) (ctx_txn ctx)) (timestamp (st (eng y)))
     else rc = Rc_ABORT \<and> db_view (st (eng y')) = db_view (st (eng y)))"
proof -
  let ?a = "abs_sys y"
  have x: "a_txns ?a c = Some (abs_txn (st (eng y)) (ctx_txn ctx))" using assms(2) by simp
  have "a_ok h ?a c Commit_txn" using assms by (simp add: abs_txn_def)
  then obtain rc v y' where s: "api_step h y c Commit_txn = Inr (rc, v, y')" "wf_sys y'"
    "a_step h ?a c Commit_txn = (rc, v, abs_sys y')"
    using api_step_ok [OF assms(1)] unfolding refines_def by blast
  let ?v = "a_valid (db_view (st (eng y))) (acc_view (st (eng y)) (ctx_txn ctx)) (start_ts (ctx_txn ctx))"
  define a' where "a' = abs_sys y'"
  have a': "v = [] \<and> a_txns a' c = None \<and> (if ?v then rc = Rc_OK \<and> a_db a' =
      a_write_back (db_view (st (eng y))) (acc_view (st (eng y)) (ctx_txn ctx)) (timestamp (st (eng y)))
    else rc = Rc_ABORT \<and> a_db a' = db_view (st (eng y)))"
    using s(3) x unfolding a'_def [symmetric] by (auto simp: abs_txn_def split: if_splits)
  then have "impl (handles y' c) = None" by (simp add: a'_def)
  then show ?thesis using s(1,2) a' by (auto simp: a'_def)
qed

theorem commit_atomic_witness:
  "\<exists>y'. api_step demo_hash (demo_at demo_race) 0 Commit_txn = Inr (Rc_OK, [], y') \<and>
     db_view (st (eng y')) 3 = Some \<lparr>a_key = ''3'', a_val = ''x'', a_wts = 3\<rparr> \<and>
     db_view (st (eng y')) 4 = Some \<lparr>a_key = ''4'', a_val = ''4'', a_wts = 0\<rparr>"
proof -
  let ?y = "demo_at demo_race"
  obtain ctx where ctx: "impl (handles ?y 0) = Some ctx"
    "acc_view (st (eng ?y)) (ctx_txn ctx) = [3 \<mapsto> \<lparr>aw = True, ak = ''3'', av = ''x''\<rparr>]"
    "start_ts (ctx_txn ctx) = 1" "length (insert_rows (ctx_txn ctx)) = 0"
    using demo_ctx [OF demo_race_oks demo_race_abs(1)] by auto
  note view = demo_abs_view [OF demo_race_oks, unfolded demo_race_abs(3,4)]
  show ?thesis
    using commit_atomic [OF demo_at_ok(1) [OF demo_race_oks] ctx(1), of demo_hash] ctx(2-4) view
    by (auto simp: a_valid_def a_write_back_def demo_rows)
qed

text \<open>
  C9. First committer wins, and no update is lost: once the commit of one client has written a row
  that another running transaction has read or written, that transaction can no longer commit,
  whatever it and all the others do in between: its commit answers \<open>ABORT\<close>.
\<close>

theorem first_committer_wins:
  assumes "wf_sys y" and "c \<noteq> d" and "impl (handles y c) = Some ctx" and "impl (handles y d) = Some ctx'"
    and "acc_view (st (eng y)) (ctx_txn ctx) pk = Some l" and "aw l"
    and "pk \<in> dom (acc_view (st (eng y)) (ctx_txn ctx'))"
    and "a_ok h (abs_sys y) c Commit_txn" and "api_step h y c Commit_txn = Inr (Rc_OK, v, y1)"
    and "keeps_open d cs" and "a_oks h (abs_sys y1) (cs @ [(d, Commit_txn)])"
  shows "\<exists>evs y2. run h y1 (cs @ [(d, Commit_txn)]) = Inr (evs @ [(d, Commit_txn, Rc_ABORT, [])], y2)"
proof -
  note st = step_abs [OF assms(1,8,9)]
  have "start_ts (ctx_txn ctx') < timestamp (st (eng y))"
    using wf_sysD(2) [OF assms(1,4)] by (simp add: wf_txn_def)
  then have "doomed (abs_sys y1) d"
    using assms(2-8) by (intro commit_dooms [OF _ _ _ _ _ _ st(2)]) (auto simp: abs_txn_def)
  then have "doomed a d" if "a_run h (abs_sys y1) cs = (evs, a)" for evs a
    using doomed_run [OF _ _ assms(10) that] assms(11) by (simp add: a_oks_append)
  then show ?thesis
    by (intro run_last [OF st(1) assms(11)] doomed_commit) blast
qed

theorem first_committer_wins_witness:
  "\<exists>y1 evs y2. api_step demo_hash (demo_at demo_race) 0 Commit_txn = Inr (Rc_OK, [], y1) \<and>
     run demo_hash y1 ([(1, Get ''4''), (0, Begin_txn)] @ [(1, Commit_txn)]) =
       Inr (evs @ [(1, Commit_txn, Rc_ABORT, [])], y2)"
proof -
  let ?y = "demo_at demo_race"
  obtain ctx where ctx: "impl (handles ?y 0) = Some ctx"
    "acc_view (st (eng ?y)) (ctx_txn ctx) = [3 \<mapsto> \<lparr>aw = True, ak = ''3'', av = ''x''\<rparr>]"
    using demo_ctx [OF demo_race_oks demo_race_abs(1)] by auto
  obtain ctx' where ctx': "impl (handles ?y 1) = Some ctx'"
    "acc_view (st (eng ?y)) (ctx_txn ctx') = [3 \<mapsto> \<lparr>aw = False, ak = ''3'', av = ''3''\<rparr>]"
    using demo_ctx [OF demo_race_oks demo_race_abs(2)] by auto
  let ?a = "demo_abs_at demo_race"
  have ok: "a_ok demo_hash (abs_sys ?y) 0 Commit_txn"
    unfolding demo_at_ok(2) [OF demo_race_oks] by (simp add: demo_race_abs)
  obtain y1 where y1: "api_step demo_hash ?y 0 Commit_txn = Inr (Rc_OK, [], y1)"
    "a_step demo_hash ?a 0 Commit_txn = (Rc_OK, [], abs_sys y1)"
    using api_step_ok [OF demo_at_ok(1) [OF demo_race_oks] ok] unfolding refines_def demo_at_ok(2) [OF demo_race_oks]
    by (auto simp: demo_race_abs a_valid_def demo_rows)
  have a1: "abs_sys y1 = snd (snd (a_step demo_hash ?a 0 Commit_txn))" by (simp only: y1(2) snd_conv)
  have oks: "a_oks demo_hash (abs_sys y1) ([(1, Get ''4''), (0, Begin_txn)] @ [(1, Commit_txn)])"
    unfolding a1 by (simp add: demo_race_def demo_eval a_room_def MAX_ROW_PER_TXN_def)
  have keep: "keeps_open 1 [(1, Get ''4''), (0, Begin_txn)]" by (auto simp: keeps_open_def)
  show ?thesis
    using first_committer_wins [OF demo_at_ok(1) [OF demo_race_oks] _ ctx(1) ctx'(1) _ _ _ ok y1(1) keep oks]
      ctx(2) ctx'(2) y1(1) by auto
qed

text \<open>
  C11. A transaction reads its own writes and keeps reading what it has read: after a successful \<open>put\<close>
  of a key of fewer than 128 characters, or a successful \<open>get\<close>, a later \<open>get\<close> of the same key
  returns the value put (cut to the column) or the value read, whatever other clients do and commit
  in between.
\<close>

theorem reads_are_stable:
  assumes "wf_sys y" and "a_ok h (abs_sys y) c call" and "api_step h y c call = Inr (Rc_OK, v, y1)"
    and "call = Put key val \<and> length (c_str key) < 128 \<and> w = trunc_val val \<or> call = Get key \<and> w = v"
    and "others_only c cs" and "a_oks h (abs_sys y1) (cs @ [(c, Get key)])"
  shows "\<exists>evs y2. run h y1 (cs @ [(c, Get key)]) = Inr (evs @ [(c, Get key, Rc_OK, w)], y2)"
proof -
  note st = step_abs [OF assms(1-3)]
  obtain x l where l: "a_txns (abs_sys y1) c = Some x" "at_acc x (h key) = Some l" "ak l = c_str key"
    "av l = w" "a_db (abs_sys y1) (h key) \<noteq> None"
  proof (cases "call = Get key")
    case True
    then have "w = v" using assms(4) by auto
    then show ?thesis using get_copy [OF st(2) [unfolded True]] that by metis
  next
    case False
    then have call: "call = Put key val" "length (c_str key) < 128" "w = trunc_val val" using assms(4) by auto
    show ?thesis using put_copy [OF st(2) [unfolded call(1)] call(2)] that call(3) by metis
  qed
  have "\<exists>a'. a_step h a c (Get key) = (Rc_OK, w, a')" if "a_run h (abs_sys y1) cs = (evs, a)" for evs a
    using later_get [of "abs_sys y1" c x h key l cs evs a] l that assms(5) by simp
  then show ?thesis by (intro run_last [OF st(1) assms(6)]) blast
qed

theorem reads_are_stable_witness:
  "\<exists>y1 evs y2. api_step demo_hash (demo_at demo_race) 1 (Put ''4'' ''x'') = Inr (Rc_OK, [], y1) \<and>
     run demo_hash y1 ([(0, Commit_txn), (0, Begin_txn), (0, Get ''4'')] @ [(1, Get ''4'')]) =
       Inr (evs @ [(1, Get ''4'', Rc_OK, ''x'')], y2)"
proof -
  let ?y = "demo_at demo_race" and ?a = "demo_abs_at demo_race"
  have ok: "a_ok demo_hash (abs_sys ?y) 1 (Put ''4'' ''x'')"
    unfolding demo_at_ok(2) [OF demo_race_oks] by (simp add: demo_race_abs demo_simps a_room_def MAX_ROW_PER_TXN_def del: One_nat_def)
  obtain y1 where y1: "api_step demo_hash ?y 1 (Put ''4'' ''x'') = Inr (Rc_OK, [], y1)"
    "a_step demo_hash ?a 1 (Put ''4'' ''x'') = (Rc_OK, [], abs_sys y1)"
    using api_step_ok [OF demo_at_ok(1) [OF demo_race_oks] ok] unfolding refines_def demo_at_ok(2) [OF demo_race_oks]
    by (auto simp: demo_race_abs demo_simps a_update_def a_access_def simp del: One_nat_def)
  have a1: "abs_sys y1 = snd (snd (a_step demo_hash ?a 1 (Put ''4'' ''x'')))" by (simp only: y1(2) snd_conv)
  have oks: "a_oks demo_hash (abs_sys y1) ([(0, Commit_txn), (0, Begin_txn), (0, Get ''4'')] @ [(1, Get ''4'')])"
    unfolding a1 by (simp add: demo_race_def demo_eval a_room_def MAX_ROW_PER_TXN_def)
  have "others_only 1 [(0, Commit_txn), (0, Begin_txn), (0, Get ''4'')]" by (auto simp: others_only_def)
  from reads_are_stable [OF demo_at_ok(1) [OF demo_race_oks] ok y1(1) _ this oks, of "''x''" "''x''"]
  show ?thesis using y1(1) by (auto simp: demo_strings)
qed

text \<open>
  C12. Isolation of updates, for calls the protocol covers (\<open>a_ok\<close>: room in the arrays, a clock that does
  not wrap, a rollback or a refused commit only of a transaction that has inserted no rows) that put
  existing keys only: the committed rows change by successful commits only. Beginning, reading,
  updating, a refused commit and a rollback, by any client, run without a fault and leave every
  committed row, its value and its update time as they were.
\<close>

theorem only_commits_change:
  assumes "wf_sys y" and "a_ok h (abs_sys y) c call" and "updates_only h (db_view (st (eng y))) [(c, call)]"
  shows "\<exists>rc v y'. api_step h y c call = Inr (rc, v, y') \<and> wf_sys y' \<and>
    (\<not> (call = Commit_txn \<and> rc = Rc_OK) \<longrightarrow> db_view (st (eng y')) = db_view (st (eng y)))"
proof -
  obtain rc v y' where s: "api_step h y c call = Inr (rc, v, y')" "wf_sys y'"
    "a_step h (abs_sys y) c call = (rc, v, abs_sys y')"
    using api_step_ok [OF assms(1,2)] unfolding refines_def by blast
  have "a_db (abs_sys y) (h key) \<noteq> None" if "call = Put key val" for key val
    using assms(3) that by (simp add: updates_only_def)
  then have "\<not> (call = Commit_txn \<and> rc = Rc_OK) \<longrightarrow> a_db (abs_sys y') = a_db (abs_sys y)"
    using a_step_quiet [OF s(3)] by blast
  then show ?thesis using s(1,2) by auto
qed

theorem only_commits_change_witness:
  "\<exists>rc v y'. api_step demo_hash (demo_at demo_race) 0 (Put ''4'' ''x'') = Inr (rc, v, y') \<and>
     db_view (st (eng y')) 4 = Some \<lparr>a_key = ''4'', a_val = ''4'', a_wts = 0\<rparr>"
proof -
  let ?y = "demo_at demo_race"
  have ok: "a_ok demo_hash (abs_sys ?y) 0 (Put ''4'' ''x'')"
    unfolding demo_at_ok(2) [OF demo_race_oks] by (simp add: demo_race_abs demo_simps a_room_def MAX_ROW_PER_TXN_def)
  note view = demo_abs_view [OF demo_race_oks, unfolded demo_race_abs(3,4)]
  have "updates_only demo_hash (db_view (st (eng ?y))) [(0, Put ''4'' ''x'')]"
    by (simp add: updates_only_def view demo_simps)
  from only_commits_change [OF demo_at_ok(1) [OF demo_race_oks] ok this] show ?thesis
    by (auto simp: view demo_rows)
qed

section \<open>Latches\<close>

text \<open>
  C16. The latches of a validation are taken in strictly increasing order of table name and primary
  key: sorting returns, keeps the accesses a permutation of what they were, and puts their rows in
  the order of \<open>lock_key\<close>, no row twice.
\<close>

theorem latch_order:
  assumes "wf_store s" and "wf_txn s t"
  shows "\<exists>t'. sort_accesses s t = Inr t' \<and> mset (acc_list t') = mset (acc_list t) \<and>
    sorted_wrt (<) (map (\<lambda>a. access_key s (Some a)) (acc_list t'))"
  using latches_sorted [OF assms] by metis

theorem latch_order_witness:
  "\<exists>t t'. row_cnt t = 2 \<and> sort_accesses (st (eng (demo_at demo_pair))) t = Inr t' \<and>
    mset (acc_list t') = mset (acc_list t) \<and>
    sorted_wrt (<) (map (\<lambda>a. access_key (st (eng (demo_at demo_pair))) (Some a)) (acc_list t'))"
proof -
  obtain t where "wf_store (st (eng (demo_at demo_pair)))" "wf_txn (st (eng (demo_at demo_pair))) t" "row_cnt t = 2"
    by (rule demo_pair_txns)
  with latch_order [of "st (eng (demo_at demo_pair))" t] show ?thesis by blast
qed

text \<open>
  Two validations never wait for each other: there are no two rows that one transaction latches
  in one order and another transaction in the opposite order.
\<close>

theorem no_latch_cycle:
  assumes "wf_store s" and "wf_txn s t" and "wf_txn s u"
    and "sort_accesses s t = Inr t'" and "sort_accesses s u = Inr u'"
    and "i < j" "j < row_cnt t" and "k < l" "l < row_cnt u"
  shows "\<not> (orig_row (acc_list t' ! i) = orig_row (acc_list u' ! l) \<and>
    orig_row (acc_list t' ! j) = orig_row (acc_list u' ! k))"
proof
  assume eq: "orig_row (acc_list t' ! i) = orig_row (acc_list u' ! l) \<and>
    orig_row (acc_list t' ! j) = orig_row (acc_list u' ! k)"
  let ?key = "\<lambda>a. access_key s (Some a)"
  have "sorted_wrt (<) (map ?key (acc_list t'))" "length (acc_list t') = row_cnt t"
    using latches_sorted [OF assms(1,2)] assms(4) by auto
  then have "?key (acc_list t' ! i) < ?key (acc_list t' ! j)"
    using assms(6,7) by (simp add: sorted_wrt_iff_nth_less)
  moreover have "sorted_wrt (<) (map ?key (acc_list u'))" "length (acc_list u') = row_cnt u"
    using latches_sorted [OF assms(1,3)] assms(5) by auto
  then have "?key (acc_list u' ! k) < ?key (acc_list u' ! l)"
    using assms(8,9) by (simp add: sorted_wrt_iff_nth_less)
  moreover have "?key (acc_list t' ! i) = ?key (acc_list u' ! l)"
    "?key (acc_list t' ! j) = ?key (acc_list u' ! k)"
    using eq access_key_cong by blast+
  ultimately show False by simp
qed

theorem no_latch_cycle_witness:
  "\<exists>t u t' u'. sort_accesses (st (eng (demo_at demo_pair))) t = Inr t' \<and>
    sort_accesses (st (eng (demo_at demo_pair))) u = Inr u' \<and> row_cnt t = 2 \<and> row_cnt u = 2 \<and>
    \<not> (orig_row (acc_list t' ! 0) = orig_row (acc_list u' ! 1) \<and>
       orig_row (acc_list t' ! 1) = orig_row (acc_list u' ! 0))"
proof -
  let ?s = "st (eng (demo_at demo_pair))"
  obtain t u where tu: "wf_store ?s" "wf_txn ?s t" "wf_txn ?s u" "row_cnt t = 2" "row_cnt u = 2"
    by (rule demo_pair_txns)
  obtain t' where t': "sort_accesses ?s t = Inr t'" by (rule latches_sorted [OF tu(1,2)])
  obtain u' where u': "sort_accesses ?s u = Inr u'" by (rule latches_sorted [OF tu(1,3)])
  have "\<not> (orig_row (acc_list t' ! 0) = orig_row (acc_list u' ! 1) \<and>
       orig_row (acc_list t' ! 1) = orig_row (acc_list u' ! 0))"
    by (rule no_latch_cycle [OF tu(1-3) t' u']) (simp_all add: tu)
  then show ?thesis using t' u' tu(4,5) by blast
qed

end
